(* ===== verification/CC_Prelude.thy ===== *)
theory CC_Prelude
  imports Main "HOL-Library.Word"
begin

text \<open>
  Shared vocabulary of the development: the machine types of an LP64 target, the two ways the
  library is built (with and without \<^verbatim>\<open>NDEBUG\<close>), the ways an operation can go wrong, and
  the result type every fallible operation returns, with the lemmas on lists and machine words the
  components share.
\<close>

section \<open>Machine types\<close>

type_synonym addr = "64 word"
type_synonym size_t = "64 word"
type_synonym byte = "8 word"

text \<open>The null pointer.\<close>

abbreviation (input) NULL :: addr where
  "NULL \<equiv> 0"

section \<open>Errors and results\<close>

text \<open>
  \<^verbatim>\<open>CCASSERT\<close> (include/ccore/log.h) aborts in a debug build and expands to nothing under
  \<^verbatim>\<open>NDEBUG\<close>.  The other errors are the undefined behaviours an operation can run into:
  an access through a pointer that is not mapped, an access outside an object, a read of memory
  that was never written, an integer division by zero, an overflow of signed arithmetic, a float to
  integer conversion whose value does not fit.
\<close>

datatype build = Debug | NDebug

datatype c_error =
  AssertFail | BadDeref | OutOfBounds | Uninit | DivByZero | SignedOverflow | BadConversion

type_synonym 'a res = "c_error + 'a"

definition bindE :: "'e + 'a \<Rightarrow> ('a \<Rightarrow> 'e + 'b) \<Rightarrow> 'e + 'b" where
  "bindE r f = (case r of Inl e \<Rightarrow> Inl e | Inr x \<Rightarrow> f x)"

definition ccassert :: "build \<Rightarrow> bool \<Rightarrow> unit res" where
  "ccassert bd b = (if bd = Debug \<and> \<not> b then Inl AssertFail else Inr ())"

lemma bindE_simps [simp]:
  "bindE (Inl e) f = Inl e"
  "bindE (Inr x) f = f x"
  by (simp_all add: bindE_def)

lemma bindE_eq_Inr: "bindE r f = Inr y \<longleftrightarrow> (\<exists>x. r = Inr x \<and> f x = Inr y)"
  by (cases r) auto

lemma bindE_eq_Inl: "bindE r f = Inl e \<longleftrightarrow> r = Inl e \<or> (\<exists>x. r = Inr x \<and> f x = Inl e)"
  by (cases r) auto

lemma bindE_assoc: "bindE (bindE r f) g = bindE r (\<lambda>x. bindE (f x) g)"
  by (cases r) simp_all

lemma ccassert_True [simp]: "ccassert bd True = Inr ()"
  by (simp add: ccassert_def)

lemma ccassert_NDebug [simp]: "ccassert NDebug b = Inr ()"
  by (simp add: ccassert_def)

lemma ccassert_Debug_False [simp]: "ccassert Debug False = Inl AssertFail"
  by (simp add: ccassert_def)

lemma ccassert_holds: "b \<Longrightarrow> ccassert bd b = Inr ()"
  by simp

section \<open>Consecutive elements of a list\<close>

text \<open>
  \<^const>\<open>successively\<close> relates each element of a list to the next one.  The two lemmas below
  change the relation along a list: the first element of a pair is never the last one of the list,
  the second one never the first.
\<close>

lemma successively_frame:
  assumes "successively P xs"
    and "\<And>a b. P a b \<Longrightarrow> a \<in> set (butlast xs) \<Longrightarrow> b \<in> set (tl xs) \<Longrightarrow> Q a b"
  shows "successively Q xs"
  using assms
proof (induction xs rule: induct_list012)
  case (3 x y zs)
  have "successively Q (y # zs)"
  proof (rule "3.IH"(2))
    show "successively P (y # zs)"
      using "3.prems"(1) by simp
    show "Q a b" if "P a b" "a \<in> set (butlast (y # zs))" "b \<in> set (tl (y # zs))" for a b
      using that by (intro "3.prems"(2)) (auto split: if_splits)
  qed
  with "3.prems" show ?case by simp
qed simp_all

lemma successively_insert:
  assumes "successively P xs" "successively P ys" "xs \<noteq> []" "ys \<noteq> []"
    and "P (last xs) x" "P x (hd ys)"
  shows "successively P (xs @ x # ys)"
  using assms by (cases ys) (simp_all add: successively_append_iff)

lemma last_Cons_mem: "last (x # xs) \<in> set (x # xs)"
  by (rule last_in_set) simp

lemma hd_snoc_mem: "hd (xs @ [x]) \<in> set (xs @ [x])"
  by (rule hd_in_set) simp

lemma hd_not_in_tl: "distinct xs \<Longrightarrow> xs \<noteq> [] \<Longrightarrow> hd xs \<notin> set (tl xs)"
  by (cases xs) simp_all

lemma last_not_in_butlast: "distinct xs \<Longrightarrow> xs \<noteq> [] \<Longrightarrow> last xs \<notin> set (butlast xs)"
  by (cases xs rule: rev_cases) simp_all

section \<open>Lists of distinct machine words\<close>

lemma distinct_words_length:
  fixes xs :: "64 word list"
  assumes "distinct xs"
  shows "length xs \<le> 2 ^ 64"
proof -
  have "length xs = card (set xs)"
    using assms by (simp add: distinct_card)
  also have "\<dots> \<le> card (UNIV :: 64 word set)"
    by (rule card_mono) simp_all
  also have "\<dots> = 2 ^ 64"
    by (simp add: card_word)
  finally show ?thesis .
qed

lemma unat_of_nat_small:
  assumes "n < 2 ^ 64"
  shows "unat (of_nat n :: 64 word) = n" "unat (of_nat n + 1 :: 64 word) = Suc n mod 2 ^ 64"
proof -
  show "unat (of_nat n :: 64 word) = n"
    using assms by (simp add: unat_of_nat take_bit_eq_mod)
  have "of_nat n + 1 = (of_nat (Suc n) :: 64 word)"
    by simp
  then show "unat (of_nat n + 1 :: 64 word) = Suc n mod 2 ^ 64"
    by (simp only: unat_of_nat take_bit_eq_mod) simp
qed

lemma unat_of_nat_length:
  fixes xs :: "64 word list"
  assumes "distinct (x # xs)"
  shows "unat (of_nat (length xs) :: 64 word) = length xs"
proof -
  have "length xs < 2 ^ 64"
    using distinct_words_length [OF assms] by simp
  then show ?thesis
    by (rule unat_of_nat_small)
qed

text \<open>Stepping an index that is below a bound.\<close>

lemma unat_step:
  assumes "(i :: 'a :: len word) < n"
  shows "unat (i + 1) = Suc (unat i)"
proof -
  have "unat i + 1 < 2 ^ LENGTH('a)"
    using assms unsigned_less [of n, where ?'a = nat] unfolding word_less_nat_alt by linarith
  then have "unat (i + 1) = unat i + unat (1 :: 'a word)"
    by (subst unat_add_lem [symmetric]) simp
  then show ?thesis by simp
qed

end
