(* ===== verification/CC_List.thy ===== *)
theory CC_List
  imports CC_Prelude
begin

text \<open>
  The intrusive doubly linked list (src/list.c, include/ccore/list.h), at the level of its
  pointers.  A list is a ring of \<^verbatim>\<open>cclist_node_t\<close>s that runs through the list's own
  \<^verbatim>\<open>head\<close> field; an object belongs to it through a node embedded at \<^verbatim>\<open>offset\<close> bytes
  from the object's start.  The memory holds the two kinds of storage the operations touch: nodes,
  and the \<^verbatim>\<open>size\<close>/\<^verbatim>\<open>offset\<close> fields of list headers.  A mapped address is allocated
  storage; its contents are arbitrary until written.
\<close>

section \<open>Memory\<close>

record lnode =
  n_prev :: addr
  n_next :: addr

record lhdr =
  l_size :: size_t
  l_offset :: size_t

record lmem =
  nodes :: "addr \<Rightarrow> lnode option"
  hdrs :: "addr \<Rightarrow> lhdr option"

text \<open>The embedded \<^verbatim>\<open>head\<close> node follows the \<^verbatim>\<open>size\<close> field of \<^verbatim>\<open>cclist_t\<close>.\<close>

definition head_of :: "addr \<Rightarrow> addr" where
  "head_of l = l + 8"

definition rd_next :: "lmem \<Rightarrow> addr \<Rightarrow> addr res" where
  "rd_next m p = (case nodes m p of None \<Rightarrow> Inl BadDeref | Some n \<Rightarrow> Inr (n_next n))"

definition rd_prev :: "lmem \<Rightarrow> addr \<Rightarrow> addr res" where
  "rd_prev m p = (case nodes m p of None \<Rightarrow> Inl BadDeref | Some n \<Rightarrow> Inr (n_prev n))"

definition wr_next :: "lmem \<Rightarrow> addr \<Rightarrow> addr \<Rightarrow> lmem res" where
  "wr_next m p v = (case nodes m p of
      None \<Rightarrow> Inl BadDeref
    | Some n \<Rightarrow> Inr (m\<lparr>nodes := (nodes m)(p \<mapsto> n\<lparr>n_next := v\<rparr>)\<rparr>))"

definition wr_prev :: "lmem \<Rightarrow> addr \<Rightarrow> addr \<Rightarrow> lmem res" where
  "wr_prev m p v = (case nodes m p of
      None \<Rightarrow> Inl BadDeref
    | Some n \<Rightarrow> Inr (m\<lparr>nodes := (nodes m)(p \<mapsto> n\<lparr>n_prev := v\<rparr>)\<rparr>))"

definition rd_size :: "lmem \<Rightarrow> addr \<Rightarrow> size_t res" where
  "rd_size m l = (case hdrs m l of None \<Rightarrow> Inl BadDeref | Some h \<Rightarrow> Inr (l_size h))"

definition wr_size :: "lmem \<Rightarrow> addr \<Rightarrow> size_t \<Rightarrow> lmem res" where
  "wr_size m l v = (case hdrs m l of
      None \<Rightarrow> Inl BadDeref
    | Some h \<Rightarrow> Inr (m\<lparr>hdrs := (hdrs m)(l \<mapsto> h\<lparr>l_size := v\<rparr>)\<rparr>))"

definition rd_offset :: "lmem \<Rightarrow> addr \<Rightarrow> size_t res" where
  "rd_offset m l = (case hdrs m l of None \<Rightarrow> Inl BadDeref | Some h \<Rightarrow> Inr (l_offset h))"

definition wr_offset :: "lmem \<Rightarrow> addr \<Rightarrow> size_t \<Rightarrow> lmem res" where
  "wr_offset m l v = (case hdrs m l of
      None \<Rightarrow> Inl BadDeref
    | Some h \<Rightarrow> Inr (m\<lparr>hdrs := (hdrs m)(l \<mapsto> h\<lparr>l_offset := v\<rparr>)\<rparr>))"

section \<open>Operations\<close>

definition get_node :: "lmem \<Rightarrow> addr \<Rightarrow> addr \<Rightarrow> addr res" where
  "get_node m l ptr = bindE (rd_offset m l) (\<lambda>off. Inr (ptr + off))"

definition get_ptr :: "lmem \<Rightarrow> addr \<Rightarrow> addr \<Rightarrow> addr res" where
  "get_ptr m l node = bindE (rd_offset m l) (\<lambda>off. Inr (node - off))"

definition cclist_init :: "build \<Rightarrow> lmem \<Rightarrow> addr \<Rightarrow> size_t \<Rightarrow> lmem res" where
  "cclist_init bd m l off =
     bindE (ccassert bd (l \<noteq> NULL)) (\<lambda>_.
     bindE (wr_size m l 0) (\<lambda>m.
     bindE (wr_next m (head_of l) (head_of l)) (\<lambda>m.
     bindE (wr_prev m (head_of l) (head_of l)) (\<lambda>m.
     wr_offset m l off))))"

definition cclist_do_insert_after :: "lmem \<Rightarrow> addr \<Rightarrow> addr \<Rightarrow> addr \<Rightarrow> lmem res" where
  "cclist_do_insert_after m l object node =
     bindE (get_node m l object) (\<lambda>item.
     bindE (wr_prev m item node) (\<lambda>m.
     bindE (rd_next m node) (\<lambda>nx.
     bindE (wr_next m item nx) (\<lambda>m.
     bindE (rd_next m node) (\<lambda>nx.
     bindE (wr_prev m nx item) (\<lambda>m.
     bindE (wr_next m node item) (\<lambda>m.
     bindE (rd_size m l) (\<lambda>sz.
     wr_size m l (sz + 1)))))))))"

definition cclist_do_insert_before :: "lmem \<Rightarrow> addr \<Rightarrow> addr \<Rightarrow> addr \<Rightarrow> lmem res" where
  "cclist_do_insert_before m l object node =
     bindE (get_node m l object) (\<lambda>item.
     bindE (wr_next m item node) (\<lambda>m.
     bindE (rd_prev m node) (\<lambda>pv.
     bindE (wr_prev m item pv) (\<lambda>m.
     bindE (rd_prev m node) (\<lambda>pv.
     bindE (wr_next m pv item) (\<lambda>m.
     bindE (wr_prev m node item) (\<lambda>m.
     bindE (rd_size m l) (\<lambda>sz.
     wr_size m l (sz + 1)))))))))"

text \<open>
  \<^verbatim>\<open>while(item != &list->head && n--) item = item->next;\<close> the post-decrement happens whenever
  the first conjunct holds, also when it ends the loop: the loop returns the item it stopped at
  and the value \<^verbatim>\<open>n\<close> is left with.
\<close>

function nth_loop :: "lmem \<Rightarrow> addr \<Rightarrow> addr \<Rightarrow> size_t \<Rightarrow> (addr \<times> size_t) res" where
  "nth_loop m head item n =
     (if item = head then Inr (item, n)
      else if n = 0 then Inr (item, n - 1)
      else bindE (rd_next m item) (\<lambda>item'. nth_loop m head item' (n - 1)))"
  by pat_completeness auto
termination
  by (relation "measure (\<lambda>(m, head, item, n). unat n)")
    (auto simp: unat_minus_one unat_gt_0)

definition cclist_nth_item :: "build \<Rightarrow> lmem \<Rightarrow> addr \<Rightarrow> size_t \<Rightarrow> addr res" where
  "cclist_nth_item bd m l n =
     bindE (rd_next m (head_of l)) (\<lambda>item.
     bindE (nth_loop m (head_of l) item n) (\<lambda>(item, n).
     bindE (ccassert bd (n = 0)) (\<lambda>_.
     Inr item)))"

definition cclist_insert_at :: "build \<Rightarrow> lmem \<Rightarrow> addr \<Rightarrow> addr \<Rightarrow> size_t \<Rightarrow> lmem res" where
  "cclist_insert_at bd m l object n =
     bindE (ccassert bd (l \<noteq> NULL)) (\<lambda>_.
     bindE (cclist_nth_item bd m l n) (\<lambda>nth.
     cclist_do_insert_before m l object nth))"

definition cclist_insert_first :: "build \<Rightarrow> lmem \<Rightarrow> addr \<Rightarrow> addr \<Rightarrow> lmem res" where
  "cclist_insert_first bd m l object =
     bindE (ccassert bd (l \<noteq> NULL)) (\<lambda>_.
     cclist_do_insert_after m l object (head_of l))"

definition cclist_insert_last :: "build \<Rightarrow> lmem \<Rightarrow> addr \<Rightarrow> addr \<Rightarrow> lmem res" where
  "cclist_insert_last bd m l object =
     bindE (ccassert bd (l \<noteq> NULL)) (\<lambda>_.
     cclist_do_insert_before m l object (head_of l))"

definition cclist_insert_after :: "build \<Rightarrow> lmem \<Rightarrow> addr \<Rightarrow> addr \<Rightarrow> addr \<Rightarrow> lmem res" where
  "cclist_insert_after bd m l object item =
     bindE (ccassert bd (l \<noteq> NULL)) (\<lambda>_.
     bindE (ccassert bd (item \<noteq> NULL)) (\<lambda>_.
     bindE (get_node m l item) (\<lambda>node.
     cclist_do_insert_after m l object node)))"

definition cclist_insert_before :: "build \<Rightarrow> lmem \<Rightarrow> addr \<Rightarrow> addr \<Rightarrow> addr \<Rightarrow> lmem res" where
  "cclist_insert_before bd m l object item =
     bindE (ccassert bd (l \<noteq> NULL)) (\<lambda>_.
     bindE (ccassert bd (item \<noteq> NULL)) (\<lambda>_.
     bindE (get_node m l item) (\<lambda>node.
     cclist_do_insert_before m l object node)))"

definition cclist_remove :: "build \<Rightarrow> lmem \<Rightarrow> addr \<Rightarrow> addr \<Rightarrow> lmem res" where
  "cclist_remove bd m l object =
     bindE (ccassert bd (l \<noteq> NULL)) (\<lambda>_.
     bindE (ccassert bd (object \<noteq> NULL)) (\<lambda>_.
     bindE (get_node m l object) (\<lambda>node.
     bindE (rd_prev m node) (\<lambda>pv.
     bindE (rd_next m node) (\<lambda>nx.
     bindE (wr_next m pv nx) (\<lambda>m.
     bindE (rd_next m node) (\<lambda>nx.
     bindE (rd_prev m node) (\<lambda>pv.
     bindE (wr_prev m nx pv) (\<lambda>m.
     bindE (wr_next m node NULL) (\<lambda>m.
     bindE (wr_prev m node NULL) (\<lambda>m.
     bindE (rd_size m l) (\<lambda>sz.
     wr_size m l (sz - 1)))))))))))))"

definition cclist_remove_first :: "build \<Rightarrow> lmem \<Rightarrow> addr \<Rightarrow> lmem res" where
  "cclist_remove_first bd m l =
     bindE (ccassert bd (l \<noteq> NULL)) (\<lambda>_.
     bindE (rd_size m l) (\<lambda>sz.
     if sz = 0 then Inr m
     else
       bindE (rd_next m (head_of l)) (\<lambda>nx.
       bindE (rd_next m nx) (\<lambda>nn.
       bindE (wr_next m (head_of l) nn) (\<lambda>m.
       bindE (rd_next m (head_of l)) (\<lambda>nx.
       bindE (wr_prev m nx (head_of l)) (\<lambda>m.
       bindE (rd_size m l) (\<lambda>sz.
       wr_size m l (sz - 1)))))))))"

definition cclist_remove_last :: "build \<Rightarrow> lmem \<Rightarrow> addr \<Rightarrow> lmem res" where
  "cclist_remove_last bd m l =
     bindE (ccassert bd (l \<noteq> NULL)) (\<lambda>_.
     bindE (rd_size m l) (\<lambda>sz.
     if sz = 0 then Inr m
     else
       bindE (rd_prev m (head_of l)) (\<lambda>pv.
       bindE (rd_prev m pv) (\<lambda>pp.
       bindE (wr_prev m (head_of l) pp) (\<lambda>m.
       bindE (rd_prev m (head_of l)) (\<lambda>pv.
       bindE (wr_next m pv (head_of l)) (\<lambda>m.
       bindE (rd_size m l) (\<lambda>sz.
       wr_size m l (sz - 1)))))))))"

definition cclist_first :: "build \<Rightarrow> lmem \<Rightarrow> addr \<Rightarrow> addr res" where
  "cclist_first bd m l =
     bindE (ccassert bd (l \<noteq> NULL)) (\<lambda>_.
     bindE (rd_next m (head_of l)) (\<lambda>nx.
     if nx = head_of l then Inr NULL else get_ptr m l nx))"

definition cclist_last :: "build \<Rightarrow> lmem \<Rightarrow> addr \<Rightarrow> addr res" where
  "cclist_last bd m l =
     bindE (ccassert bd (l \<noteq> NULL)) (\<lambda>_.
     bindE (rd_prev m (head_of l)) (\<lambda>pv.
     if pv = head_of l then Inr NULL else get_ptr m l pv))"

definition cclist_next :: "lmem \<Rightarrow> addr \<Rightarrow> addr \<Rightarrow> addr res" where
  "cclist_next m l current =
     bindE (get_node m l current) (\<lambda>node.
     bindE (rd_next m node) (\<lambda>nx.
     if nx = head_of l then Inr NULL else get_ptr m l nx))"

definition cclist_prev :: "lmem \<Rightarrow> addr \<Rightarrow> addr \<Rightarrow> addr res" where
  "cclist_prev m l current =
     bindE (get_node m l current) (\<lambda>node.
     bindE (rd_prev m node) (\<lambda>pv.
     if pv = head_of l then Inr NULL else get_ptr m l pv))"

text \<open>
  \<^verbatim>\<open>cclist_clear\<close> hands each object to a destructor, which may change the memory (free the
  object) and its own data; the loop reads \<^verbatim>\<open>item->next\<close> before the call.  On a corrupted
  ring the loop need not end, so its result is an option: \<^const>\<open>None\<close> is divergence.
\<close>

type_synonym 'u destructor = "addr \<Rightarrow> lmem \<times> 'u \<Rightarrow> (lmem \<times> 'u) res"

partial_function (option) clear_loop ::
  "'u destructor option \<Rightarrow> addr \<Rightarrow> addr \<Rightarrow> lmem \<times> 'u \<Rightarrow> (lmem \<times> 'u) res option" where
  "clear_loop des l item s =
     (if item = head_of l then Some (Inr s)
      else (case get_ptr (fst s) l item of Inl e \<Rightarrow> Some (Inl e) | Inr to_free \<Rightarrow>
        (case rd_next (fst s) item of Inl e \<Rightarrow> Some (Inl e) | Inr item' \<Rightarrow>
          (case (case des of None \<Rightarrow> Inr s | Some d \<Rightarrow> d to_free s) of
             Inl e \<Rightarrow> Some (Inl e)
           | Inr s' \<Rightarrow> clear_loop des l item' s'))))"

definition cclist_clear ::
  "build \<Rightarrow> 'u destructor option \<Rightarrow> lmem \<Rightarrow> addr \<Rightarrow> 'u \<Rightarrow> (lmem \<times> 'u) res option" where
  "cclist_clear bd des m l user =
     (case bindE (ccassert bd (l \<noteq> NULL)) (\<lambda>_. rd_next m (head_of l)) of
        Inl e \<Rightarrow> Some (Inl e)
      | Inr item \<Rightarrow>
          (case clear_loop des l item (m, user) of
             None \<Rightarrow> None
           | Some r \<Rightarrow> Some (bindE r (\<lambda>(m, user).
               bindE (rd_offset m l) (\<lambda>off.
               bindE (cclist_init bd m l off) (\<lambda>m. Inr (m, user)))))))"

section \<open>The ring as a relation on memory\<close>

definition nxt :: "lmem \<Rightarrow> addr \<Rightarrow> addr option" where
  "nxt m p = map_option n_next (nodes m p)"

definition prv :: "lmem \<Rightarrow> addr \<Rightarrow> addr option" where
  "prv m p = map_option n_prev (nodes m p)"

definition link :: "lmem \<Rightarrow> addr \<Rightarrow> addr \<Rightarrow> bool" where
  "link m a b \<longleftrightarrow> nxt m a = Some b \<and> prv m b = Some a"

definition ring :: "lmem \<Rightarrow> addr \<Rightarrow> addr list \<Rightarrow> bool" where
  "ring m h ns \<longleftrightarrow> distinct (h # ns) \<and> successively (link m) (h # ns @ [h])"

text \<open>
  The list at \<^term>\<open>l\<close> holds the objects \<^term>\<open>xs\<close>, in this order: the header agrees and the
  embedded nodes form a ring through the list's head.
\<close>

definition wf_list :: "lmem \<Rightarrow> addr \<Rightarrow> size_t \<Rightarrow> addr list \<Rightarrow> bool" where
  "wf_list m l off xs \<longleftrightarrow>
     l \<noteq> NULL \<and> NULL \<notin> set xs \<and>
     hdrs m l = Some \<lparr>l_size = of_nat (length xs), l_offset = off\<rparr> \<and>
     ring m (head_of l) (map (\<lambda>x. x + off) xs)"

definition footprint :: "addr \<Rightarrow> size_t \<Rightarrow> addr list \<Rightarrow> addr set" where
  "footprint l off xs = insert (head_of l) ((\<lambda>x. x + off) ` set xs)"

text \<open>An object that can enter the list: its node is allocated and belongs to no position of it.\<close>

definition fresh_obj :: "lmem \<Rightarrow> addr \<Rightarrow> size_t \<Rightarrow> addr list \<Rightarrow> addr \<Rightarrow> bool" where
  "fresh_obj m l off xs x \<longleftrightarrow>
     x \<noteq> NULL \<and> nodes m (x + off) \<noteq> None \<and> x + off \<notin> footprint l off xs"

text \<open>What an operation on the list at \<^term>\<open>l\<close> may touch.\<close>

definition only_touches :: "lmem \<Rightarrow> addr \<Rightarrow> addr set \<Rightarrow> lmem \<Rightarrow> bool" where
  "only_touches m l fp m' \<longleftrightarrow>
     (\<forall>p. p \<notin> fp \<longrightarrow> nodes m' p = nodes m p) \<and>
     (\<forall>k. k \<noteq> l \<longrightarrow> hdrs m' k = hdrs m k) \<and>
     dom (nodes m') = dom (nodes m)"

lemma nxt_mapped: "nxt m p = Some q \<Longrightarrow> nodes m p \<noteq> None"
  by (auto simp: nxt_def)

lemma prv_mapped: "prv m p = Some q \<Longrightarrow> nodes m p \<noteq> None"
  by (auto simp: prv_def)

lemma rd_next_nxt: "nxt m p = Some q \<Longrightarrow> rd_next m p = Inr q"
  by (auto simp: nxt_def rd_next_def)

lemma rd_prev_prv: "prv m p = Some q \<Longrightarrow> rd_prev m p = Inr q"
  by (auto simp: prv_def rd_prev_def)

text \<open>A write through a mapped pointer, as an update of the two partial maps.\<close>

lemma wr_next_effect:
  assumes "nodes m p \<noteq> None"
  obtains m' where "wr_next m p v = Inr m'" "nxt m' = (nxt m)(p \<mapsto> v)" "prv m' = prv m"
    "hdrs m' = hdrs m" "dom (nodes m') = dom (nodes m)"
    "\<And>q. q \<noteq> p \<Longrightarrow> nodes m' q = nodes m q"
proof -
  from assms obtain n where n: "nodes m p = Some n" by blast
  show thesis
    by (rule that[of "m\<lparr>nodes := (nodes m)(p \<mapsto> n\<lparr>n_next := v\<rparr>)\<rparr>"])
      (use n in \<open>auto simp: wr_next_def nxt_def prv_def fun_eq_iff\<close>)
qed

lemma wr_prev_effect:
  assumes "nodes m p \<noteq> None"
  obtains m' where "wr_prev m p v = Inr m'" "prv m' = (prv m)(p \<mapsto> v)" "nxt m' = nxt m"
    "hdrs m' = hdrs m" "dom (nodes m') = dom (nodes m)"
    "\<And>q. q \<noteq> p \<Longrightarrow> nodes m' q = nodes m q"
proof -
  from assms obtain n where n: "nodes m p = Some n" by blast
  show thesis
    by (rule that[of "m\<lparr>nodes := (nodes m)(p \<mapsto> n\<lparr>n_prev := v\<rparr>)\<rparr>"])
      (use n in \<open>auto simp: wr_prev_def nxt_def prv_def fun_eq_iff\<close>)
qed

lemma rd_size_mapped: "hdrs m l = Some h \<Longrightarrow> rd_size m l = Inr (l_size h)"
  by (simp add: rd_size_def)

lemma rd_offset_mapped: "hdrs m l = Some h \<Longrightarrow> rd_offset m l = Inr (l_offset h)"
  by (simp add: rd_offset_def)

lemma get_node_mapped: "hdrs m l = Some h \<Longrightarrow> get_node m l x = Inr (x + l_offset h)"
  by (simp add: get_node_def rd_offset_mapped)

lemma get_ptr_mapped: "hdrs m l = Some h \<Longrightarrow> get_ptr m l p = Inr (p - l_offset h)"
  by (simp add: get_ptr_def rd_offset_mapped)

lemma wr_size_effect:
  assumes "hdrs m l = Some h"
  obtains m' where "wr_size m l v = Inr m'" "nodes m' = nodes m"
    "hdrs m' = (hdrs m)(l \<mapsto> h\<lparr>l_size := v\<rparr>)"
proof -
  show thesis
    by (rule that[of "m\<lparr>hdrs := (hdrs m)(l \<mapsto> h\<lparr>l_size := v\<rparr>)\<rparr>"])
      (use assms in \<open>auto simp: wr_size_def\<close>)
qed

lemmas hdr_reads = rd_size_mapped rd_offset_mapped get_node_mapped get_ptr_mapped

lemma nodes_nxt_prv: "nodes m' = nodes m \<Longrightarrow> nxt m' = nxt m \<and> prv m' = prv m"
  by (simp add: nxt_def prv_def fun_eq_iff)

lemma wr_size_touches:
  assumes "hdrs m l = Some h"
  obtains m' where "wr_size m l v = Inr m'" "nxt m' = nxt m" "prv m' = prv m"
    "hdrs m' = (hdrs m)(l \<mapsto> h\<lparr>l_size := v\<rparr>)" "only_touches m l {} m'"
proof -
  obtain m' where m': "wr_size m l v = Inr m'" "nodes m' = nodes m"
    "hdrs m' = (hdrs m)(l \<mapsto> h\<lparr>l_size := v\<rparr>)"
    using wr_size_effect [OF assms] by metis
  show thesis
    by (rule that [of m']) (use m' nodes_nxt_prv [OF m'(2)] in \<open>auto simp: only_touches_def\<close>)
qed

lemma only_touches_mono: "only_touches m l fp m' \<Longrightarrow> fp \<subseteq> fp' \<Longrightarrow> only_touches m l fp' m'"
  by (auto simp: only_touches_def)

lemma only_touches_refl [simp]: "only_touches m l fp m"
  by (simp add: only_touches_def)

lemma only_touches_trans:
  "only_touches m l fp m1 \<Longrightarrow> only_touches m1 l fp' m2 \<Longrightarrow> only_touches m l (fp \<union> fp') m2"
  by (auto simp: only_touches_def)

lemma only_touches_mapped: "only_touches m l fp m' \<Longrightarrow> nodes m p \<noteq> None \<Longrightarrow> nodes m' p \<noteq> None"
  by (auto simp: only_touches_def)

text \<open>
  The pointer surgery of every operation is made of pairs of writes, one to a \<^verbatim>\<open>next\<close> field
  and one to a \<^verbatim>\<open>prev\<close> field, in either order.
\<close>

lemma relink_next_prev:
  assumes "nodes m a \<noteq> None" "nodes m b \<noteq> None"
  obtains m1 m2 where "wr_next m a v = Inr m1" "wr_prev m1 b w = Inr m2"
    "nxt m1 = (nxt m)(a \<mapsto> v)" "prv m1 = prv m" "hdrs m1 = hdrs m"
    "nxt m2 = (nxt m)(a \<mapsto> v)" "prv m2 = (prv m)(b \<mapsto> w)" "hdrs m2 = hdrs m"
    "\<And>l. only_touches m l {a, b} m2"
proof -
  obtain m1 where m1: "wr_next m a v = Inr m1" "nxt m1 = (nxt m)(a \<mapsto> v)" "prv m1 = prv m"
    "hdrs m1 = hdrs m" "dom (nodes m1) = dom (nodes m)" "\<And>q. q \<noteq> a \<Longrightarrow> nodes m1 q = nodes m q"
    using wr_next_effect [OF assms(1)] by metis
  have "nodes m1 b \<noteq> None" using assms(2) m1(5) by blast
  then obtain m2 where m2: "wr_prev m1 b w = Inr m2" "prv m2 = (prv m1)(b \<mapsto> w)" "nxt m2 = nxt m1"
    "hdrs m2 = hdrs m1" "dom (nodes m2) = dom (nodes m1)" "\<And>q. q \<noteq> b \<Longrightarrow> nodes m2 q = nodes m1 q"
    using wr_prev_effect by metis
  show thesis
    by (rule that [of m1 m2]) (use m1 m2 in \<open>auto simp: only_touches_def\<close>)
qed

lemma relink_prev_next:
  assumes "nodes m a \<noteq> None" "nodes m b \<noteq> None"
  obtains m1 m2 where "wr_prev m b w = Inr m1" "wr_next m1 a v = Inr m2"
    "nxt m1 = nxt m" "prv m1 = (prv m)(b \<mapsto> w)" "hdrs m1 = hdrs m"
    "nxt m2 = (nxt m)(a \<mapsto> v)" "prv m2 = (prv m)(b \<mapsto> w)" "hdrs m2 = hdrs m"
    "\<And>l. only_touches m l {a, b} m2"
proof -
  obtain m1 where m1: "wr_prev m b w = Inr m1" "prv m1 = (prv m)(b \<mapsto> w)" "nxt m1 = nxt m"
    "hdrs m1 = hdrs m" "dom (nodes m1) = dom (nodes m)" "\<And>q. q \<noteq> b \<Longrightarrow> nodes m1 q = nodes m q"
    using wr_prev_effect [OF assms(2)] by metis
  have "nodes m1 a \<noteq> None" using assms(1) m1(5) by blast
  then obtain m2 where m2: "wr_next m1 a v = Inr m2" "nxt m2 = (nxt m1)(a \<mapsto> v)" "prv m2 = prv m1"
    "hdrs m2 = hdrs m1" "dom (nodes m2) = dom (nodes m1)" "\<And>q. q \<noteq> a \<Longrightarrow> nodes m2 q = nodes m1 q"
    using wr_next_effect by metis
  show thesis
    by (rule that [of m1 m2]) (use m1 m2 in \<open>auto simp: only_touches_def\<close>)
qed

section \<open>Inserting and removing in a ring\<close>

lemma ring_insert:
  assumes ring: "ring m h (xs @ ys)"
    and i: "i \<notin> set (h # xs @ ys)"
    and nx: "nxt m' = (nxt m)(last (h # xs) \<mapsto> i, i \<mapsto> hd (ys @ [h]))"
    and pv: "prv m' = (prv m)(i \<mapsto> last (h # xs), hd (ys @ [h]) \<mapsto> i)"
  shows "ring m' h (xs @ i # ys)"
proof -
  let ?a = "last (h # xs)" and ?b = "hd (ys @ [h])"
  have dist: "distinct (h # xs)" "distinct (ys @ [h])" "set (h # xs) \<inter> set ys = {}"
    using ring by (auto simp: ring_def)
  have "successively (link m) ((h # xs) @ (ys @ [h]))"
    using ring by (simp add: ring_def)
  then have s: "successively (link m) (h # xs)" "successively (link m) (ys @ [h])"
    by (simp_all only: successively_append_iff)
  have a: "?a \<in> set (h # xs)" and b: "?b \<in> set (ys @ [h])"
    by (rule last_Cons_mem, rule hd_snoc_mem)
  have ib: "i \<noteq> ?b" and ia: "i \<noteq> ?a"
    using a b i by auto
  have left: "successively (link m') (h # xs)"
  proof (rule successively_frame [OF s(1)])
    fix p q assume lk: "link m p q" and p: "p \<in> set (butlast (h # xs))" and q: "q \<in> set (tl (h # xs))"
    have "p \<noteq> ?a" "p \<noteq> i"
      using p last_not_in_butlast [OF dist(1)] i in_set_butlastD [OF p] by auto
    moreover have "q \<noteq> i" "q \<noteq> ?b"
      using q i b dist by auto
    ultimately show "link m' p q"
      using lk by (simp add: link_def nx pv)
  qed
  have right: "successively (link m') (ys @ [h])"
  proof (rule successively_frame [OF s(2)])
    fix p q assume lk: "link m p q" and p: "p \<in> set (butlast (ys @ [h]))" and q: "q \<in> set (tl (ys @ [h]))"
    have "p \<noteq> ?a" "p \<noteq> i"
      using p a dist i by auto
    moreover have "q \<noteq> ?b" "q \<noteq> i"
      using q hd_not_in_tl [OF dist(2)] i by (auto dest: list.set_sel(2) [rotated])
    ultimately show "link m' p q"
      using lk by (simp add: link_def nx pv)
  qed
  have "link m' ?a i" "link m' i ?b"
    using ia ib by (auto simp: link_def nx pv)
  then have "successively (link m') ((h # xs) @ i # (ys @ [h]))"
    by (intro successively_insert left right) simp_all
  moreover have "distinct (h # xs @ i # ys)"
    using ring i by (auto simp: ring_def)
  ultimately show ?thesis
    by (simp add: ring_def)
qed

text \<open>Removing: the neighbours of the removed node become linked to each other.\<close>

lemma ring_remove:
  assumes ring: "ring m h (xs @ i # ys)"
    and nx: "\<And>p. p \<noteq> i \<Longrightarrow> nxt m' p = ((nxt m)(last (h # xs) \<mapsto> hd (ys @ [h]))) p"
    and pv: "\<And>p. p \<noteq> i \<Longrightarrow> prv m' p = ((prv m)(hd (ys @ [h]) \<mapsto> last (h # xs))) p"
  shows "ring m' h (xs @ ys)"
proof -
  let ?a = "last (h # xs)" and ?b = "hd (ys @ [h])"
  have dist: "distinct (h # xs)" "distinct (ys @ [h])" "set (h # xs) \<inter> set ys = {}"
    and i: "i \<notin> set (h # xs @ ys)"
    using ring by (auto simp: ring_def)
  have "successively (link m) ((h # xs) @ (i # ys @ [h]))"
    using ring by (simp add: ring_def)
  then have s: "successively (link m) (h # xs)" "successively (link m) (i # ys @ [h])"
    by (simp_all only: successively_append_iff)
  then have s2: "successively (link m) (ys @ [h])"
    by (cases ys) auto
  have a: "?a \<in> set (h # xs)" and b: "?b \<in> set (ys @ [h])"
    by (rule last_Cons_mem, rule hd_snoc_mem)
  have left: "successively (link m') (h # xs)"
  proof (rule successively_frame [OF s(1)])
    fix p q assume lk: "link m p q" and p: "p \<in> set (butlast (h # xs))" and q: "q \<in> set (tl (h # xs))"
    have "p \<noteq> ?a" "p \<noteq> i"
      using p last_not_in_butlast [OF dist(1)] i in_set_butlastD [OF p] by auto
    moreover have "q \<noteq> i" "q \<noteq> ?b"
      using q i b dist by auto
    ultimately show "link m' p q"
      using lk by (simp add: link_def nx pv)
  qed
  have right: "successively (link m') (ys @ [h])"
  proof (rule successively_frame [OF s2])
    fix p q assume lk: "link m p q" and p: "p \<in> set (butlast (ys @ [h]))" and q: "q \<in> set (tl (ys @ [h]))"
    have "p \<noteq> ?a" "p \<noteq> i"
      using p a dist i by auto
    moreover have "q \<noteq> ?b" "q \<noteq> i"
      using q hd_not_in_tl [OF dist(2)] i by (auto dest: list.set_sel(2) [rotated])
    ultimately show "link m' p q"
      using lk by (simp add: link_def nx pv)
  qed
  have "?a \<noteq> i" "?b \<noteq> i"
    using a b i by auto
  then have "link m' ?a ?b"
    by (simp add: link_def nx pv)
  with left right have "successively (link m') ((h # xs) @ (ys @ [h]))"
    by (subst successively_append_iff) auto
  moreover have "distinct (h # xs @ ys)"
    using ring by (auto simp: ring_def)
  ultimately show ?thesis
    by (simp add: ring_def)
qed

text \<open>The neighbours a ring gives to the position between \<^term>\<open>xs\<close> and \<^term>\<open>ys\<close>.\<close>

lemma ring_neighbours:
  assumes "ring m h (xs @ ys)"
  shows "link m (last (h # xs)) (hd (ys @ [h]))"
proof -
  have "successively (link m) ((h # xs) @ (ys @ [h]))"
    using assms by (simp add: ring_def)
  then show ?thesis
    by (subst (asm) successively_append_iff) auto
qed

lemma ring_mapped:
  assumes "ring m h ns" "p \<in> set (h # ns)"
  shows "nodes m p \<noteq> None"
proof -
  obtain xs ys where split: "ns = xs @ ys" and p: "p = last (h # xs)"
  proof (cases "p = h")
    case True
    then show thesis using that[of "[]" ns] by simp
  next
    case False
    with assms(2) obtain us vs where "ns = us @ p # vs"
      by (auto dest: split_list)
    then show thesis using that[of "us @ [p]" vs] by simp
  qed
  from ring_neighbours [of m h xs ys] assms(1) split p show ?thesis
    by (auto simp: link_def dest: nxt_mapped)
qed

text \<open>
  Both insertion routines, run next to either neighbour of a link, splice the new node into it.
\<close>

definition spliced :: "lmem \<Rightarrow> addr \<Rightarrow> addr \<Rightarrow> addr \<Rightarrow> addr \<Rightarrow> lmem \<Rightarrow> bool" where
  "spliced m l a i b m' \<longleftrightarrow>
     nxt m' = (nxt m)(a \<mapsto> i, i \<mapsto> b) \<and> prv m' = (prv m)(i \<mapsto> a, b \<mapsto> i) \<and>
     hdrs m' = (hdrs m)(l := map_option (\<lambda>h. h\<lparr>l_size := l_size h + 1\<rparr>) (hdrs m l)) \<and>
     only_touches m l {a, i, b} m'"

lemma do_insert_after_splices:
  assumes lk: "link m a b" and h: "hdrs m l = Some h"
    and i: "i = x + l_offset h" "nodes m i \<noteq> None" "i \<noteq> a" "i \<noteq> b"
  shows "\<exists>m'. cclist_do_insert_after m l x a = Inr m' \<and> spliced m l a i b m'"
proof -
  have ab: "nxt m a = Some b" "prv m b = Some a"
    using lk by (auto simp: link_def)
  obtain m1 m2 where m2: "wr_prev m i a = Inr m1" "wr_next m1 i b = Inr m2"
    "nxt m1 = nxt m" "hdrs m1 = hdrs m"
    "nxt m2 = (nxt m)(i \<mapsto> b)" "prv m2 = (prv m)(i \<mapsto> a)" "hdrs m2 = hdrs m" "only_touches m l {i, i} m2"
    using relink_prev_next [OF i(2,2)] by metis
  have "nodes m2 a \<noteq> None" "nodes m2 b \<noteq> None"
    using only_touches_mapped [OF m2(8)] nxt_mapped [OF ab(1)] prv_mapped [OF ab(2)] by blast+
  then obtain m3 m4 where m4: "wr_prev m2 b i = Inr m3" "wr_next m3 a i = Inr m4"
    "nxt m4 = (nxt m2)(a \<mapsto> i)" "prv m4 = (prv m2)(b \<mapsto> i)" "hdrs m4 = hdrs m2" "only_touches m2 l {a, b} m4"
    using relink_prev_next by metis
  have h4: "hdrs m4 l = Some h" using h m2 m4 by simp
  obtain m5 where m5: "wr_size m4 l (l_size h + 1) = Inr m5" "nxt m5 = nxt m4" "prv m5 = prv m4"
    "hdrs m5 = (hdrs m4)(l \<mapsto> h\<lparr>l_size := l_size h + 1\<rparr>)" "only_touches m4 l {} m5"
    using wr_size_touches [OF h4] by metis
  have "rd_next m1 a = Inr b" "rd_next m2 a = Inr b"
    using ab i(3) by (simp_all add: rd_next_nxt m2)
  then have "cclist_do_insert_after m l x a = Inr m5"
    using m2(1,2) m4(1,2) m5(1) i(1) by (simp add: cclist_do_insert_after_def hdr_reads h h4)
  moreover have "only_touches m l {a, i, b} m5"
    by (rule only_touches_mono [OF only_touches_trans [OF only_touches_trans [OF m2(8) m4(6)] m5(5)]]) auto
  then have "spliced m l a i b m5"
    using i m2 m4 m5 h by (simp add: spliced_def fun_upd_twist)
  ultimately show ?thesis by blast
qed

lemma do_insert_before_splices:
  assumes lk: "link m a b" and h: "hdrs m l = Some h"
    and i: "i = x + l_offset h" "nodes m i \<noteq> None" "i \<noteq> a" "i \<noteq> b"
  shows "\<exists>m'. cclist_do_insert_before m l x b = Inr m' \<and> spliced m l a i b m'"
proof -
  have ab: "nxt m a = Some b" "prv m b = Some a"
    using lk by (auto simp: link_def)
  obtain m1 m2 where m2: "wr_next m i b = Inr m1" "wr_prev m1 i a = Inr m2"
    "prv m1 = prv m" "hdrs m1 = hdrs m"
    "nxt m2 = (nxt m)(i \<mapsto> b)" "prv m2 = (prv m)(i \<mapsto> a)" "hdrs m2 = hdrs m" "only_touches m l {i, i} m2"
    using relink_next_prev [OF i(2,2)] by metis
  have "nodes m2 a \<noteq> None" "nodes m2 b \<noteq> None"
    using only_touches_mapped [OF m2(8)] nxt_mapped [OF ab(1)] prv_mapped [OF ab(2)] by blast+
  then obtain m3 m4 where m4: "wr_next m2 a i = Inr m3" "wr_prev m3 b i = Inr m4"
    "nxt m4 = (nxt m2)(a \<mapsto> i)" "prv m4 = (prv m2)(b \<mapsto> i)" "hdrs m4 = hdrs m2" "only_touches m2 l {a, b} m4"
    using relink_next_prev by metis
  have h4: "hdrs m4 l = Some h" using h m2 m4 by simp
  obtain m5 where m5: "wr_size m4 l (l_size h + 1) = Inr m5" "nxt m5 = nxt m4" "prv m5 = prv m4"
    "hdrs m5 = (hdrs m4)(l \<mapsto> h\<lparr>l_size := l_size h + 1\<rparr>)" "only_touches m4 l {} m5"
    using wr_size_touches [OF h4] by metis
  have "rd_prev m1 b = Inr a" "rd_prev m2 b = Inr a"
    using ab i(4) by (simp_all add: rd_prev_prv m2)
  then have "cclist_do_insert_before m l x b = Inr m5"
    using m2(1,2) m4(1,2) m5(1) i(1) by (simp add: cclist_do_insert_before_def hdr_reads h h4)
  moreover have "only_touches m l {a, i, b} m5"
    by (rule only_touches_mono [OF only_touches_trans [OF only_touches_trans [OF m2(8) m4(6)] m5(5)]]) auto
  then have "spliced m l a i b m5"
    using i m2 m4 m5 h by (simp add: spliced_def fun_upd_twist)
  ultimately show ?thesis by blast
qed

end
