(* ===== verification/CC_ListOps.thy ===== *)
theory CC_ListOps
  imports CC_List
begin

text \<open>
  The operations of the intrusive list, seen as operations on the sequence of objects the list
  holds: for each one, what it returns, which sequence the list then holds, and which nodes it may
  have written.  The interface \<^verbatim>\<open>cc_sequence\<close> collects what the library's own clients
  (hash table, thread pool) rely on, and is interpreted on the operations of src/list.c.
\<close>

section \<open>What the operations do to the sequence of objects\<close>

text \<open>
  The outcome of an operation on the list at \<^term>\<open>l\<close>: it returns, the list then holds
  \<^term>\<open>zs\<close>, and only the nodes of \<^term>\<open>fp\<close> and the list's own header were written.
\<close>

definition yields :: "lmem \<Rightarrow> addr \<Rightarrow> size_t \<Rightarrow> addr list \<Rightarrow> addr set \<Rightarrow> lmem res \<Rightarrow> bool" where
  "yields m l off zs fp r \<longleftrightarrow>
     (\<exists>m'. r = Inr m' \<and> wf_list m' l off zs \<and> only_touches m l fp m')"

lemma yieldsI: "r = Inr m' \<Longrightarrow> wf_list m' l off zs \<Longrightarrow> only_touches m l fp m' \<Longrightarrow> yields m l off zs fp r"
  by (auto simp: yields_def)

lemma wf_listD:
  assumes "wf_list m l off xs"
  shows "l \<noteq> NULL" "NULL \<notin> set xs" "hdrs m l = Some \<lparr>l_size = of_nat (length xs), l_offset = off\<rparr>"
    "ring m (head_of l) (map (\<lambda>x. x + off) xs)"
  using assms by (auto simp: wf_list_def)

lemma wf_list_distinct:
  assumes "wf_list m l off xs"
  shows "distinct (head_of l # map (\<lambda>x. x + off) xs)" "distinct xs"
  using wf_listD(4) [OF assms] by (auto simp: ring_def distinct_map)

lemma wf_list_size:
  assumes "wf_list m l off xs"
  shows "rd_size m l = Inr (of_nat (length xs))" "unat (of_nat (length xs) :: size_t) = length xs"
    "(of_nat (length xs) :: size_t) = 0 \<longleftrightarrow> xs = []"
proof -
  show "rd_size m l = Inr (of_nat (length xs))"
    using wf_listD(3) [OF assms] by (simp add: rd_size_def)
  show u: "unat (of_nat (length xs) :: size_t) = length xs"
    using unat_of_nat_length [OF wf_list_distinct(1) [OF assms]] by simp
  show "(of_nat (length xs) :: size_t) = 0 \<longleftrightarrow> xs = []"
    using u by (metis length_0_conv unat_eq_0)
qed

lemma wf_list_head_not_node: "wf_list m l off xs \<Longrightarrow> x \<in> set xs \<Longrightarrow> x + off \<noteq> head_of l"
  using wf_list_distinct(1) [of m l off xs] by (metis distinct.simps(2) image_eqI set_map)

text \<open>The nodes around the position between \<^term>\<open>xs\<close> and \<^term>\<open>ys\<close>.\<close>

definition node_before :: "addr \<Rightarrow> size_t \<Rightarrow> addr list \<Rightarrow> addr" where
  "node_before l off xs = last (head_of l # map (\<lambda>x. x + off) xs)"

definition node_after :: "addr \<Rightarrow> size_t \<Rightarrow> addr list \<Rightarrow> addr" where
  "node_after l off ys = hd (map (\<lambda>x. x + off) ys @ [head_of l])"

lemma node_before_simps [simp]:
  "node_before l off [] = head_of l"
  "node_before l off (xs @ [x]) = x + off"
  by (simp_all add: node_before_def)

lemma node_after_simps [simp]:
  "node_after l off [] = head_of l"
  "node_after l off (y # ys) = y + off"
  by (simp_all add: node_after_def)

lemma node_before_footprint: "node_before l off xs \<in> footprint l off (xs @ ys)"
  by (cases xs rule: rev_cases) (auto simp: footprint_def)

lemma node_after_footprint: "node_after l off ys \<in> footprint l off (xs @ ys)"
  by (cases ys) (auto simp: footprint_def)

lemma wf_list_link:
  "wf_list m l off (xs @ ys) \<Longrightarrow> link m (node_before l off xs) (node_after l off ys)"
  unfolding node_before_def node_after_def
  by (rule ring_neighbours) (use wf_listD(4) in fastforce)

lemma wf_list_next:
  "wf_list m l off (xs @ ys) \<Longrightarrow> rd_next m (node_before l off xs) = Inr (node_after l off ys)"
  using wf_list_link by (auto simp: link_def rd_next_nxt)

lemma wf_list_prev:
  "wf_list m l off (xs @ ys) \<Longrightarrow> rd_prev m (node_after l off ys) = Inr (node_before l off xs)"
  using wf_list_link by (auto simp: link_def rd_prev_prv)

lemma wf_list_spliced:
  assumes wf: "wf_list m l off (xs @ ys)" and x: "fresh_obj m l off (xs @ ys) x"
    and sp: "spliced m l (node_before l off xs) (x + off) (node_after l off ys) m'"
  shows "wf_list m' l off (xs @ x # ys)"
proof -
  have "ring m' (head_of l) (map (\<lambda>x. x + off) xs @ (x + off) # map (\<lambda>x. x + off) ys)"
    by (rule ring_insert [of m])
      (use wf_listD(4) [OF wf] x sp in
        \<open>auto simp: fresh_obj_def footprint_def spliced_def node_before_def node_after_def\<close>)
  with wf_listD [OF wf] x sp show ?thesis
    by (simp add: wf_list_def spliced_def fresh_obj_def)
qed

text \<open>Inserting next to a known neighbour, from either side.\<close>

lemma fresh_obj_not_neighbour:
  assumes "fresh_obj m l off (xs @ ys) x"
  shows "x + off \<noteq> node_before l off xs" "x + off \<noteq> node_after l off ys"
  using assms node_before_footprint [of l off xs ys] node_after_footprint [of l off ys xs]
  by (auto simp: fresh_obj_def)

lemma splice_touches:
  assumes "spliced m l (node_before l off xs) (x + off) (node_after l off ys) m'"
  shows "only_touches m l (footprint l off (xs @ x # ys)) m'"
proof (rule only_touches_mono)
  show "only_touches m l {node_before l off xs, x + off, node_after l off ys} m'"
    using assms by (simp add: spliced_def)
  show "{node_before l off xs, x + off, node_after l off ys} \<subseteq> footprint l off (xs @ x # ys)"
    using node_before_footprint [of l off xs "x # ys"] node_after_footprint [of l off ys "xs @ [x]"]
    by (auto simp: footprint_def)
qed

lemma do_insert_after_yields:
  assumes "wf_list m l off (xs @ ys)" "fresh_obj m l off (xs @ ys) x"
  shows "yields m l off (xs @ x # ys) (footprint l off (xs @ x # ys))
           (cclist_do_insert_after m l x (node_before l off xs))"
proof -
  obtain m' where "cclist_do_insert_after m l x (node_before l off xs) = Inr m'"
    and "spliced m l (node_before l off xs) (x + off) (node_after l off ys) m'"
    using do_insert_after_splices [OF wf_list_link [OF assms(1)] wf_listD(3) [OF assms(1)]]
      fresh_obj_not_neighbour [OF assms(2)] assms(2) by (fastforce simp: fresh_obj_def)
  then show ?thesis
    by (intro yieldsI wf_list_spliced [OF assms] splice_touches)
qed

lemma do_insert_before_yields:
  assumes "wf_list m l off (xs @ ys)" "fresh_obj m l off (xs @ ys) x"
  shows "yields m l off (xs @ x # ys) (footprint l off (xs @ x # ys))
           (cclist_do_insert_before m l x (node_after l off ys))"
proof -
  obtain m' where "cclist_do_insert_before m l x (node_after l off ys) = Inr m'"
    and "spliced m l (node_before l off xs) (x + off) (node_after l off ys) m'"
    using do_insert_before_splices [OF wf_list_link [OF assms(1)] wf_listD(3) [OF assms(1)]]
      fresh_obj_not_neighbour [OF assms(2)] assms(2) by (fastforce simp: fresh_obj_def)
  then show ?thesis
    by (intro yieldsI wf_list_spliced [OF assms] splice_touches)
qed

lemma insert_first_yields:
  assumes "wf_list m l off xs" "fresh_obj m l off xs x"
  shows "yields m l off (x # xs) (footprint l off (x # xs)) (cclist_insert_first bd m l x)"
  using do_insert_after_yields [of m l off "[]" xs x] assms wf_listD(1) [OF assms(1)]
  by (simp add: cclist_insert_first_def)

lemma insert_last_yields:
  assumes "wf_list m l off xs" "fresh_obj m l off xs x"
  shows "yields m l off (xs @ [x]) (footprint l off (xs @ [x])) (cclist_insert_last bd m l x)"
  using do_insert_before_yields [of m l off xs "[]" x] assms wf_listD(1) [OF assms(1)]
  by (simp add: cclist_insert_last_def)

lemma insert_after_yields:
  assumes "wf_list m l off (xs @ y # ys)" "fresh_obj m l off (xs @ y # ys) x"
  shows "yields m l off (xs @ y # x # ys) (footprint l off (xs @ y # x # ys))
           (cclist_insert_after bd m l x y)"
proof -
  have y: "y \<noteq> NULL" "l \<noteq> NULL" and g: "get_node m l y = Inr (y + off)"
    using wf_listD [OF assms(1)] by (auto simp: get_node_mapped)
  show ?thesis
    using do_insert_after_yields [of m l off "xs @ [y]" ys x] assms y g
    by (simp add: cclist_insert_after_def)
qed

lemma insert_before_yields:
  assumes "wf_list m l off (xs @ y # ys)" "fresh_obj m l off (xs @ y # ys) x"
  shows "yields m l off (xs @ x # y # ys) (footprint l off (xs @ x # y # ys))
           (cclist_insert_before bd m l x y)"
proof -
  have y: "y \<noteq> NULL" "l \<noteq> NULL" and g: "get_node m l y = Inr (y + off)"
    using wf_listD [OF assms(1)] by (auto simp: get_node_mapped)
  show ?thesis
    using do_insert_before_yields [of m l off xs "y # ys" x] assms y g
    by (simp add: cclist_insert_before_def)
qed

text \<open>Removal: from anywhere, and the two ends.\<close>

lemma wf_list_removed:
  assumes wf: "wf_list m l off (xs @ x # ys)"
    and nx: "\<And>p. p \<noteq> x + off \<Longrightarrow> nxt m' p = ((nxt m)(node_before l off xs \<mapsto> node_after l off ys)) p"
    and pv: "\<And>p. p \<noteq> x + off \<Longrightarrow> prv m' p = ((prv m)(node_after l off ys \<mapsto> node_before l off xs)) p"
    and h: "hdrs m' l = Some \<lparr>l_size = of_nat (length (xs @ x # ys)) - 1, l_offset = off\<rparr>"
  shows "wf_list m' l off (xs @ ys)"
proof -
  have "ring m' (head_of l) (map (\<lambda>x. x + off) xs @ map (\<lambda>x. x + off) ys)"
    by (rule ring_remove [of m _ _ "x + off"])
      (use wf_listD(4) [OF wf] nx pv in \<open>simp_all add: node_before_def node_after_def\<close>)
  with wf_listD [OF wf] h show ?thesis
    by (simp add: wf_list_def)
qed

lemma neighbours_not_removed:
  assumes "wf_list m l off (xs @ x # ys)"
  shows "x + off \<noteq> node_before l off xs" "x + off \<noteq> node_after l off ys"
  using wf_list_distinct(1) [OF assms]
  by (cases xs rule: rev_cases; cases ys; auto)+

lemma remove_yields:
  assumes wf: "wf_list m l off (xs @ x # ys)"
  shows "yields m l off (xs @ ys) (footprint l off (xs @ x # ys)) (cclist_remove bd m l x)"
proof -
  let ?a = "node_before l off xs" and ?b = "node_after l off ys" and ?i = "x + off"
  have hd: "x \<noteq> NULL" "l \<noteq> NULL" "hdrs m l = Some \<lparr>l_size = of_nat (length (xs @ x # ys)), l_offset = off\<rparr>"
    using wf_listD [OF wf] by auto
  note ne = neighbours_not_removed [OF wf]
  have "link m ?a ?i" "link m ?i ?b"
    using wf_list_link [of m l off xs "x # ys"] wf_list_link [of m l off "xs @ [x]" ys] wf by simp_all
  then have l: "nxt m ?a = Some ?i" "prv m ?i = Some ?a" "nxt m ?i = Some ?b" "prv m ?b = Some ?i"
    by (simp_all add: link_def)
  obtain m1 m2 where m2: "wr_next m ?a ?b = Inr m1" "wr_prev m1 ?b ?a = Inr m2"
    "nxt m1 = (nxt m)(?a \<mapsto> ?b)" "prv m1 = prv m"
    "nxt m2 = (nxt m)(?a \<mapsto> ?b)" "prv m2 = (prv m)(?b \<mapsto> ?a)" "hdrs m2 = hdrs m" "only_touches m l {?a, ?b} m2"
    using relink_next_prev [OF nxt_mapped [OF l(1)] prv_mapped [OF l(4)]] by metis
  have i2: "nodes m2 ?i \<noteq> None"
    using only_touches_mapped [OF m2(8)] nxt_mapped [OF l(3)] by blast
  obtain m3 m4 where m4: "wr_next m2 ?i NULL = Inr m3" "wr_prev m3 ?i NULL = Inr m4"
    "nxt m4 = (nxt m2)(?i \<mapsto> NULL)" "prv m4 = (prv m2)(?i \<mapsto> NULL)" "hdrs m4 = hdrs m2" "only_touches m2 l {?i, ?i} m4"
    using relink_next_prev [OF i2 i2] by metis
  have h4: "hdrs m4 l = hdrs m l" using m2 m4 by simp
  obtain m5 where m5: "wr_size m4 l (of_nat (length (xs @ x # ys)) - 1) = Inr m5" "nxt m5 = nxt m4" "prv m5 = prv m4"
    "hdrs m5 = (hdrs m4)(l \<mapsto> \<lparr>l_size = of_nat (length (xs @ x # ys)) - 1, l_offset = off\<rparr>)" "only_touches m4 l {} m5"
    using wr_size_touches [of m4 l] h4 hd(3) by (metis lhdr.update_convs(1))
  have "rd_prev m ?i = Inr ?a" "rd_next m ?i = Inr ?b" "rd_next m1 ?i = Inr ?b" "rd_prev m1 ?i = Inr ?a"
    using l ne by (auto simp: m2 intro!: rd_prev_prv rd_next_nxt)
  then have "cclist_remove bd m l x = Inr m5"
    using m2(1,2) m4(1,2) m5(1) hd by (simp add: cclist_remove_def hdr_reads h4)
  moreover have "wf_list m5 l off (xs @ ys)"
    by (rule wf_list_removed [OF wf]) (use ne m2 m4 m5 in auto)
  moreover have "only_touches m l (footprint l off (xs @ x # ys)) m5"
    by (rule only_touches_mono [OF only_touches_trans [OF only_touches_trans [OF m2(8) m4(6)] m5(5)]])
      (use node_before_footprint [of l off xs "x # ys"] node_after_footprint [of l off ys "xs @ [x]"]
        in \<open>auto simp: footprint_def\<close>)
  ultimately show ?thesis by (rule yieldsI)
qed

lemma remove_first_empty:
  assumes "wf_list m l off []"
  shows "cclist_remove_first bd m l = Inr m" "cclist_remove_last bd m l = Inr m"
  using wf_listD(1) [OF assms] wf_list_size(1) [OF assms]
  by (simp_all add: cclist_remove_first_def cclist_remove_last_def)

lemma remove_first_yields:
  assumes wf: "wf_list m l off (x # xs)"
  shows "yields m l off xs (footprint l off (x # xs)) (cclist_remove_first bd m l)"
proof -
  let ?h = "head_of l" and ?b = "node_after l off xs" and ?i = "x + off"
  have hd: "l \<noteq> NULL" "hdrs m l = Some \<lparr>l_size = of_nat (length (x # xs)), l_offset = off\<rparr>"
    using wf_listD [OF wf] by auto
  have ne: "?i \<noteq> ?h" "?i \<noteq> ?b"
    using neighbours_not_removed [of m l off "[]" x xs] wf by auto
  have "link m ?h ?i" "link m ?i ?b"
    using wf_list_link [of m l off "[]" "x # xs"] wf_list_link [of m l off "[x]" xs]
      node_before_simps(2) [of l off "[]" x] wf by simp_all
  then have l: "nxt m ?h = Some ?i" "nxt m ?i = Some ?b" "prv m ?b = Some ?i"
    by (simp_all add: link_def)
  obtain m1 m2 where m2: "wr_next m ?h ?b = Inr m1" "wr_prev m1 ?b ?h = Inr m2" "nxt m1 = (nxt m)(?h \<mapsto> ?b)"
    "nxt m2 = (nxt m)(?h \<mapsto> ?b)" "prv m2 = (prv m)(?b \<mapsto> ?h)" "hdrs m2 = hdrs m" "only_touches m l {?h, ?b} m2"
    using relink_next_prev [OF nxt_mapped [OF l(1)] prv_mapped [OF l(3)]] by metis
  obtain m3 where m3: "wr_size m2 l (of_nat (length (x # xs)) - 1) = Inr m3" "nxt m3 = nxt m2" "prv m3 = prv m2"
    "hdrs m3 = (hdrs m2)(l \<mapsto> \<lparr>l_size = of_nat (length (x # xs)) - 1, l_offset = off\<rparr>)" "only_touches m2 l {} m3"
    using wr_size_touches [of m2 l] m2(6) hd(2) by (metis lhdr.update_convs(1))
  have "rd_next m ?h = Inr ?i" "rd_next m ?i = Inr ?b" "rd_next m1 ?h = Inr ?b"
    using l ne by (auto simp: m2 intro!: rd_next_nxt)
  then have "cclist_remove_first bd m l = Inr m3"
    using m2(1,2) m3(1) hd wf_list_size(1,3) [OF wf] m2(6)
    by (simp add: cclist_remove_first_def hdr_reads)
  moreover have "wf_list m3 l off ([] @ xs)"
    by (rule wf_list_removed [of m l off "[]" x xs]) (use wf ne m2 m3 in auto)
  moreover have "only_touches m l (footprint l off (x # xs)) m3"
    by (rule only_touches_mono [OF only_touches_trans [OF m2(7) m3(5)]])
      (use node_after_footprint [of l off xs "[x]"] in \<open>auto simp: footprint_def\<close>)
  ultimately show ?thesis by (simp add: yieldsI)
qed

lemma remove_last_yields:
  assumes wf: "wf_list m l off (xs @ [x])"
  shows "yields m l off xs (footprint l off (xs @ [x])) (cclist_remove_last bd m l)"
proof -
  let ?h = "head_of l" and ?a = "node_before l off xs" and ?i = "x + off"
  have hd: "l \<noteq> NULL" "hdrs m l = Some \<lparr>l_size = of_nat (length (xs @ [x])), l_offset = off\<rparr>"
    using wf_listD [OF wf] by auto
  have ne: "?i \<noteq> ?h" "?i \<noteq> ?a"
    using neighbours_not_removed [of m l off xs x "[]"] wf by auto
  have "link m ?i ?h" "link m ?a ?i"
    using wf_list_link [of m l off "xs @ [x]" "[]"] wf_list_link [of m l off xs "[x]"] wf by simp_all
  then have l: "prv m ?h = Some ?i" "prv m ?i = Some ?a" "nxt m ?a = Some ?i"
    by (simp_all add: link_def)
  obtain m1 m2 where m2: "wr_prev m ?h ?a = Inr m1" "wr_next m1 ?a ?h = Inr m2" "prv m1 = (prv m)(?h \<mapsto> ?a)"
    "nxt m2 = (nxt m)(?a \<mapsto> ?h)" "prv m2 = (prv m)(?h \<mapsto> ?a)" "hdrs m2 = hdrs m" "only_touches m l {?a, ?h} m2"
    using relink_prev_next [OF nxt_mapped [OF l(3)] prv_mapped [OF l(1)]] by metis
  obtain m3 where m3: "wr_size m2 l (of_nat (length (xs @ [x])) - 1) = Inr m3" "nxt m3 = nxt m2" "prv m3 = prv m2"
    "hdrs m3 = (hdrs m2)(l \<mapsto> \<lparr>l_size = of_nat (length (xs @ [x])) - 1, l_offset = off\<rparr>)" "only_touches m2 l {} m3"
    using wr_size_touches [of m2 l] m2(6) hd(2) by (metis lhdr.update_convs(1))
  have "rd_prev m ?h = Inr ?i" "rd_prev m ?i = Inr ?a" "rd_prev m1 ?h = Inr ?a"
    using l ne by (auto simp: m2 intro!: rd_prev_prv)
  then have "cclist_remove_last bd m l = Inr m3"
    using m2(1,2) m3(1) hd wf_list_size(1,3) [OF wf] m2(6)
    by (simp add: cclist_remove_last_def hdr_reads)
  moreover have "wf_list m3 l off (xs @ [])"
    by (rule wf_list_removed [of m l off xs x "[]"]) (use wf ne m2 m3 in auto)
  moreover have "only_touches m l (footprint l off (xs @ [x])) m3"
    by (rule only_touches_mono [OF only_touches_trans [OF m2(7) m3(5)]])
      (use node_before_footprint [of l off xs "[x]"] in \<open>auto simp: footprint_def\<close>)
  ultimately show ?thesis by (simp add: yieldsI)
qed

section \<open>Initialisation, access and position\<close>

lemma init_yields:
  assumes "l \<noteq> NULL" "hdrs m l \<noteq> None" "nodes m (head_of l) \<noteq> None"
  shows "yields m l off [] {head_of l} (cclist_init bd m l off)"
proof -
  from assms(2,3) obtain h n where h: "hdrs m l = Some h" and n: "nodes m (head_of l) = Some n"
    by blast
  show ?thesis
    unfolding yields_def
    by (simp add: cclist_init_def assms(1) wr_size_def wr_next_def wr_prev_def wr_offset_def h n
        wf_list_def ring_def link_def nxt_def prv_def only_touches_def)
      (use n in auto)
qed

lemma get_ptr_after: "wf_list m l off xs \<Longrightarrow> get_ptr m l (y + off) = Inr y"
  by (auto simp: get_ptr_mapped dest: wf_listD(3))

lemma get_node_of: "wf_list m l off xs \<Longrightarrow> get_node m l y = Inr (y + off)"
  by (auto simp: get_node_mapped dest: wf_listD(3))

lemma first_of_list:
  assumes "wf_list m l off xs"
  shows "cclist_first bd m l = Inr (case xs of [] \<Rightarrow> NULL | x # _ \<Rightarrow> x)"
  using wf_list_next [of m l off "[]" xs] wf_listD(1) [OF assms] get_ptr_after [OF assms]
    wf_list_head_not_node [OF assms] assms
  by (cases xs) (simp_all add: cclist_first_def)

lemma last_of_list:
  assumes "wf_list m l off xs"
  shows "cclist_last bd m l = Inr (if xs = [] then NULL else last xs)"
  using wf_list_prev [of m l off xs "[]"] wf_listD(1) [OF assms] get_ptr_after [OF assms]
    wf_list_head_not_node [OF assms] assms
  by (cases xs rule: rev_cases) (simp_all add: cclist_last_def)

lemma next_of_list:
  assumes "wf_list m l off (xs @ x # ys)"
  shows "cclist_next m l x = Inr (case ys of [] \<Rightarrow> NULL | y # _ \<Rightarrow> y)"
  using wf_list_next [of m l off "xs @ [x]" ys] get_node_of [OF assms] get_ptr_after [OF assms]
    wf_list_head_not_node [OF assms] assms
  by (cases ys) (simp_all add: cclist_next_def)

lemma prev_of_list:
  assumes "wf_list m l off (xs @ x # ys)"
  shows "cclist_prev m l x = Inr (if xs = [] then NULL else last xs)"
  using wf_list_prev [of m l off xs "x # ys"] get_node_of [OF assms] get_ptr_after [OF assms]
    wf_list_head_not_node [OF assms] assms
  by (cases xs rule: rev_cases) (simp_all add: cclist_prev_def)

text \<open>Where the search for the \<^term>\<open>n\<close>th item stops, and what is left of \<^term>\<open>n\<close>.\<close>

declare nth_loop.simps [simp del]

lemma nth_loop_result:
  assumes "wf_list m l off (xs @ ys)"
  shows "nth_loop m (head_of l) (node_after l off ys) n =
    (if unat n < length ys then Inr (node_after l off (drop (unat n) ys), - 1)
     else Inr (head_of l, n - of_nat (length ys)))"
  using assms
proof (induction ys arbitrary: xs n)
  case Nil
  then show ?case by (simp add: nth_loop.simps)
next
  case (Cons y ys)
  have ne: "y + off \<noteq> head_of l"
    using wf_list_head_not_node [OF Cons.prems] by simp
  have nx: "rd_next m (y + off) = Inr (node_after l off ys)"
    using wf_list_next [of m l off "xs @ [y]" ys] Cons.prems by simp
  show ?case
  proof (cases "n = 0")
    case True
    then show ?thesis using ne by (subst nth_loop.simps) simp
  next
    case False
    then have n: "unat n = Suc (unat (n - 1))"
      by (simp add: unat_minus_one unat_gt_0)
    have "nth_loop m (head_of l) (node_after l off (y # ys)) n =
        nth_loop m (head_of l) (node_after l off ys) (n - 1)"
      using ne nx False by (subst nth_loop.simps) simp
    then show ?thesis
      using Cons.IH [of "xs @ [y]" "n - 1"] Cons.prems by (simp add: n algebra_simps)
  qed
qed

lemma nth_item_result:
  assumes wf: "wf_list m l off xs"
  shows "cclist_nth_item bd m l n =
    (if bd = Debug \<and> unat n \<noteq> length xs then Inl AssertFail
     else Inr (node_after l off (drop (unat n) xs)))"
proof -
  have len: "unat (of_nat (length xs) :: size_t) = length xs"
    using wf_list_size(2) [OF wf] .
  have eq: "n - of_nat (length xs) = 0 \<longleftrightarrow> unat n = length xs"
    using len by (metis eq_iff_diff_eq_0 unsigned_word_eqI)
  show ?thesis
    using wf_list_next [of m l off "[]" xs] nth_loop_result [of m l off "[]" xs n] wf eq
    by (simp add: cclist_nth_item_def ccassert_def)
qed

lemma insert_at_release_yields:
  assumes "wf_list m l off xs" "fresh_obj m l off xs x"
  shows "yields m l off (take (unat n) xs @ x # drop (unat n) xs)
           (footprint l off (take (unat n) xs @ x # drop (unat n) xs)) (cclist_insert_at NDebug m l x n)"
  using do_insert_before_yields [of m l off "take (unat n) xs" "drop (unat n) xs" x] assms
    wf_listD(1) [OF assms(1)] nth_item_result [OF assms(1)]
  by (simp add: cclist_insert_at_def)

lemma insert_at_debug:
  assumes "wf_list m l off xs"
  shows "cclist_insert_at Debug m l x n =
    (if unat n = length xs then cclist_insert_last Debug m l x else Inl AssertFail)"
  using wf_listD(1) [OF assms] nth_item_result [OF assms]
  by (simp add: cclist_insert_at_def cclist_insert_last_def)

section \<open>Clearing a list\<close>

text \<open>
  The destructor applied to each object in turn, and what it must leave alone: it may do anything
  to the node of the object it is given (release it) and to its own data, nothing to other nodes
  or to this list's header.
\<close>

fun run_des :: "'u destructor option \<Rightarrow> addr list \<Rightarrow> lmem \<times> 'u \<Rightarrow> (lmem \<times> 'u) res" where
  "run_des des [] s = Inr s"
| "run_des des (x # xs) s =
     bindE (case des of None \<Rightarrow> Inr s | Some d \<Rightarrow> d x s) (run_des des xs)"

definition local_des :: "'u destructor option \<Rightarrow> addr \<Rightarrow> size_t \<Rightarrow> bool" where
  "local_des des l off = (case des of None \<Rightarrow> True | Some d \<Rightarrow>
     (\<forall>x s s'. d x s = Inr s' \<longrightarrow>
       (\<forall>p. p \<noteq> x + off \<longrightarrow> nodes (fst s') p = nodes (fst s) p) \<and>
       hdrs (fst s') l = hdrs (fst s) l))"

lemma local_desD:
  assumes loc: "local_des des l off" and run: "(case des of None \<Rightarrow> Inr s | Some d \<Rightarrow> d x s) = Inr s'"
  shows "p \<noteq> x + off \<Longrightarrow> nodes (fst s') p = nodes (fst s) p" "hdrs (fst s') l = hdrs (fst s) l"
proof -
  have "(p \<noteq> x + off \<longrightarrow> nodes (fst s') p = nodes (fst s) p) \<and> hdrs (fst s') l = hdrs (fst s) l"
  proof (cases des)
    case None
    then show ?thesis using run by simp
  next
    case (Some d)
    then have "d x s = Inr s'" using run by simp
    moreover have "\<forall>x s s'. d x s = Inr s' \<longrightarrow>
       (\<forall>p. p \<noteq> x + off \<longrightarrow> nodes (fst s') p = nodes (fst s) p) \<and> hdrs (fst s') l = hdrs (fst s) l"
      using loc unfolding local_des_def Some option.case .
    ultimately show ?thesis by blast
  qed
  then show "p \<noteq> x + off \<Longrightarrow> nodes (fst s') p = nodes (fst s) p" "hdrs (fst s') l = hdrs (fst s) l"
    by simp_all
qed

lemma run_des_frame:
  assumes loc: "local_des des l off" and run: "run_des des xs s = Inr s'"
  shows "p \<notin> (\<lambda>x. x + off) ` set xs \<Longrightarrow> nodes (fst s') p = nodes (fst s) p"
    and "hdrs (fst s') l = hdrs (fst s) l"
proof -
  have "(p \<notin> (\<lambda>x. x + off) ` set xs \<longrightarrow> nodes (fst s') p = nodes (fst s) p) \<and>
      hdrs (fst s') l = hdrs (fst s) l"
    using run
  proof (induction xs arbitrary: s)
    case (Cons x xs)
    then obtain s1 where s1: "(case des of None \<Rightarrow> Inr s | Some d \<Rightarrow> d x s) = Inr s1"
      and r: "run_des des xs s1 = Inr s'"
      by (auto simp only: run_des.simps bindE_eq_Inr)
    from Cons.IH [OF r] local_desD(1) [OF loc s1, of p] local_desD(2) [OF loc s1] show ?case
      by simp
  qed simp
  then show "p \<notin> (\<lambda>x. x + off) ` set xs \<Longrightarrow> nodes (fst s') p = nodes (fst s) p"
    and "hdrs (fst s') l = hdrs (fst s) l"
    by simp_all
qed

lemma clear_loop_runs:
  assumes "wf_list m l off (xs @ ys)" "local_des des l off"
    and "\<And>y. y \<in> set ys \<Longrightarrow> nodes (fst s) (y + off) = nodes m (y + off)"
    and "hdrs (fst s) l = hdrs m l"
  shows "clear_loop des l (node_after l off ys) s = Some (run_des des ys s)"
  using assms(1,3,4)
proof (induction ys arbitrary: xs s)
  case Nil
  then show ?case by (simp add: clear_loop.simps)
next
  case (Cons y ys)
  have ne: "y + off \<noteq> head_of l"
    using wf_list_head_not_node [OF Cons.prems(1)] by simp
  have dist: "y \<notin> set ys"
    using wf_list_distinct(2) [OF Cons.prems(1)] by auto
  have gp: "get_ptr (fst s) l (y + off) = Inr y"
    using wf_listD(3) [OF Cons.prems(1)] Cons.prems(3) by (simp add: get_ptr_mapped)
  have "rd_next m (y + off) = Inr (node_after l off ys)"
    using wf_list_next [of m l off "xs @ [y]" ys] Cons.prems(1) by simp
  then have nx: "rd_next (fst s) (y + off) = Inr (node_after l off ys)"
    using Cons.prems(2) [of y] by (simp add: rd_next_def)
  show ?case
  proof (cases "case des of None \<Rightarrow> Inr s | Some d \<Rightarrow> d y s")
    case (Inl e)
    then show ?thesis using ne gp nx by (subst clear_loop.simps) simp
  next
    case (Inr s')
    have "clear_loop des l (node_after l off ys) s' = Some (run_des des ys s')"
    proof (rule Cons.IH [of "xs @ [y]"])
      show "nodes (fst s') (z + off) = nodes m (z + off)" if "z \<in> set ys" for z
        using local_desD(1) [OF assms(2) Inr, of "z + off"] Cons.prems(2) [of z] that dist by auto
    qed (use Cons.prems local_desD(2) [OF assms(2) Inr] in simp_all)
    with Inr ne gp nx show ?thesis by (subst clear_loop.simps) simp
  qed
qed

lemma clear_result:
  assumes wf: "wf_list m l off xs" and des: "local_des des l off"
    and run: "run_des des xs (m, u) = Inr (m', u')"
  shows "\<exists>m''. cclist_clear bd des m l u = Some (Inr (m'', u')) \<and> wf_list m'' l off [] \<and>
    only_touches m' l {head_of l} m''"
proof -
  have h: "hdrs m' l = Some \<lparr>l_size = of_nat (length xs), l_offset = off\<rparr>"
    using run_des_frame(2) [OF des run] wf_listD(3) [OF wf] by simp
  have "nodes m (head_of l) \<noteq> None"
    using ring_mapped [OF wf_listD(4) [OF wf]] by simp
  moreover have "head_of l \<notin> (\<lambda>x. x + off) ` set xs"
    using wf_list_distinct(1) [OF wf] by simp
  ultimately have "nodes m' (head_of l) \<noteq> None"
    using run_des_frame(1) [OF des run] by simp
  then obtain m'' where "cclist_init bd m' l off = Inr m''" "wf_list m'' l off []"
    "only_touches m' l {head_of l} m''"
    using init_yields [of l m' off bd] wf_listD(1) [OF wf] h by (auto simp: yields_def)
  then show ?thesis
    using clear_loop_runs [of m l off "[]" xs des "(m, u)"] wf_list_next [of m l off "[]" xs] wf des run h
      wf_listD(1) [OF wf]
    by (simp add: cclist_clear_def rd_offset_mapped)
qed

section \<open>The interface the list's clients use\<close>

text \<open>
  The loop \<^verbatim>\<open>for(x = cclist_first(l); x; x = cclist_next(l, x))\<close> all clients iterate with, and
  the loop that takes the front element until none is left.  Both collect what they see.
\<close>

partial_function (option) walk :: "(addr \<Rightarrow> addr res) \<Rightarrow> addr \<Rightarrow> addr list res option" where
  "walk succ x =
     (if x = NULL then Some (Inr [])
      else (case succ x of
          Inl e \<Rightarrow> Some (Inl e)
        | Inr y \<Rightarrow> Option.bind (walk succ y) (\<lambda>r. Some (bindE r (\<lambda>ys. Inr (x # ys))))))"

fun take_front :: "('m \<Rightarrow> addr res) \<Rightarrow> ('m \<Rightarrow> 'm res) \<Rightarrow> nat \<Rightarrow> 'm \<Rightarrow> (addr list \<times> 'm) res" where
  "take_front front pop 0 m = Inr ([], m)"
| "take_front front pop (Suc n) m =
     bindE (front m) (\<lambda>x.
     bindE (pop m) (\<lambda>m.
     bindE (take_front front pop n m) (\<lambda>(xs, m). Inr (x # xs, m))))"

fun push_all :: "('m \<Rightarrow> addr \<Rightarrow> 'm res) \<Rightarrow> addr list \<Rightarrow> 'm \<Rightarrow> 'm res" where
  "push_all push [] m = Inr m"
| "push_all push (x # xs) m = bindE (push m x) (push_all push xs)"

locale cc_sequence =
  fixes rep :: "'m \<Rightarrow> 'l \<Rightarrow> addr list \<Rightarrow> bool"
    and avail :: "'m \<Rightarrow> 'l \<Rightarrow> addr list \<Rightarrow> addr \<Rightarrow> bool"
    and front :: "'l \<Rightarrow> 'm \<Rightarrow> addr res"
    and succ :: "'l \<Rightarrow> 'm \<Rightarrow> addr \<Rightarrow> addr res"
    and push_front :: "'l \<Rightarrow> 'm \<Rightarrow> addr \<Rightarrow> 'm res"
    and push_back :: "'l \<Rightarrow> 'm \<Rightarrow> addr \<Rightarrow> 'm res"
    and pop_front :: "'l \<Rightarrow> 'm \<Rightarrow> 'm res"
  assumes rep_not_null: "rep m l xs \<Longrightarrow> NULL \<notin> set xs"
    and front_ok: "rep m l xs \<Longrightarrow> front l m = Inr (case xs of [] \<Rightarrow> NULL | x # _ \<Rightarrow> x)"
    and succ_ok: "rep m l (xs @ x # ys) \<Longrightarrow> succ l m x = Inr (case ys of [] \<Rightarrow> NULL | y # _ \<Rightarrow> y)"
    and push_front_ok: "rep m l xs \<Longrightarrow> avail m l xs x \<Longrightarrow>
      \<exists>m'. push_front l m x = Inr m' \<and> rep m' l (x # xs) \<and>
        (\<forall>y. avail m l xs y \<and> y \<noteq> x \<longrightarrow> avail m' l (x # xs) y)"
    and push_back_ok: "rep m l xs \<Longrightarrow> avail m l xs x \<Longrightarrow>
      \<exists>m'. push_back l m x = Inr m' \<and> rep m' l (xs @ [x]) \<and>
        (\<forall>y. avail m l xs y \<and> y \<noteq> x \<longrightarrow> avail m' l (xs @ [x]) y)"
    and pop_front_ok: "rep m l xs \<Longrightarrow> \<exists>m'. pop_front l m = Inr m' \<and> rep m' l (tl xs)"
begin

lemma walk_from: "rep m l (xs @ ys) \<Longrightarrow> walk (succ l m) (case ys of [] \<Rightarrow> NULL | y # _ \<Rightarrow> y) = Some (Inr ys)"
proof (induction ys arbitrary: xs)
  case Nil
  then show ?case by (simp add: walk.simps)
next
  case (Cons y ys)
  have "y \<noteq> NULL"
    using rep_not_null [OF Cons.prems] by auto
  moreover have "walk (succ l m) (case ys of [] \<Rightarrow> NULL | y # _ \<Rightarrow> y) = Some (Inr ys)"
    using Cons.IH [of "xs @ [y]"] Cons.prems by simp
  ultimately show ?case
    using succ_ok [OF Cons.prems] by (subst walk.simps) simp
qed

lemma walk_all:
  assumes "rep m l xs"
  shows "\<exists>x. front l m = Inr x \<and> walk (succ l m) x = Some (Inr xs)"
  using front_ok [OF assms] walk_from [of m l "[]" xs] assms by auto

lemma push_back_all:
  "rep m l xs \<Longrightarrow> distinct ys \<Longrightarrow> (\<And>y. y \<in> set ys \<Longrightarrow> avail m l xs y) \<Longrightarrow>
   \<exists>m'. push_all (push_back l) ys m = Inr m' \<and> rep m' l (xs @ ys)"
proof (induction ys arbitrary: m xs)
  case (Cons y ys)
  then obtain m1 where m1: "push_back l m y = Inr m1" "rep m1 l (xs @ [y])"
    "\<forall>z. avail m l xs z \<and> z \<noteq> y \<longrightarrow> avail m1 l (xs @ [y]) z"
    using push_back_ok [of m l xs y] by auto
  have "\<exists>m'. push_all (push_back l) ys m1 = Inr m' \<and> rep m' l ((xs @ [y]) @ ys)"
    by (rule Cons.IH) (use m1 Cons.prems in auto)
  with m1 show ?case by auto
qed simp

lemma push_front_all:
  "rep m l xs \<Longrightarrow> distinct ys \<Longrightarrow> (\<And>y. y \<in> set ys \<Longrightarrow> avail m l xs y) \<Longrightarrow>
   \<exists>m'. push_all (push_front l) ys m = Inr m' \<and> rep m' l (rev ys @ xs)"
proof (induction ys arbitrary: m xs)
  case (Cons y ys)
  then obtain m1 where m1: "push_front l m y = Inr m1" "rep m1 l (y # xs)"
    "\<forall>z. avail m l xs z \<and> z \<noteq> y \<longrightarrow> avail m1 l (y # xs) z"
    using push_front_ok [of m l xs y] by auto
  have "\<exists>m'. push_all (push_front l) ys m1 = Inr m' \<and> rep m' l (rev ys @ (y # xs))"
    by (rule Cons.IH) (use m1 Cons.prems in auto)
  with m1 show ?case by auto
qed simp

lemma drain:
  "rep m l xs \<Longrightarrow> \<exists>m'. take_front (front l) (pop_front l) (length xs) m = Inr (xs, m') \<and> rep m' l []"
proof (induction xs arbitrary: m)
  case (Cons x xs)
  obtain m1 where "pop_front l m = Inr m1" "rep m1 l xs"
    using pop_front_ok [OF Cons.prems] by auto
  with front_ok [OF Cons.prems] Cons.IH [of m1] show ?case by auto
qed simp

lemma fifo:
  assumes "rep m l []" "distinct ys" "\<And>y. y \<in> set ys \<Longrightarrow> avail m l [] y"
  shows "\<exists>m1 m2. push_all (push_back l) ys m = Inr m1 \<and>
    take_front (front l) (pop_front l) (length ys) m1 = Inr (ys, m2) \<and> rep m2 l []"
  using push_back_all [OF assms] drain by fastforce

lemma lifo:
  assumes "rep m l []" "distinct ys" "\<And>y. y \<in> set ys \<Longrightarrow> avail m l [] y"
  shows "\<exists>m1 m2. push_all (push_front l) ys m = Inr m1 \<and>
    take_front (front l) (pop_front l) (length ys) m1 = Inr (rev ys, m2) \<and> rep m2 l []"
  using push_front_all [OF assms] drain [of _ l "rev ys"] by fastforce

end

text \<open>A list is named by its header's address and the offset it was initialised with.\<close>

lemma fresh_obj_other:
  assumes "fresh_obj m l off xs y" "only_touches m l fp m'" "set xs' \<subseteq> insert x (set xs)" "y \<noteq> x"
  shows "fresh_obj m' l off xs' y"
  using assms by (auto simp: fresh_obj_def footprint_def only_touches_def)

interpretation ccl: cc_sequence
  "\<lambda>m (l, off) xs. wf_list m l off xs"
  "\<lambda>m (l, off) xs x. fresh_obj m l off xs x"
  "\<lambda>(l, off) m. cclist_first bd m l"
  "\<lambda>(l, off) m x. cclist_next m l x"
  "\<lambda>(l, off) m x. cclist_insert_first bd m l x"
  "\<lambda>(l, off) m x. cclist_insert_last bd m l x"
  "\<lambda>(l, off) m. cclist_remove_first bd m l"
  for bd
proof (unfold_locales, goal_cases)
  case (1 m l xs)
  then show ?case by (auto dest: wf_listD(2))
next
  case (2 m l xs)
  then show ?case by (auto simp: first_of_list)
next
  case (3 m l xs x ys)
  then show ?case by (auto simp: next_of_list)
next
  case (4 m l xs x)
  obtain a off where l: "l = (a, off)" by (cases l)
  with 4 obtain m' where "cclist_insert_first bd m a x = Inr m'" "wf_list m' a off (x # xs)"
    and t: "only_touches m a (footprint a off (x # xs)) m'"
    using insert_first_yields [of m a off xs x bd] by (auto simp: yields_def)
  moreover have "fresh_obj m' a off (x # xs) y" if "fresh_obj m a off xs y" "y \<noteq> x" for y
    by (rule fresh_obj_other [OF that(1) t _ that(2)]) auto
  ultimately show ?case using l by auto
next
  case (5 m l xs x)
  obtain a off where l: "l = (a, off)" by (cases l)
  with 5 obtain m' where "cclist_insert_last bd m a x = Inr m'" "wf_list m' a off (xs @ [x])"
    and t: "only_touches m a (footprint a off (xs @ [x])) m'"
    using insert_last_yields [of m a off xs x bd] by (auto simp: yields_def)
  moreover have "fresh_obj m' a off (xs @ [x]) y" if "fresh_obj m a off xs y" "y \<noteq> x" for y
    by (rule fresh_obj_other [OF that(1) t _ that(2)]) auto
  ultimately show ?case using l by auto
next
  case (6 m l xs)
  then show ?case
    using remove_first_yields [of m "fst l" "snd l" "hd xs" "tl xs" bd] remove_first_empty [of m "fst l" "snd l" bd]
    by (cases xs) (auto simp: yields_def split_beta)
qed

end
