(* ===== verification/CC_ListProps.thy ===== *)
theory CC_ListProps
  imports CC_ListOps
begin

text \<open>
  The properties of the intrusive list, with a concrete memory on which each is exercised: a list
  header at address 4096 whose objects carry their node 16 bytes in.
\<close>

section \<open>A concrete memory\<close>

definition ex_mem :: lmem where
  "ex_mem =
     \<lparr>nodes = [4104 \<mapsto> \<lparr>n_prev = 12304, n_next = 8208\<rparr>,
               8208 \<mapsto> \<lparr>n_prev = 4104, n_next = 12304\<rparr>,
               12304 \<mapsto> \<lparr>n_prev = 8208, n_next = 4104\<rparr>,
               16400 \<mapsto> \<lparr>n_prev = 0, n_next = 0\<rparr>,
               20488 \<mapsto> \<lparr>n_prev = 20488, n_next = 20488\<rparr>],
      hdrs = [4096 \<mapsto> \<lparr>l_size = 2, l_offset = 16\<rparr>,
              20480 \<mapsto> \<lparr>l_size = 0, l_offset = 16\<rparr>]\<rparr>"

lemma ex_mem_list: "wf_list ex_mem 4096 16 [8192, 12288]"
  by (simp add: wf_list_def ring_def link_def nxt_def prv_def head_of_def ex_mem_def)

lemma ex_mem_empty: "wf_list ex_mem 20480 16 []"
  by (simp add: wf_list_def ring_def link_def nxt_def prv_def head_of_def ex_mem_def)

lemma ex_mem_fresh: "fresh_obj ex_mem 4096 16 [8192, 12288] 16384"
  by (simp add: fresh_obj_def footprint_def head_of_def ex_mem_def)

lemma ex_mem_fresh_empty:
  "fresh_obj ex_mem 20480 16 [] 16384" "fresh_obj ex_mem 20480 16 [] 8192"
  by (simp_all add: fresh_obj_def footprint_def head_of_def ex_mem_def)

section \<open>Properties\<close>

text \<open>C4: inserting at either end. On any well-formed list and for any object whose node is
  allocated and outside the ring, cclist_insert_first and cclist_insert_last return, the list then
  holds the object in front of (behind) the old sequence with the size field updated, and no node
  outside the new ring is written.\<close>

theorem list_insert_ends:
  assumes "wf_list m l off xs" "fresh_obj m l off xs x"
  shows "yields m l off (x # xs) (footprint l off (x # xs)) (cclist_insert_first bd m l x) \<and>
         yields m l off (xs @ [x]) (footprint l off (xs @ [x])) (cclist_insert_last bd m l x)"
  using insert_first_yields [OF assms] insert_last_yields [OF assms] by blast

theorem list_insert_ends_witness:
  "yields ex_mem 4096 16 [16384, 8192, 12288] (footprint 4096 16 [16384, 8192, 12288])
     (cclist_insert_first Debug ex_mem 4096 16384) \<and>
   yields ex_mem 4096 16 [8192, 12288, 16384] (footprint 4096 16 [8192, 12288, 16384])
     (cclist_insert_last Debug ex_mem 4096 16384)"
  using list_insert_ends [OF ex_mem_list ex_mem_fresh, of Debug] by simp

text \<open>inserting next to a given item. cclist_insert_after and cclist_insert_before put the
  object immediately behind (in front of) the item, wherever the item stands in the list.\<close>

theorem list_insert_around:
  assumes "wf_list m l off (xs @ y # ys)" "fresh_obj m l off (xs @ y # ys) x"
  shows "yields m l off (xs @ y # x # ys) (footprint l off (xs @ y # x # ys)) (cclist_insert_after bd m l x y) \<and>
         yields m l off (xs @ x # y # ys) (footprint l off (xs @ x # y # ys)) (cclist_insert_before bd m l x y)"
  using insert_after_yields [OF assms] insert_before_yields [OF assms] by blast

theorem list_insert_around_witness:
  "yields ex_mem 4096 16 [8192, 16384, 12288] (footprint 4096 16 [8192, 16384, 12288])
     (cclist_insert_after Debug ex_mem 4096 16384 8192) \<and>
   yields ex_mem 4096 16 [16384, 8192, 12288] (footprint 4096 16 [16384, 8192, 12288])
     (cclist_insert_before Debug ex_mem 4096 16384 8192)"
  using list_insert_around [of ex_mem 4096 16 "[]" 8192 "[12288]" 16384 Debug] ex_mem_list ex_mem_fresh
  by simp



text \<open>positional insertion. In a build with NDEBUG, cclist_insert_at puts the object at
  position n (at the end when n is past it). In a build with assertions it aborts at every
  position but one: the loop of cclist_nth_item leaves n at SIZE_MAX when it stops at an item, so
  the assertion that n is 0 holds only when n is exactly the length of the list.\<close>

theorem list_insert_at_position:
  assumes "wf_list m l off xs" "fresh_obj m l off xs x"
  shows "yields m l off (take (unat n) xs @ x # drop (unat n) xs)
           (footprint l off (take (unat n) xs @ x # drop (unat n) xs)) (cclist_insert_at NDebug m l x n) \<and>
         cclist_insert_at Debug m l x n =
           (if unat n = length xs then cclist_insert_last Debug m l x else Inl AssertFail)"
  using insert_at_release_yields [OF assms] insert_at_debug [OF assms(1)] by blast

theorem list_insert_at_position_witness:
  "yields ex_mem 4096 16 [8192, 16384, 12288] (footprint 4096 16 [8192, 16384, 12288])
     (cclist_insert_at NDebug ex_mem 4096 16384 1) \<and>
   cclist_insert_at Debug ex_mem 4096 16384 1 = Inl AssertFail"
  using list_insert_at_position [OF ex_mem_list ex_mem_fresh, of 1] by simp

text \<open>navigation. cclist_first, cclist_last, cclist_next and cclist_prev return the object at
  that place of the sequence, and NULL exactly where there is none.\<close>

theorem list_navigation:
  assumes "wf_list m l off (xs @ x # ys)"
  shows "cclist_first bd m l = Inr (hd (xs @ [x])) \<and>
         cclist_last bd m l = Inr (last (x # ys)) \<and>
         cclist_next m l x = Inr (if ys = [] then NULL else hd ys) \<and>
         cclist_prev m l x = Inr (if xs = [] then NULL else last xs)"
  using first_of_list [OF assms, of bd] last_of_list [OF assms, of bd] next_of_list [OF assms]
    prev_of_list [OF assms]
  by (cases xs; cases ys) simp_all

theorem list_navigation_witness:
  "cclist_first Debug ex_mem 4096 = Inr 8192 \<and> cclist_last Debug ex_mem 4096 = Inr 12288 \<and>
   cclist_next ex_mem 4096 12288 = Inr NULL \<and> cclist_prev ex_mem 4096 12288 = Inr 8192"
  using list_navigation [of ex_mem 4096 16 "[8192]" 12288 "[]" Debug] ex_mem_list by simp



text \<open>C17: the list as a queue and as a stack. Objects inserted last and then taken from the front
  come out in the order they went in; objects inserted first come out in reverse. Either way the
  list is empty afterwards.\<close>

theorem list_queue_and_stack:
  assumes "wf_list m l off []" "distinct ys" "\<And>y. y \<in> set ys \<Longrightarrow> fresh_obj m l off [] y"
  shows "(\<exists>m1 m2. push_all (\<lambda>m. cclist_insert_last bd m l) ys m = Inr m1 \<and>
            take_front (\<lambda>m. cclist_first bd m l) (\<lambda>m. cclist_remove_first bd m l) (length ys) m1 = Inr (ys, m2) \<and>
            wf_list m2 l off []) \<and>
         (\<exists>m1 m2. push_all (\<lambda>m. cclist_insert_first bd m l) ys m = Inr m1 \<and>
            take_front (\<lambda>m. cclist_first bd m l) (\<lambda>m. cclist_remove_first bd m l) (length ys) m1 = Inr (rev ys, m2) \<and>
            wf_list m2 l off [])"
  using ccl.fifo [of m "(l, off)" ys bd] ccl.lifo [of m "(l, off)" ys bd] assms by simp

theorem list_queue_and_stack_witness:
  "\<exists>m1 m2. push_all (\<lambda>m. cclist_insert_last Debug m 20480) [8192, 16384] ex_mem = Inr m1 \<and>
     take_front (\<lambda>m. cclist_first Debug m 20480) (\<lambda>m. cclist_remove_first Debug m 20480) 2 m1 =
       Inr ([8192, 16384], m2) \<and> wf_list m2 20480 16 []"
proof -
  have "fresh_obj ex_mem 20480 16 [] y" if "y \<in> set [8192, 16384]" for y
    using that ex_mem_fresh_empty by auto
  then have h: "\<exists>m1 m2. push_all (\<lambda>m. cclist_insert_last Debug m 20480) [8192, 16384] ex_mem = Inr m1 \<and>
     take_front (\<lambda>m. cclist_first Debug m 20480) (\<lambda>m. cclist_remove_first Debug m 20480)
       (length [8192 :: addr, 16384]) m1 = Inr ([8192, 16384], m2) \<and> wf_list m2 20480 16 []"
    using list_queue_and_stack [OF ex_mem_empty, of "[8192, 16384]" Debug] by simp
  have len: "length [8192 :: addr, 16384] = 2" by simp
  from h [unfolded len] show ?thesis .
qed

text \<open>C19: clearing. With a destructor that only touches the node of the object it is given (it may
  release it), cclist_clear ends, calls the destructor exactly once on each object in list order,
  and leaves an empty list; the state it returns is the destructors' own result.\<close>

theorem list_clear:
  assumes "wf_list m l off xs" "local_des des l off" "run_des des xs (m, u) = Inr (m', u')"
  shows "\<exists>m''. cclist_clear bd des m l u = Some (Inr (m'', u')) \<and> wf_list m'' l off [] \<and>
           only_touches m' l {head_of l} m''"
  by (rule clear_result [OF assms])

definition ex_free :: "addr list destructor" where
  "ex_free x s = Inr ((fst s)\<lparr>nodes := (nodes (fst s))(x + 16 := None)\<rparr>, snd s @ [x])"

theorem list_clear_witness:
  "\<exists>m''. cclist_clear Debug (Some ex_free) ex_mem 4096 [] = Some (Inr (m'', [8192, 12288])) \<and>
     wf_list m'' 4096 16 []"
proof -
  have "local_des (Some ex_free) 4096 16"
    by (simp add: local_des_def ex_free_def)
  moreover have "\<exists>m'. run_des (Some ex_free) [8192, 12288] (ex_mem, []) = Inr (m', [8192, 12288])"
    by (simp add: ex_free_def)
  ultimately show ?thesis
    using list_clear [OF ex_mem_list, of "Some ex_free" "[]" _ "[8192, 12288]" Debug] by blast
qed

text \<open>Whether a list is well-formed depends on its own nodes and header only.\<close>

lemma wf_list_local:
  assumes "wf_list m k o' zs" "\<And>p. p \<in> footprint k o' zs \<Longrightarrow> nodes m' p = nodes m p" "hdrs m' k = hdrs m k"
  shows "wf_list m' k o' zs"
proof -
  have "successively (link m') (head_of k # map (\<lambda>x. x + o') zs @ [head_of k])"
  proof (rule successively_frame)
    show "successively (link m) (head_of k # map (\<lambda>x. x + o') zs @ [head_of k])"
      using wf_listD(4) [OF assms(1)] by (simp add: ring_def)
    fix a b assume lk: "link m a b"
      and "a \<in> set (butlast (head_of k # map (\<lambda>x. x + o') zs @ [head_of k]))"
      and "b \<in> set (tl (head_of k # map (\<lambda>x. x + o') zs @ [head_of k]))"
    then have "a \<in> footprint k o' zs" "b \<in> footprint k o' zs"
      by (auto simp: footprint_def butlast_append split: if_splits)
    with lk show "link m' a b"
      by (simp add: link_def nxt_def prv_def assms(2))
  qed
  then show ?thesis
    using assms(3) wf_listD [OF assms(1)] by (simp add: wf_list_def ring_def)
qed

lemma wf_list_frame:
  assumes "wf_list m k o' zs" "only_touches m l fp m'" "k \<noteq> l" "footprint k o' zs \<inter> fp = {}"
  shows "wf_list m' k o' zs"
  by (rule wf_list_local [OF assms(1)]) (use assms(2-4) in \<open>auto simp: only_touches_def\<close>)

text \<open>separation. An operation that only touched one list's footprint leaves every other
  well-formed list with a disjoint footprint as it was; so inserting into one list never disturbs
  another.\<close>

theorem list_separation:
  assumes "wf_list m l off xs" "fresh_obj m l off xs x" "wf_list m k o' zs" "k \<noteq> l"
    and "footprint k o' zs \<inter> footprint l off (x # xs) = {}"
  shows "\<exists>m'. cclist_insert_first bd m l x = Inr m' \<and> wf_list m' l off (x # xs) \<and> wf_list m' k o' zs"
  using insert_first_yields [OF assms(1,2), of bd] wf_list_frame [OF assms(3) _ assms(4,5)]
  by (auto simp: yields_def)

theorem list_separation_witness:
  "\<exists>m'. cclist_insert_first Debug ex_mem 20480 16384 = Inr m' \<and> wf_list m' 20480 16 [16384] \<and>
     wf_list m' 4096 16 [8192, 12288]"
  using list_separation [OF ex_mem_empty ex_mem_fresh_empty(1) ex_mem_list, of Debug]
  by (simp add: footprint_def head_of_def)

end
