(* ===== verification/CC_Buffer.thy ===== *)
theory CC_Buffer
  imports CC_Prelude
begin

text \<open>
  Byte buffers and NUL-terminated strings.  A buffer is a list of bytes of which some may never
  have been written (\<^const>\<open>None\<close>): reading one of those, or reading or writing outside the
  buffer, is an error of the model.  The C library routines the sources call on buffers
  (\<^verbatim>\<open>strlen\<close>, \<^verbatim>\<open>memcpy\<close>, \<^verbatim>\<open>isdigit\<close>, \<^verbatim>\<open>isspace\<close>) are here too.
\<close>

section \<open>Buffers\<close>

type_synonym buf = "byte option list"

definition rd :: "buf \<Rightarrow> nat \<Rightarrow> byte res" where
  "rd b i = (if i < length b then (case b ! i of None \<Rightarrow> Inl Uninit | Some c \<Rightarrow> Inr c) else Inl OutOfBounds)"

definition wr :: "buf \<Rightarrow> nat \<Rightarrow> byte \<Rightarrow> buf res" where
  "wr b i c = (if i < length b then Inr (b[i := Some c]) else Inl OutOfBounds)"

definition memcpy :: "buf \<Rightarrow> buf \<Rightarrow> nat \<Rightarrow> buf res" where
  "memcpy dest src n =
     (if n \<le> length dest \<and> n \<le> length src then Inr (take n src @ drop n dest) else Inl OutOfBounds)"

text \<open>The string a buffer holds: the bytes before the first NUL.\<close>

fun read_str :: "buf \<Rightarrow> byte list res" where
  "read_str [] = Inl OutOfBounds"
| "read_str (None # b) = Inl Uninit"
| "read_str (Some c # b) = (if c = 0 then Inr [] else bindE (read_str b) (\<lambda>s. Inr (c # s)))"

text \<open>A C string: a byte sequence without NUL, and the buffer that holds exactly it.\<close>

definition is_cstr :: "byte list \<Rightarrow> bool" where
  "is_cstr s \<longleftrightarrow> 0 \<notin> set s"

definition cbuf :: "byte list \<Rightarrow> buf" where
  "cbuf s = map Some (s @ [0])"

lemma is_cstr_simps [simp]:
  "is_cstr []"
  "is_cstr (c # s) \<longleftrightarrow> c \<noteq> 0 \<and> is_cstr s"
  "is_cstr (s @ t) \<longleftrightarrow> is_cstr s \<and> is_cstr t"
  by (auto simp: is_cstr_def)

lemma is_cstr_take: "is_cstr s \<Longrightarrow> is_cstr (take n s)"
  by (auto simp: is_cstr_def dest: in_set_takeD)

lemma is_cstr_nth: "is_cstr s \<Longrightarrow> i < length s \<Longrightarrow> s ! i \<noteq> 0"
  by (auto simp: is_cstr_def in_set_conv_nth)

text \<open>A buffer holds a string if it starts with the string's bytes and a NUL.\<close>

lemma read_str_iff: "read_str b = Inr s \<longleftrightarrow> is_cstr s \<and> (\<exists>r. b = map Some s @ Some 0 # r)"
proof
  show "read_str b = Inr s \<Longrightarrow> is_cstr s \<and> (\<exists>r. b = map Some s @ Some 0 # r)"
    by (induction b arbitrary: s rule: read_str.induct) (fastforce simp: bindE_eq_Inr split: if_splits)+
next
  assume "is_cstr s \<and> (\<exists>r. b = map Some s @ Some 0 # r)"
  then obtain r where "is_cstr s" "b = map Some s @ Some 0 # r" by blast
  then show "read_str b = Inr s"
    by (induction s arbitrary: b) auto
qed

lemma read_str_cbuf [simp]: "is_cstr s \<Longrightarrow> read_str (cbuf s) = Inr s"
  by (auto simp: read_str_iff cbuf_def)

lemma length_cbuf [simp]: "length (cbuf s) = Suc (length s)"
  by (simp add: cbuf_def)

lemma rd_cbuf: "i \<le> length s \<Longrightarrow> rd (cbuf s) i = Inr ((s @ [0]) ! i)"
  by (simp add: rd_def cbuf_def del: map_append)

lemma rd_inside: "i < length s \<Longrightarrow> rd (map Some s @ r) i = Inr (s ! i)"
  by (simp add: rd_def nth_append)

lemma length_wr: "wr b i c = Inr b' \<Longrightarrow> length b' = length b"
  by (auto simp: wr_def split: if_splits)

section \<open>Character classes\<close>

text \<open>
  \<^verbatim>\<open>isdigit\<close> and \<^verbatim>\<open>isspace\<close> of the C locale (the library never calls
  \<^verbatim>\<open>setlocale\<close>).
\<close>

definition isdigit :: "byte \<Rightarrow> bool" where
  "isdigit c \<longleftrightarrow> 48 \<le> c \<and> c \<le> 57"

definition isspace :: "byte \<Rightarrow> bool" where
  "isspace c \<longleftrightarrow> c = 32 \<or> (9 \<le> c \<and> c \<le> 13)"

lemma class_of_nul [simp]: "\<not> isdigit 0" "\<not> isspace 0"
  by (simp_all add: isdigit_def isspace_def)

lemma digit_not_space: "isdigit c \<Longrightarrow> \<not> isspace c"
  by (auto simp: isdigit_def isspace_def word_le_nat_alt)

text \<open>ASCII text as bytes, for concrete inputs.\<close>

definition bytes :: "string \<Rightarrow> byte list" where
  "bytes s = map (\<lambda>c. of_nat (of_char c)) s"

end
