(* ===== verification/CC_Table.thy ===== *)
theory CC_Table
  imports CC_ListOps CC_Buffer "HOL-Library.Multiset"
begin

unbundle bit_operations_syntax

text \<open>
  The string-indexed hash table (src/table.c, include/ccore/table.h).  A bucket, and the list of
  values of a multi-valued node, is the sequence of objects its \<^verbatim>\<open>cclist_t\<close> holds: the
  operations the table uses on lists are \<^verbatim>\<open>cclist_insert_first\<close>, which puts an object in
  front of the sequence, and the \<^verbatim>\<open>cclist_first\<close>/\<^verbatim>\<open>cclist_next\<close> loop, which visits the
  sequence in order (\<^verbatim>\<open>ccl.push_front_ok\<close> and \<^verbatim>\<open>ccl.walk_all\<close> in CC_ListOps).
  Keys are C strings, stored values are pointers; \<^const>\<open>NULL\<close> answers a lookup that finds
  nothing.
\<close>

section \<open>State\<close>

datatype slot = One_value addr | Many_values "addr list"

record bnode =
  b_key :: "byte list"
  b_slot :: slot

record cctable =
  t_capacity :: size_t
  t_size :: size_t
  t_allow_multiple :: bool
  t_buckets :: "bnode list list"

text \<open>Reading the union of a node as the member that was not written is an error.\<close>

fun one_value :: "slot \<Rightarrow> addr res" where
  "one_value (One_value v) = Inr v"
| "one_value (Many_values vs) = Inl BadDeref"

fun many_values :: "slot \<Rightarrow> addr list res" where
  "many_values (One_value v) = Inl BadDeref"
| "many_values (Many_values vs) = Inr vs"

section \<open>Operations\<close>

definition next_power_of_2 :: "size_t \<Rightarrow> size_t" where
  "next_power_of_2 v =
     (let v = v - 1;
          v = v OR drop_bit 1 v;
          v = v OR drop_bit 2 v;
          v = v OR drop_bit 4 v;
          v = v OR drop_bit 8 v;
          v = v OR drop_bit 16 v
      in v + 1)"

text \<open>
  \<^verbatim>\<open>hash ^ string[i]\<close> converts a plain \<^verbatim>\<open>char\<close>, signed on the target, to
  \<^verbatim>\<open>size_t\<close>: the byte is sign-extended.
\<close>

definition hash_step :: "size_t \<Rightarrow> byte \<Rightarrow> size_t" where
  "hash_step hash c = (hash XOR signed c) * 0x100000001b3"

definition hash_string :: "byte list \<Rightarrow> size_t" where
  "hash_string s = foldl hash_step 0x84222325cbf29ce4 s"

text \<open>
  The bucket array is allocated with \<^verbatim>\<open>capacity * sizeof(cctable_t)\<close> bytes; a
  \<^verbatim>\<open>cctable_t\<close> and a \<^verbatim>\<open>cclist_t\<close> are both 32 bytes.
\<close>

definition cctable_init :: "size_t \<Rightarrow> bool \<Rightarrow> cctable res" where
  "cctable_init n_items allow_multiple =
     (let cap = next_power_of_2 n_items in
      if unat (cap * 32) div 32 < unat cap then Inl OutOfBounds
      else Inr \<lparr>t_capacity = cap, t_size = 0, t_allow_multiple = allow_multiple,
                t_buckets = replicate (unat cap) []\<rparr>)"

definition bucket_idx :: "cctable \<Rightarrow> byte list \<Rightarrow> size_t" where
  "bucket_idx t key = hash_string key AND (t_capacity t - 1)"

definition get_bucket :: "cctable \<Rightarrow> size_t \<Rightarrow> bnode list res" where
  "get_bucket t i =
     (if unat i < length (t_buckets t) then Inr (t_buckets t ! unat i) else Inl OutOfBounds)"

text \<open>The loops over all buckets run from 0 to the capacity.\<close>

definition all_buckets :: "cctable \<Rightarrow> bnode list list res" where
  "all_buckets t =
     (if unat (t_capacity t) \<le> length (t_buckets t) then Inr (take (unat (t_capacity t)) (t_buckets t))
      else Inl OutOfBounds)"

definition set_bucket :: "cctable \<Rightarrow> size_t \<Rightarrow> bnode list \<Rightarrow> cctable" where
  "set_bucket t i b = t\<lparr>t_buckets := (t_buckets t)[unat i := b]\<rparr>"

text \<open>The node the loop over a bucket stops at, with the nodes before and after it.\<close>

fun find_node :: "byte list \<Rightarrow> bnode list \<Rightarrow> (bnode list \<times> bnode \<times> bnode list) option" where
  "find_node key [] = None"
| "find_node key (n # ns) =
     (if key = b_key n then Some ([], n, ns)
      else map_option (\<lambda>(us, m, vs). (n # us, m, vs)) (find_node key ns))"

definition cctable_insert_single :: "cctable \<Rightarrow> byte list \<Rightarrow> addr \<Rightarrow> cctable res" where
  "cctable_insert_single t key object =
     (let i = bucket_idx t key in
      bindE (get_bucket t i) (\<lambda>bucket.
      case find_node key bucket of
        Some _ \<Rightarrow> Inr t
      | None \<Rightarrow>
          let new_node = \<lparr>b_key = key, b_slot = One_value object\<rparr> in
          Inr ((set_bucket t i (new_node # bucket))\<lparr>t_size := t_size t + 1\<rparr>)))"

definition cctable_insert_many :: "cctable \<Rightarrow> byte list \<Rightarrow> addr \<Rightarrow> cctable res" where
  "cctable_insert_many t key object =
     (let i = bucket_idx t key in
      bindE (get_bucket t i) (\<lambda>bucket.
      case find_node key bucket of
        Some (us, node, vs) \<Rightarrow>
          bindE (many_values (b_slot node)) (\<lambda>values.
          Inr ((set_bucket t i (us @ node\<lparr>b_slot := Many_values (object # values)\<rparr> # vs))
                 \<lparr>t_size := t_size t + 1\<rparr>))
      | None \<Rightarrow>
          let new_node = \<lparr>b_key = key, b_slot = Many_values [object]\<rparr> in
          Inr ((set_bucket t i (new_node # bucket))\<lparr>t_size := t_size t + 1\<rparr>)))"

definition cctable_insert :: "cctable \<Rightarrow> byte list \<Rightarrow> addr \<Rightarrow> cctable res" where
  "cctable_insert t key object =
     (if t_allow_multiple t then cctable_insert_many t key object
      else cctable_insert_single t key object)"

definition cctable_get_many :: "build \<Rightarrow> cctable \<Rightarrow> byte list \<Rightarrow> addr list option res" where
  "cctable_get_many bd t key =
     bindE (ccassert bd (t_allow_multiple t)) (\<lambda>_.
     bindE (get_bucket t (bucket_idx t key)) (\<lambda>bucket.
     case find_node key bucket of
       None \<Rightarrow> Inr None
     | Some (_, node, _) \<Rightarrow> bindE (many_values (b_slot node)) (\<lambda>values. Inr (Some values))))"

definition cctable_get_one :: "build \<Rightarrow> cctable \<Rightarrow> byte list \<Rightarrow> addr res" where
  "cctable_get_one bd t key =
     bindE (ccassert bd (\<not> t_allow_multiple t)) (\<lambda>_.
     bindE (get_bucket t (bucket_idx t key)) (\<lambda>bucket.
     case find_node key bucket of
       None \<Rightarrow> Inr NULL
     | Some (_, node, _) \<Rightarrow> one_value (b_slot node)))"

text \<open>Iteration calls back with each key and value; \<^term>\<open>u\<close> is the callback's own state.\<close>

fun iter_bucket :: "bool \<Rightarrow> (byte list \<Rightarrow> addr \<Rightarrow> 'u \<Rightarrow> 'u) \<Rightarrow> bnode list \<Rightarrow> 'u \<Rightarrow> 'u res" where
  "iter_bucket multi f [] u = Inr u"
| "iter_bucket multi f (n # ns) u =
     (if \<not> multi then
        bindE (one_value (b_slot n)) (\<lambda>v. iter_bucket multi f ns (f (b_key n) v u))
      else
        bindE (many_values (b_slot n)) (\<lambda>vs. iter_bucket multi f ns (fold (f (b_key n)) vs u)))"

fun iter_buckets :: "bool \<Rightarrow> (byte list \<Rightarrow> addr \<Rightarrow> 'u \<Rightarrow> 'u) \<Rightarrow> bnode list list \<Rightarrow> 'u \<Rightarrow> 'u res" where
  "iter_buckets multi f [] u = Inr u"
| "iter_buckets multi f (b # bs) u = bindE (iter_bucket multi f b u) (iter_buckets multi f bs)"

definition cctable_iter :: "cctable \<Rightarrow> (byte list \<Rightarrow> addr \<Rightarrow> 'u \<Rightarrow> 'u) \<Rightarrow> 'u \<Rightarrow> 'u res" where
  "cctable_iter t callback u =
     bindE (all_buckets t) (\<lambda>bs. iter_buckets (t_allow_multiple t) callback bs u)"

text \<open>
  De-initialisation clears every bucket with the node destructor of the table's mode, which
  passes the node's value or values to the caller's destructor.
\<close>

definition node_destructor_single :: "(addr \<Rightarrow> 'u \<Rightarrow> 'u) option \<Rightarrow> bnode \<Rightarrow> 'u \<Rightarrow> 'u res" where
  "node_destructor_single des n u =
     bindE (one_value (b_slot n)) (\<lambda>v. Inr (case des of None \<Rightarrow> u | Some d \<Rightarrow> d v u))"

definition node_destructor_many :: "(addr \<Rightarrow> 'u \<Rightarrow> 'u) option \<Rightarrow> bnode \<Rightarrow> 'u \<Rightarrow> 'u res" where
  "node_destructor_many des n u =
     bindE (many_values (b_slot n)) (\<lambda>vs. Inr (case des of None \<Rightarrow> u | Some d \<Rightarrow> fold d vs u))"

fun clear_nodes :: "(bnode \<Rightarrow> 'u \<Rightarrow> 'u res) \<Rightarrow> bnode list \<Rightarrow> 'u \<Rightarrow> 'u res" where
  "clear_nodes des [] u = Inr u"
| "clear_nodes des (n # ns) u = bindE (des n u) (clear_nodes des ns)"

definition cctable_deinit :: "cctable \<Rightarrow> (addr \<Rightarrow> 'u \<Rightarrow> 'u) option \<Rightarrow> 'u \<Rightarrow> (cctable \<times> 'u) res" where
  "cctable_deinit t des u =
     (let node_destructor =
        (if t_allow_multiple t then node_destructor_many des else node_destructor_single des) in
      bindE (all_buckets t) (\<lambda>bs.
      bindE (clear_nodes node_destructor (concat bs) u) (\<lambda>u.
      Inr (t\<lparr>t_capacity := 0, t_size := 0, t_buckets := []\<rparr>, u))))"

end
