(* ===== verification/CC_TableProps.thy ===== *)
theory CC_TableProps
  imports CC_Table
begin

text \<open>
  The hash table as a map from keys to the values stored under them: the invariant of the bucket
  array, what the operations do to the map, and the properties of the table.
\<close>

section \<open>Rounding the capacity to a power of two\<close>

text \<open>
  After the shifts by 1, 2, 4, 8 and 16 a bit is set iff one of the 32 bits from it upwards was.
\<close>

lemma smear_step:
  assumes "\<And>n. bit x n \<longleftrightarrow> (\<exists>e<d. bit w (n + e))"
  shows "bit (x OR drop_bit d x) n \<longleftrightarrow> (\<exists>e<2 * d. bit (w :: size_t) (n + e))"
proof -
  have "(\<exists>e<2 * d. bit w (n + e)) \<longleftrightarrow> (\<exists>e<d. bit w (n + e)) \<or> (\<exists>e<d. bit w (n + d + e))"
  proof
    assume "\<exists>e<2 * d. bit w (n + e)"
    then obtain e where "e < 2 * d" "bit w (n + e)" by blast
    then show "(\<exists>e<d. bit w (n + e)) \<or> (\<exists>e<d. bit w (n + d + e))"
      by (cases "e < d") (auto intro: exI [of _ "e - d"])
  next
    assume "(\<exists>e<d. bit w (n + e)) \<or> (\<exists>e<d. bit w (n + d + e))"
    then show "\<exists>e<2 * d. bit w (n + e)"
    proof
      assume "\<exists>e<d. bit w (n + e)"
      then obtain e where "e < d" "bit w (n + e)" by blast
      then show ?thesis by (intro exI [of _ e]) auto
    next
      assume "\<exists>e<d. bit w (n + d + e)"
      then obtain e where "e < d" "bit w (n + d + e)" by blast
      then show ?thesis by (intro exI [of _ "d + e"]) (auto simp: add.assoc)
    qed
  qed
  then show ?thesis
    using assms [of n] assms [of "n + d"] by (simp add: bit_or_iff bit_drop_bit_eq add.commute)
qed

definition smear :: "size_t \<Rightarrow> size_t" where
  "smear v =
     (let v = v OR drop_bit 1 v; v = v OR drop_bit 2 v; v = v OR drop_bit 4 v;
          v = v OR drop_bit 8 v; v = v OR drop_bit 16 v
      in v)"

lemma bit_smear: "bit (smear w) n \<longleftrightarrow> (\<exists>e<32. bit w (n + e))"
proof -
  have 1: "bit w n \<longleftrightarrow> (\<exists>e<1. bit w (n + e))" for n by simp
  note 2 = smear_step [OF 1, simplified]
  note 4 = smear_step [OF 2, simplified]
  note 8 = smear_step [OF 4, simplified]
  note 16 = smear_step [OF 8, simplified]
  show ?thesis
    using smear_step [OF 16, simplified] by (simp add: smear_def Let_def)
qed

lemma next_power_of_2_smear: "next_power_of_2 v = smear (v - 1) + 1"
  by (simp add: next_power_of_2_def smear_def Let_def)

lemma bit_top:
  assumes "2 ^ k \<le> unat w" "unat (w :: size_t) < 2 ^ Suc k"
  shows "bit w k" "n > k \<Longrightarrow> \<not> bit w n"
proof -
  have "unat w div 2 ^ k = 1"
    using assms by (intro div_nat_eqI) auto
  then have "bit (unat w) k"
    by (simp add: bit_iff_odd)
  then show "bit w k"
    by (simp add: bit_unsigned_iff)
  assume "n > k"
  then have "(2 :: nat) ^ Suc k \<le> 2 ^ n"
    by (intro power_increasing) auto
  then have "unat w div 2 ^ n = 0"
    using assms by simp
  then have "\<not> bit (unat w) n"
    by (simp add: bit_iff_odd)
  moreover have "bit (unat w) n" if "bit w n"
    using that by (simp add: bit_unsigned_iff bit_imp_le_length)
  ultimately show "\<not> bit w n" by blast
qed

lemma smear_mask:
  assumes "2 ^ k \<le> unat w" "unat (w :: size_t) < 2 ^ Suc k" "k < 32"
  shows "smear w = mask (Suc k)"
proof (rule bit_word_eqI)
  fix n assume n: "n < LENGTH(64)"
  show "bit (smear w) n \<longleftrightarrow> bit (mask (Suc k) :: size_t) n"
  proof (cases "n \<le> k")
    case True
    with assms(3) bit_top(1) [OF assms(1,2)] have "\<exists>e<32. bit w (n + e)"
      by (intro exI [of _ "k - n"]) auto
    with True n show ?thesis by (simp add: bit_smear bit_mask_iff)
  next
    case False
    with bit_top(2) [OF assms(1,2)] show ?thesis
      by (simp add: bit_smear bit_mask_iff)
  qed
qed

lemma next_power_of_2_small:
  assumes "1 < unat v" "unat v \<le> 2 ^ 32"
  shows "\<exists>k. unat (next_power_of_2 v) = 2 ^ k \<and> unat v \<le> 2 ^ k \<and> 2 ^ k < 2 * unat v"
proof -
  have w: "unat (v - 1) = unat v - 1"
    using assms(1) by (intro unat_minus_one) auto
  have "1 \<le> unat (v - 1)"
    using assms(1) w by linarith
  then obtain k where k: "2 ^ k \<le> unat (v - 1)" "unat (v - 1) < 2 ^ Suc k"
    using ex_power_ivl1 [of 2 "unat (v - 1)"] by auto
  have "(2 :: nat) ^ k < 2 ^ 32"
    using k(1) assms(2) w by simp
  then have k32: "k < 32"
    by (rule power_less_imp_less_exp [rotated]) simp
  have "next_power_of_2 v = 2 ^ Suc k"
    by (simp add: next_power_of_2_smear smear_mask [OF k k32] mask_eq_exp_minus_1)
  then have "next_power_of_2 v = of_nat (2 ^ Suc k)"
    by simp
  moreover have "(2 :: nat) ^ Suc k < 2 ^ 64"
    using k32 by (intro power_strict_increasing) auto
  ultimately have "unat (next_power_of_2 v) = 2 ^ Suc k"
    using unat_of_nat_small(1) by metis
  then show ?thesis
    using k w by (intro exI [of _ "Suc k"]) auto
qed

section \<open>The table as a map\<close>

fun slot_values :: "slot \<Rightarrow> addr list" where
  "slot_values (One_value v) = [v]"
| "slot_values (Many_values vs) = vs"

definition wf_slot :: "bool \<Rightarrow> slot \<Rightarrow> bool" where
  "wf_slot multi s = (case s of One_value v \<Rightarrow> \<not> multi | Many_values vs \<Rightarrow> multi \<and> vs \<noteq> [])"

definition bucket_entries :: "bnode list \<Rightarrow> (byte list \<times> addr) list" where
  "bucket_entries b = concat (map (\<lambda>n. map (Pair (b_key n)) (slot_values (b_slot n))) b)"

definition entries :: "cctable \<Rightarrow> (byte list \<times> addr) list" where
  "entries t = bucket_entries (concat (t_buckets t))"

text \<open>The values stored under a key, in the order the table would list them.\<close>

definition values_of :: "(byte list \<times> addr) list \<Rightarrow> byte list \<Rightarrow> addr list" where
  "values_of es key = map snd (filter (\<lambda>e. fst e = key) es)"

definition wf_bucket :: "cctable \<Rightarrow> nat \<Rightarrow> bnode list \<Rightarrow> bool" where
  "wf_bucket t i b \<longleftrightarrow> distinct (map b_key b) \<and>
     (\<forall>n \<in> set b. unat (bucket_idx t (b_key n)) = i \<and> wf_slot (t_allow_multiple t) (b_slot n))"

definition wf_table :: "cctable \<Rightarrow> bool" where
  "wf_table t \<longleftrightarrow> t_capacity t \<noteq> 0 \<and> length (t_buckets t) = unat (t_capacity t) \<and>
     (\<forall>i < length (t_buckets t). wf_bucket t i (t_buckets t ! i)) \<and>
     t_size t = of_nat (length (entries t))"

lemma values_of_simps [simp]:
  "values_of [] key = []"
  "values_of (es @ es') key = values_of es key @ values_of es' key"
  "values_of (map (Pair k) vs) key = (if k = key then vs else [])"
  "values_of ((k, v) # es) key = (if k = key then v # values_of es key else values_of es key)"
  by (auto simp: values_of_def comp_def)

lemma bucket_entries_simps [simp]:
  "bucket_entries [] = []"
  "bucket_entries (n # b) = map (Pair (b_key n)) (slot_values (b_slot n)) @ bucket_entries b"
  "bucket_entries (b @ b') = bucket_entries b @ bucket_entries b'"
  by (simp_all add: bucket_entries_def)

lemma values_of_bucket_none: "key \<notin> b_key ` set b \<Longrightarrow> values_of (bucket_entries b) key = []"
  by (induction b) auto

lemma values_of_bucket_node:
  "distinct (map b_key (us @ n # vs)) \<Longrightarrow> b_key n = key \<Longrightarrow>
   values_of (bucket_entries (us @ n # vs)) key = slot_values (b_slot n)"
  by (auto simp: values_of_bucket_none)

text \<open>The bucket a key hashes to exists, whatever the capacity, so long as it is not 0.\<close>

lemma bucket_idx_bound:
  assumes "wf_table t"
  shows "unat (bucket_idx t key) < length (t_buckets t)"
proof -
  have "bucket_idx t key \<le> t_capacity t - 1"
    by (simp add: bucket_idx_def word_and_le1)
  then have "unat (bucket_idx t key) \<le> unat (t_capacity t) - 1"
    using assms by (simp add: word_le_nat_alt unat_minus_one wf_table_def)
  moreover have "0 < unat (t_capacity t)"
    using assms by (simp add: wf_table_def unat_gt_0)
  ultimately show ?thesis
    using assms by (simp add: wf_table_def)
qed

lemma get_bucket_wf:
  assumes "wf_table t"
  shows "get_bucket t (bucket_idx t key) = Inr (t_buckets t ! unat (bucket_idx t key))"
    and "wf_bucket t (unat (bucket_idx t key)) (t_buckets t ! unat (bucket_idx t key))"
  using bucket_idx_bound [OF assms] assms by (simp_all add: get_bucket_def wf_table_def)

lemma find_node_None: "find_node key b = None \<longleftrightarrow> key \<notin> b_key ` set b"
  by (induction b) auto

lemma find_node_Some:
  "find_node key b = Some (us, n, vs) \<Longrightarrow> b = us @ n # vs \<and> b_key n = key"
  by (induction b arbitrary: us) (auto split: if_splits)

text \<open>Only that bucket has entries under the key.\<close>

lemma values_of_other_bucket:
  assumes "wf_bucket t i b" "i \<noteq> unat (bucket_idx t key)"
  shows "values_of (bucket_entries b) key = []"
  by (rule values_of_bucket_none) (use assms in \<open>auto simp: wf_bucket_def\<close>)

lemma values_of_concat:
  "values_of (bucket_entries (concat bs)) key = concat (map (\<lambda>b. values_of (bucket_entries b) key) bs)"
  by (induction bs) simp_all

lemma concat_singleton_at:
  "i < length xs \<Longrightarrow> (\<And>j. j < length xs \<Longrightarrow> j \<noteq> i \<Longrightarrow> xs ! j = []) \<Longrightarrow> concat xs = xs ! i"
proof (induction xs arbitrary: i)
  case (Cons x xs)
  show ?case
  proof (cases i)
    case 0
    have "concat xs = []"
      using Cons.prems(2) [of "Suc _"] 0 by (auto simp: in_set_conv_nth)
    with 0 show ?thesis by simp
  next
    case (Suc j)
    have "concat xs = xs ! j"
      by (rule Cons.IH) (use Suc Cons.prems(1) Cons.prems(2) [of "Suc _"] in auto)
    with Suc Cons.prems(2) [of 0] show ?thesis by simp
  qed
qed simp

lemma values_of_table:
  assumes "wf_table t"
  shows "values_of (entries t) key = values_of (bucket_entries (t_buckets t ! unat (bucket_idx t key))) key"
proof -
  have "concat (map (\<lambda>b. values_of (bucket_entries b) key) (t_buckets t)) =
      map (\<lambda>b. values_of (bucket_entries b) key) (t_buckets t) ! unat (bucket_idx t key)"
    by (rule concat_singleton_at)
      (use assms bucket_idx_bound [OF assms] in \<open>auto simp: wf_table_def intro: values_of_other_bucket\<close>)
  then show ?thesis
    using bucket_idx_bound [OF assms] by (simp add: entries_def values_of_concat)
qed

lemma values_of_found:
  assumes "wf_table t" "find_node key (t_buckets t ! unat (bucket_idx t key)) = Some (us, n, vs)"
  shows "values_of (entries t) key = slot_values (b_slot n)"
    and "wf_slot (t_allow_multiple t) (b_slot n)"
    and "t_buckets t ! unat (bucket_idx t key) = us @ n # vs" "b_key n = key"
proof -
  show b: "t_buckets t ! unat (bucket_idx t key) = us @ n # vs" "b_key n = key"
    using find_node_Some [OF assms(2)] by auto
  show "wf_slot (t_allow_multiple t) (b_slot n)"
    using get_bucket_wf(2) [OF assms(1), of key] by (simp add: b wf_bucket_def)
  have "distinct (map b_key (us @ n # vs))"
    using get_bucket_wf(2) [OF assms(1), of key] by (simp add: b wf_bucket_def)
  then show "values_of (entries t) key = slot_values (b_slot n)"
    using values_of_table [OF assms(1), of key] values_of_bucket_node [of us n vs key] b by simp
qed

lemma values_of_missing:
  assumes "wf_table t" "find_node key (t_buckets t ! unat (bucket_idx t key)) = None"
  shows "values_of (entries t) key = []"
  using values_of_table [OF assms(1), of key] values_of_bucket_none [of key] assms(2)
  by (simp add: find_node_None)

section \<open>What the operations do to the map\<close>

lemma bucket_idx_cong: "t_capacity t' = t_capacity t \<Longrightarrow> bucket_idx t' = bucket_idx t"
  by (simp add: bucket_idx_def fun_eq_iff)

lemma length_entries_update:
  assumes "i < length bs" "length (bucket_entries b') = Suc (length (bucket_entries (bs ! i)))"
  shows "length (bucket_entries (concat (bs[i := b']))) = Suc (length (bucket_entries (concat bs)))"
proof -
  have "bs = take i bs @ bs ! i # drop (Suc i) bs"
    using assms(1) by (rule id_take_nth_drop)
  then have "length (bucket_entries (concat bs)) =
      length (bucket_entries (concat (take i bs @ bs ! i # drop (Suc i) bs)))"
    by simp
  with assms show ?thesis
    by (simp add: upd_conv_take_nth_drop)
qed

text \<open>Storing one more value in the bucket a key hashes to.\<close>

lemma store_in_bucket:
  fixes t t' :: cctable and key :: "byte list"
  defines "i \<equiv> unat (bucket_idx t key)"
  assumes wf: "wf_table t" and b: "wf_bucket t i b"
    and len: "length (bucket_entries b) = Suc (length (bucket_entries (t_buckets t ! i)))"
    and t': "t' = (set_bucket t (bucket_idx t key) b)\<lparr>t_size := t_size t + 1\<rparr>"
  shows "wf_table t'"
    and "t_allow_multiple t' = t_allow_multiple t"
    and "values_of (entries t') k =
      (if unat (bucket_idx t k) = i then values_of (bucket_entries b) k else values_of (entries t) k)"
proof -
  have i: "i < length (t_buckets t)"
    using bucket_idx_bound [OF wf] by (simp add: i_def)
  have buckets: "t_buckets t' = (t_buckets t)[i := b]" and cap: "t_capacity t' = t_capacity t"
    and multi: "t_allow_multiple t' = t_allow_multiple t" and size: "t_size t' = t_size t + 1"
    by (simp_all add: t' set_bucket_def i_def)
  note idx = bucket_idx_cong [OF cap]
  have wfb: "wf_bucket t' j = wf_bucket t j" for j
    by (simp add: wf_bucket_def fun_eq_iff idx multi)
  show wf': "wf_table t'"
    unfolding wf_table_def
  proof (intro conjI allI impI)
    show "t_capacity t' \<noteq> 0" "length (t_buckets t') = unat (t_capacity t')"
      using wf by (simp_all add: buckets cap wf_table_def)
    show "wf_bucket t' j (t_buckets t' ! j)" if "j < length (t_buckets t')" for j
      using that wf b by (cases "j = i") (auto simp: wfb buckets wf_table_def nth_list_update)
    show "t_size t' = of_nat (length (entries t'))"
      using length_entries_update [OF i len] wf by (simp add: size buckets entries_def wf_table_def)
  qed
  show "t_allow_multiple t' = t_allow_multiple t"
    by (rule multi)
  show "values_of (entries t') k =
      (if unat (bucket_idx t k) = i then values_of (bucket_entries b) k else values_of (entries t) k)"
    using values_of_table [OF wf', of k] values_of_table [OF wf, of k] i
    by (simp add: buckets idx nth_list_update)
qed

lemma same_bucket_new_node:
  assumes "find_node key b = None"
  shows "values_of (bucket_entries (\<lparr>b_key = key, b_slot = s\<rparr> # b)) k =
    (if k = key then slot_values s else values_of (bucket_entries b) k)"
  using assms values_of_bucket_none [of key b] by (auto simp: find_node_None)

lemma wf_bucket_new_node:
  assumes "wf_bucket t (unat (bucket_idx t key)) b" "find_node key b = None" "wf_slot (t_allow_multiple t) s"
  shows "wf_bucket t (unat (bucket_idx t key)) (\<lparr>b_key = key, b_slot = s\<rparr> # b)"
  using assms by (auto simp: wf_bucket_def find_node_None)

lemma insert_single_wf:
  assumes wf: "wf_table t" and single: "\<not> t_allow_multiple t"
  shows "\<exists>t'. cctable_insert_single t key v = Inr t' \<and> wf_table t' \<and> \<not> t_allow_multiple t' \<and>
    values_of (entries t') =
      (values_of (entries t))(key := (case values_of (entries t) key of [] \<Rightarrow> [v] | w # ws \<Rightarrow> w # ws))"
proof (cases "find_node key (t_buckets t ! unat (bucket_idx t key))")
  case None
  let ?b = "\<lparr>b_key = key, b_slot = One_value v\<rparr> # t_buckets t ! unat (bucket_idx t key)"
  let ?t = "(set_bucket t (bucket_idx t key) ?b)\<lparr>t_size := t_size t + 1\<rparr>"
  have "wf_bucket t (unat (bucket_idx t key)) ?b"
    by (rule wf_bucket_new_node [OF get_bucket_wf(2) [OF wf] None]) (simp add: wf_slot_def single)
  note st = store_in_bucket [OF wf this _ refl, simplified]
  have "cctable_insert_single t key v = Inr ?t"
    by (simp add: cctable_insert_single_def get_bucket_wf(1) [OF wf] None Let_def)
  moreover have "values_of (entries ?t) = (values_of (entries t))(key := [v])"
    using st(3) same_bucket_new_node [OF None] values_of_table [OF wf]
    by (auto simp: fun_eq_iff simp del: bucket_entries_simps)
  ultimately show ?thesis
    using st(1,2) single values_of_missing [OF wf None] by simp
next
  case (Some found)
  then obtain us n vs where f: "find_node key (t_buckets t ! unat (bucket_idx t key)) = Some (us, n, vs)"
    by (cases found) auto
  have "values_of (entries t) key \<noteq> []"
    using values_of_found(1,2) [OF wf f] by (cases "b_slot n") (auto simp: wf_slot_def)
  then show ?thesis
    using wf single by (auto simp: cctable_insert_single_def get_bucket_wf(1) f split: list.splits)
qed

lemma insert_many_wf:
  assumes wf: "wf_table t" and multi: "t_allow_multiple t"
  shows "\<exists>t'. cctable_insert_many t key v = Inr t' \<and> wf_table t' \<and> t_allow_multiple t' \<and>
    values_of (entries t') = (values_of (entries t))(key := v # values_of (entries t) key)"
proof (cases "find_node key (t_buckets t ! unat (bucket_idx t key))")
  case None
  let ?b = "\<lparr>b_key = key, b_slot = Many_values [v]\<rparr> # t_buckets t ! unat (bucket_idx t key)"
  let ?t = "(set_bucket t (bucket_idx t key) ?b)\<lparr>t_size := t_size t + 1\<rparr>"
  have "wf_bucket t (unat (bucket_idx t key)) ?b"
    by (rule wf_bucket_new_node [OF get_bucket_wf(2) [OF wf] None]) (simp add: wf_slot_def multi)
  note st = store_in_bucket [OF wf this _ refl, simplified]
  have "cctable_insert_many t key v = Inr ?t"
    by (simp add: cctable_insert_many_def get_bucket_wf(1) [OF wf] None Let_def)
  moreover have "values_of (entries ?t) = (values_of (entries t))(key := [v])"
    using st(3) same_bucket_new_node [OF None] values_of_table [OF wf]
    by (auto simp: fun_eq_iff simp del: bucket_entries_simps)
  ultimately show ?thesis
    using st(1,2) multi values_of_missing [OF wf None] by simp
next
  case (Some found)
  then obtain us n vs where f: "find_node key (t_buckets t ! unat (bucket_idx t key)) = Some (us, n, vs)"
    by (cases found) auto
  note found = values_of_found [OF wf f]
  obtain ws where ws: "b_slot n = Many_values ws"
    using found(2) multi by (cases "b_slot n") (auto simp: wf_slot_def)
  let ?b = "us @ n\<lparr>b_slot := Many_values (v # ws)\<rparr> # vs"
  let ?t = "(set_bucket t (bucket_idx t key) ?b)\<lparr>t_size := t_size t + 1\<rparr>"
  have old: "wf_bucket t (unat (bucket_idx t key)) (us @ n # vs)"
    using get_bucket_wf(2) [OF wf, of key] by (simp add: found(3))
  then have "wf_bucket t (unat (bucket_idx t key)) ?b"
    by (auto simp: wf_bucket_def wf_slot_def multi)
  note st = store_in_bucket [OF wf this _ refl, unfolded found(3), simplified, unfolded ws, simplified]
  have "cctable_insert_many t key v = Inr ?t"
    by (simp add: cctable_insert_many_def get_bucket_wf(1) [OF wf] f ws Let_def)
  moreover have "values_of (bucket_entries ?b) k =
      (if k = key then v # ws else values_of (bucket_entries (us @ n # vs)) k)" for k
    using old found(4) by (auto simp: wf_bucket_def values_of_bucket_none ws)
  then have "values_of (entries ?t) = (values_of (entries t))(key := v # ws)"
    using st(3) values_of_table [OF wf] found(3)
    by (auto simp: fun_eq_iff simp del: bucket_entries_simps)
  ultimately show ?thesis
    using st(1,2) multi found(1) ws by simp
qed

section \<open>A store of values under keys\<close>

text \<open>
  The contract both modes of the table share: inserting a value under a key combines it with the
  values already there (\<^term>\<open>upd\<close>) and leaves the other keys alone.  A run of insertions then
  folds the values of each key.
\<close>

fun insert_all :: "('s \<Rightarrow> 'k \<Rightarrow> 'v \<Rightarrow> 's res) \<Rightarrow> ('k \<times> 'v) list \<Rightarrow> 's \<Rightarrow> 's res" where
  "insert_all ins [] s = Inr s"
| "insert_all ins ((k, v) # kvs) s = bindE (ins s k v) (insert_all ins kvs)"

locale keyed_store =
  fixes wf :: "'s \<Rightarrow> bool"
    and vals :: "'s \<Rightarrow> 'k \<Rightarrow> 'v list"
    and ins :: "'s \<Rightarrow> 'k \<Rightarrow> 'v \<Rightarrow> 's res"
    and upd :: "'v \<Rightarrow> 'v list \<Rightarrow> 'v list"
  assumes ins_ok: "wf s \<Longrightarrow> \<exists>s'. ins s k v = Inr s' \<and> wf s' \<and> vals s' = (vals s)(k := upd v (vals s k))"
begin

lemma insert_all_ok:
  "wf s \<Longrightarrow> \<exists>s'. insert_all ins kvs s = Inr s' \<and> wf s' \<and>
    (\<forall>k. vals s' k = fold upd (map snd (filter (\<lambda>e. fst e = k) kvs)) (vals s k))"
proof (induction kvs arbitrary: s)
  case (Cons kv kvs)
  obtain k v where kv: "kv = (k, v)" by (cases kv)
  obtain s1 where "ins s k v = Inr s1" "wf s1" "vals s1 = (vals s)(k := upd v (vals s k))"
    using ins_ok [OF Cons.prems] by blast
  with Cons.IH [of s1] show ?case
    by (auto simp: kv)
qed simp

end

definition keep_first :: "addr \<Rightarrow> addr list \<Rightarrow> addr list" where
  "keep_first v vs = (case vs of [] \<Rightarrow> [v] | w # ws \<Rightarrow> w # ws)"

interpretation single: keyed_store
  "\<lambda>t. wf_table t \<and> \<not> t_allow_multiple t" "\<lambda>t. values_of (entries t)" cctable_insert keep_first
proof
  fix s k v assume "wf_table s \<and> \<not> t_allow_multiple s"
  then show "\<exists>s'. cctable_insert s k v = Inr s' \<and> (wf_table s' \<and> \<not> t_allow_multiple s') \<and>
      values_of (entries s') = (values_of (entries s))(k := keep_first v (values_of (entries s) k))"
    using insert_single_wf [of s k v] by (simp add: cctable_insert_def keep_first_def)
qed

interpretation multi: keyed_store
  "\<lambda>t. wf_table t \<and> t_allow_multiple t" "\<lambda>t. values_of (entries t)" cctable_insert "(#)"
proof
  fix s k v assume "wf_table s \<and> t_allow_multiple s"
  then show "\<exists>s'. cctable_insert s k v = Inr s' \<and> (wf_table s' \<and> t_allow_multiple s') \<and>
      values_of (entries s') = (values_of (entries s))(k := v # values_of (entries s) k)"
    using insert_many_wf [of s k v] by (simp add: cctable_insert_def)
qed

lemma fold_keep_first: "fold keep_first vs [] = take 1 vs"
proof -
  have "fold keep_first vs [w] = [w]" for w
    by (induction vs) (auto simp: keep_first_def)
  then show ?thesis
    by (cases vs) (simp_all add: keep_first_def)
qed

lemma fold_cons: "fold (#) vs ws = rev vs @ ws"
  by (induction vs arbitrary: ws) auto

section \<open>Lookup, iteration and destruction\<close>

lemma get_many_values:
  assumes "wf_table t" "t_allow_multiple t"
  shows "cctable_get_many bd t key =
    Inr (if values_of (entries t) key = [] then None else Some (values_of (entries t) key))"
proof (cases "find_node key (t_buckets t ! unat (bucket_idx t key))")
  case None
  then show ?thesis
    using values_of_missing [OF assms(1) None] assms
    by (simp add: cctable_get_many_def get_bucket_wf(1))
next
  case (Some found)
  then obtain us n vs where f: "find_node key (t_buckets t ! unat (bucket_idx t key)) = Some (us, n, vs)"
    by (cases found) auto
  then show ?thesis
    using values_of_found(1,2) [OF assms(1) f] assms
    by (cases "b_slot n") (auto simp: cctable_get_many_def get_bucket_wf(1) wf_slot_def)
qed

lemma get_one_value:
  assumes "wf_table t" "\<not> t_allow_multiple t"
  shows "cctable_get_one bd t key = Inr (case values_of (entries t) key of [] \<Rightarrow> NULL | v # _ \<Rightarrow> v)"
proof (cases "find_node key (t_buckets t ! unat (bucket_idx t key))")
  case None
  then show ?thesis
    using values_of_missing [OF assms(1) None] assms
    by (simp add: cctable_get_one_def get_bucket_wf(1))
next
  case (Some found)
  then obtain us n vs where f: "find_node key (t_buckets t ! unat (bucket_idx t key)) = Some (us, n, vs)"
    by (cases found) auto
  then show ?thesis
    using values_of_found(1,2) [OF assms(1) f] assms
    by (cases "b_slot n") (auto simp: cctable_get_one_def get_bucket_wf(1) wf_slot_def)
qed

lemma wf_table_all_buckets: "wf_table t \<Longrightarrow> all_buckets t = Inr (t_buckets t)"
  by (simp add: all_buckets_def wf_table_def)

lemma wf_table_slots:
  assumes "wf_table t"
  shows "\<forall>b \<in> set (t_buckets t). \<forall>n \<in> set b. wf_slot (t_allow_multiple t) (b_slot n)"
proof (intro ballI)
  fix b n assume "b \<in> set (t_buckets t)" and n: "n \<in> set b"
  then obtain i where "i < length (t_buckets t)" "b = t_buckets t ! i"
    by (auto simp: in_set_conv_nth)
  then have "wf_bucket t i b"
    using assms by (simp add: wf_table_def)
  with n show "wf_slot (t_allow_multiple t) (b_slot n)"
    by (simp add: wf_bucket_def)
qed

lemma iter_bucket_fold:
  "\<forall>n \<in> set b. wf_slot multi (b_slot n) \<Longrightarrow>
   iter_bucket multi f b u = Inr (fold (\<lambda>(k, v). f k v) (bucket_entries b) u)"
proof (induction b arbitrary: u)
  case (Cons n b)
  have "fold (\<lambda>(k, v). f k v) (map (Pair k) vs) u = fold (f k) vs u" for k vs
    by (simp add: fold_map comp_def)
  with Cons show ?case
    by (cases "b_slot n") (auto simp: wf_slot_def)
qed simp

lemma iter_buckets_fold:
  "\<forall>b \<in> set bs. \<forall>n \<in> set b. wf_slot multi (b_slot n) \<Longrightarrow>
   iter_buckets multi f bs u = Inr (fold (\<lambda>(k, v). f k v) (bucket_entries (concat bs)) u)"
  by (induction bs arbitrary: u) (simp_all add: iter_bucket_fold)

lemma iter_entries:
  "wf_table t \<Longrightarrow> cctable_iter t f u = Inr (fold (\<lambda>(k, v). f k v) (entries t) u)"
  by (simp add: cctable_iter_def wf_table_all_buckets iter_buckets_fold [OF wf_table_slots] entries_def)

lemma clear_nodes_fold:
  assumes "\<forall>n \<in> set b. wf_slot multi (b_slot n)"
  shows "clear_nodes (if multi then node_destructor_many des else node_destructor_single des) b u =
    Inr (case des of None \<Rightarrow> u | Some d \<Rightarrow> fold d (map snd (bucket_entries b)) u)"
  using assms
proof (induction b arbitrary: u)
  case Nil
  then show ?case by (simp split: option.split)
next
  case (Cons n b)
  then show ?case
    by (cases "b_slot n"; cases des)
      (auto simp: wf_slot_def node_destructor_many_def node_destructor_single_def comp_def)
qed

lemma deinit_entries:
  assumes "wf_table t"
  shows "cctable_deinit t des u =
    Inr (t\<lparr>t_capacity := 0, t_size := 0, t_buckets := []\<rparr>,
         case des of None \<Rightarrow> u | Some d \<Rightarrow> fold d (map snd (entries t)) u)"
proof -
  have "\<forall>n \<in> set (concat (t_buckets t)). wf_slot (t_allow_multiple t) (b_slot n)"
    using wf_table_slots [OF assms] by auto
  then show ?thesis
    using clear_nodes_fold [of "concat (t_buckets t)" "t_allow_multiple t" des u]
    unfolding entries_def by (simp add: cctable_deinit_def wf_table_all_buckets [OF assms] Let_def)
qed

text \<open>A fresh table is empty; its capacity is 0 only when it was asked to hold nothing.\<close>

lemma init_wf:
  assumes "1 \<le> unat n" "unat n \<le> 2 ^ 32"
  shows "\<exists>t. cctable_init n multi = Inr t \<and> wf_table t \<and> t_allow_multiple t = multi \<and>
    values_of (entries t) = (\<lambda>_. [])"
proof -
  obtain k where k: "unat (next_power_of_2 n) = 2 ^ k" "k \<le> 32"
  proof (cases "unat n = 1")
    case True
    then have "n = 1"
      by (metis unat_1 unsigned_word_eqI)
    then have "unat (next_power_of_2 n) = 2 ^ 0"
      by (simp add: next_power_of_2_def)
    then show thesis by (rule that) simp
  next
    case False
    then obtain k where k: "unat (next_power_of_2 n) = 2 ^ k" "2 ^ k < 2 * unat n"
      using next_power_of_2_small [of n] assms by auto
    then have "(2 :: nat) ^ k < 2 ^ 33"
      using assms(2) by simp
    then have "k < 33"
      by (rule power_less_imp_less_exp [rotated]) simp
    with k show thesis by (intro that [of k]) auto
  qed
  have "(2 :: nat) ^ k \<le> 2 ^ 32"
    using k(2) by (intro power_increasing) auto
  then have "unat (next_power_of_2 n * 32) = 2 ^ k * 32"
    by (simp add: unat_mult_lem [THEN iffD1] k(1))
  moreover have "next_power_of_2 n \<noteq> 0"
    using k(1) by (metis power_not_zero unat_0 zero_neq_numeral)
  moreover have "concat (replicate m []) = ([] :: bnode list)" for m
    by (induction m) auto
  ultimately show ?thesis
    by (simp add: cctable_init_def Let_def k(1) wf_table_def wf_bucket_def entries_def fun_eq_iff)
qed

section \<open>Entries as a multiset\<close>

lemma count_values_of: "count (mset es) (k, v) = count (mset (values_of es k)) v"
  by (induction es) (auto simp: values_of_def)

lemma entries_mset_eqI:
  assumes "\<And>k. mset (values_of es k) = mset (values_of es' k)"
  shows "mset es = mset es'"
  by (rule multiset_eqI) (use assms in \<open>auto simp: count_values_of\<close>)

lemma entries_set: "(k, v) \<in> set es \<longleftrightarrow> v \<in> set (values_of es k)"
  by (force simp: values_of_def)

lemma keys_distinct:
  assumes "\<And>k. length (values_of es k) \<le> 1"
  shows "distinct (map fst es)"
  using assms
proof (induction es)
  case (Cons e es)
  obtain k v where e: "e = (k, v)" by (cases e)
  have "values_of es k = []"
    using Cons.prems [of k] by (simp add: e)
  then have "k \<notin> fst ` set es"
    using entries_set [of k _ es] by auto
  moreover have "length (values_of es k') \<le> 1" for k'
    using Cons.prems [of k'] by (auto simp: e split: if_splits)
  ultimately show ?case
    using Cons.IH by (simp add: e)
qed simp

lemma map_of_values: "map_of kvs key = (case map snd (filter (\<lambda>e. fst e = key) kvs) of [] \<Rightarrow> None | v # _ \<Rightarrow> Some v)"
  by (induction kvs) auto

text \<open>A table filled from empty, in either mode.\<close>

lemma filled_single:
  assumes "1 \<le> unat n" "unat n \<le> 2 ^ 32"
  shows "\<exists>t0 t. cctable_init n False = Inr t0 \<and> insert_all cctable_insert kvs t0 = Inr t \<and>
    wf_table t \<and> \<not> t_allow_multiple t \<and>
    (\<forall>k. values_of (entries t) k = take 1 (map snd (filter (\<lambda>e. fst e = k) kvs)))"
proof -
  obtain t0 where t0: "cctable_init n False = Inr t0" "wf_table t0" "\<not> t_allow_multiple t0"
    "values_of (entries t0) = (\<lambda>_. [])"
    using init_wf [OF assms, of False] by auto
  then show ?thesis
    using single.insert_all_ok [of t0 kvs] by (auto simp: fold_keep_first)
qed

lemma filled_multi:
  assumes "1 \<le> unat n" "unat n \<le> 2 ^ 32"
  shows "\<exists>t0 t. cctable_init n True = Inr t0 \<and> insert_all cctable_insert kvs t0 = Inr t \<and>
    wf_table t \<and> t_allow_multiple t \<and>
    (\<forall>k. values_of (entries t) k = rev (map snd (filter (\<lambda>e. fst e = k) kvs)))"
proof -
  obtain t0 where t0: "cctable_init n True = Inr t0" "wf_table t0" "t_allow_multiple t0"
    "values_of (entries t0) = (\<lambda>_. [])"
    using init_wf [OF assms, of True] by auto
  then show ?thesis
    using multi.insert_all_ok [of t0 kvs] by (auto simp: fold_cons)
qed

section \<open>Properties\<close>

text \<open>
  The capacity of a table made for n items is the least power of two that is not below n, for
  every n from 1 to 2^32.
\<close>

theorem table_capacity:
  assumes "1 \<le> unat n" "unat n \<le> 2 ^ 32"
  shows "\<exists>k. unat (next_power_of_2 n) = 2 ^ k \<and> unat n \<le> 2 ^ k \<and> 2 ^ k < 2 * unat n"
proof (cases "unat n = 1")
  case True
  then have "n = 1"
    by (metis unat_1 unsigned_word_eqI)
  then show ?thesis
    by (intro exI [of _ 0]) (simp add: next_power_of_2_def)
next
  case False
  with assms show ?thesis
    by (intro next_power_of_2_small) auto
qed

theorem table_capacity_witness:
  "\<exists>k. unat (next_power_of_2 100) = 2 ^ k \<and> 100 \<le> (2 :: nat) ^ k \<and> 2 ^ k < (200 :: nat)"
  using table_capacity [of 100] by simp

text \<open>
  Outside that range the capacity is wrong.  A table made for no items has capacity 0, and a
  first insertion or lookup in it reads the bucket array at index \<^verbatim>\<open>hash & SIZE_MAX\<close>,
  outside its (empty) allocation.  Above 2^32 the rounding, which lacks the shift by 32, can give a
  number that is no power of two, so that masking with it does not reach every bucket.
\<close>

theorem table_capacity_limits:
  "\<exists>t. cctable_init 0 multi = Inr t \<and> t_capacity t = 0 \<and>
     cctable_insert t key v = Inl OutOfBounds \<and>
     (if multi then cctable_get_many bd t key = Inl OutOfBounds
      else cctable_get_one bd t key = Inl OutOfBounds) \<and>
     next_power_of_2 (2 ^ 40 + 1) = 2 ^ 41 - 511"
proof -
  have "next_power_of_2 0 = 0"
    by (simp add: next_power_of_2_def Let_def)
  moreover have "next_power_of_2 (2 ^ 40 + 1) = 2 ^ 41 - 511"
    by (simp add: next_power_of_2_def Let_def)
  ultimately show ?thesis
    by (simp add: cctable_init_def Let_def cctable_insert_def cctable_insert_single_def
        cctable_insert_many_def get_bucket_def cctable_get_many_def cctable_get_one_def)
qed

text \<open>
  C6: In a single-valued table a lookup answers the first value inserted under the key, later ones
  being ignored, and \<^const>\<open>NULL\<close> when there was none; no assertion fails and no access leaves
  the bucket array, in either build.
\<close>

theorem table_first_value_wins:
  assumes "1 \<le> unat n" "unat n \<le> 2 ^ 32"
  shows "\<exists>t0 t. cctable_init n False = Inr t0 \<and> insert_all cctable_insert kvs t0 = Inr t \<and>
    (\<forall>bd key. cctable_get_one bd t key = Inr (case map_of kvs key of None \<Rightarrow> NULL | Some v \<Rightarrow> v))"
proof -
  obtain t0 t where t: "cctable_init n False = Inr t0" "insert_all cctable_insert kvs t0 = Inr t"
    "wf_table t" "\<not> t_allow_multiple t"
    "\<forall>k. values_of (entries t) k = take 1 (map snd (filter (\<lambda>e. fst e = k) kvs))"
    using filled_single [OF assms, of kvs] by auto
  then have "cctable_get_one bd t key = Inr (case map_of kvs key of None \<Rightarrow> NULL | Some v \<Rightarrow> v)" for bd key
    by (auto simp: get_one_value map_of_values split: list.split)
  with t show ?thesis by blast
qed

theorem table_first_value_wins_witness:
  "\<exists>t0 t. cctable_init 3 False = Inr t0 \<and>
    insert_all cctable_insert [(bytes ''a'', 10), (bytes ''b'', 20), (bytes ''a'', 30)] t0 = Inr t \<and>
    cctable_get_one Debug t (bytes ''a'') = Inr 10 \<and> cctable_get_one Debug t (bytes ''b'') = Inr 20 \<and>
    cctable_get_one Debug t (bytes ''c'') = Inr NULL"
  using table_first_value_wins [of 3 "[(bytes ''a'', 10), (bytes ''b'', 20), (bytes ''a'', 30)]"]
  by (auto simp: bytes_def)

text \<open>
  C7: In a multi-valued table a lookup answers every value inserted under the key, the last one
  first, and no list when there was none.
\<close>

theorem table_keeps_all_values:
  assumes "1 \<le> unat n" "unat n \<le> 2 ^ 32"
  shows "\<exists>t0 t. cctable_init n True = Inr t0 \<and> insert_all cctable_insert kvs t0 = Inr t \<and>
    (\<forall>bd key. let vs = map snd (filter (\<lambda>e. fst e = key) kvs) in
       cctable_get_many bd t key = Inr (if vs = [] then None else Some (rev vs)))"
proof -
  obtain t0 t where t: "cctable_init n True = Inr t0" "insert_all cctable_insert kvs t0 = Inr t"
    "wf_table t" "t_allow_multiple t"
    "\<forall>k. values_of (entries t) k = rev (map snd (filter (\<lambda>e. fst e = k) kvs))"
    using filled_multi [OF assms, of kvs] by auto
  then show ?thesis
    by (auto simp: get_many_values Let_def)
qed

theorem table_keeps_all_values_witness:
  "\<exists>t0 t. cctable_init 3 True = Inr t0 \<and>
    insert_all cctable_insert [(bytes ''a'', 10), (bytes ''b'', 20), (bytes ''a'', 30)] t0 = Inr t \<and>
    cctable_get_many Debug t (bytes ''a'') = Inr (Some [30, 10]) \<and>
    cctable_get_many Debug t (bytes ''b'') = Inr (Some [20]) \<and>
    cctable_get_many Debug t (bytes ''c'') = Inr None"
  using table_keeps_all_values [of 3 "[(bytes ''a'', 10), (bytes ''b'', 20), (bytes ''a'', 30)]"]
  by (auto simp: bytes_def Let_def)

text \<open>
  C8: Inserting into a well-formed table, in either mode, keeps it well-formed (every key once, in
  the bucket it hashes to, nodes of the table's mode, size equal to the number of entries), changes
  the values of no other key, and touches nothing outside the bucket array.
\<close>

theorem table_invariant:
  assumes "wf_table t"
  shows "\<exists>t'. cctable_insert t key v = Inr t' \<and> wf_table t' \<and>
    t_capacity t' = t_capacity t \<and> t_allow_multiple t' = t_allow_multiple t \<and>
    values_of (entries t') = (values_of (entries t))
      (key := (if t_allow_multiple t then v # values_of (entries t) key
               else case values_of (entries t) key of [] \<Rightarrow> [v] | w # ws \<Rightarrow> w # ws))"
proof -
  have "t_capacity t' = t_capacity t" if "cctable_insert t key v = Inr t'" for t'
    using that by (auto simp: cctable_insert_def cctable_insert_single_def cctable_insert_many_def
        Let_def bindE_eq_Inr set_bucket_def split: if_splits option.splits)
  then show ?thesis
    using insert_single_wf [OF assms, of key v] insert_many_wf [OF assms, of key v]
    by (cases "t_allow_multiple t") (auto simp: cctable_insert_def)
qed

theorem table_invariant_witness:
  "\<exists>t t'. cctable_init 2 True = Inr t \<and> cctable_insert t (bytes ''a'') 7 = Inr t' \<and> wf_table t' \<and>
    values_of (entries t') (bytes ''a'') = [7]"
proof -
  obtain t where "cctable_init 2 True = Inr t" "wf_table t" "t_allow_multiple t"
    "values_of (entries t) = (\<lambda>_. [])"
    using init_wf [of 2 True] by auto
  then show ?thesis
    using table_invariant [of t "bytes ''a''" 7] by auto
qed

text \<open>
  Iteration calls back once for each stored pair: over a multi-valued table, exactly the
  inserted pairs, as a multiset; over a single-valued one, each key once, with its first value.
  The size the table records is the number of calls.
\<close>

theorem table_iteration:
  assumes "1 \<le> unat n" "unat n \<le> 2 ^ 32"
  shows "\<exists>t0 t visited. cctable_init n multi = Inr t0 \<and> insert_all cctable_insert kvs t0 = Inr t \<and>
    cctable_iter t (\<lambda>k v u. u @ [(k, v)]) [] = Inr visited \<and>
    t_size t = of_nat (length visited) \<and>
    (if multi then mset visited = mset kvs
     else distinct (map fst visited) \<and> set visited = {(k, v). map_of kvs k = Some v})"
proof -
  have visit: "fold (\<lambda>(k, v) u. u @ [(k, v)]) es acc = acc @ es" for es acc :: "(byte list \<times> addr) list"
    by (induction es arbitrary: acc) auto
  have iter: "cctable_iter t (\<lambda>k v u. u @ [(k, v)]) [] = Inr (entries t)" if "wf_table t" for t
    using iter_entries [OF that, of "\<lambda>k v u. u @ [(k, v)]" "[]"] visit [of "entries t" "[]"]
    by (simp add: case_prod_beta')
  show ?thesis
  proof (cases multi)
    case True
    obtain t0 t where t: "cctable_init n True = Inr t0" "insert_all cctable_insert kvs t0 = Inr t"
      "wf_table t" "\<forall>k. values_of (entries t) k = rev (map snd (filter (\<lambda>e. fst e = k) kvs))"
      using filled_multi [OF assms, of kvs] by auto
    have "mset (entries t) = mset kvs"
      by (rule entries_mset_eqI) (simp add: t(4), simp add: values_of_def)
    with t iter [OF t(3)] True show ?thesis by (auto simp: wf_table_def)
  next
    case False
    obtain t0 t where t: "cctable_init n False = Inr t0" "insert_all cctable_insert kvs t0 = Inr t"
      "wf_table t" "\<forall>k. values_of (entries t) k = take 1 (map snd (filter (\<lambda>e. fst e = k) kvs))"
      using filled_single [OF assms, of kvs] by auto
    have "distinct (map fst (entries t))"
      by (rule keys_distinct) (simp add: t(4))
    moreover have "set (entries t) = {(k, v). map_of kvs k = Some v}"
      by (auto simp: entries_set t(4) map_of_values split: list.splits)
    ultimately show ?thesis
      using t iter [OF t(3)] False by (auto simp: wf_table_def)
  qed
qed

theorem table_iteration_witness:
  "\<exists>t0 t visited. cctable_init 3 True = Inr t0 \<and>
    insert_all cctable_insert [(bytes ''a'', 10), (bytes ''b'', 20), (bytes ''a'', 30)] t0 = Inr t \<and>
    cctable_iter t (\<lambda>k v u. u @ [(k, v)]) [] = Inr visited \<and> t_size t = of_nat (length visited) \<and>
    mset visited = {# (bytes ''a'', 10), (bytes ''b'', 20), (bytes ''a'', 30) #}"
  using table_iteration [of 3 True "[(bytes ''a'', 10), (bytes ''b'', 20), (bytes ''a'', 30)]"] by auto

text \<open>
  De-initialising a filled multi-valued table hands every inserted value to the destructor
  exactly once, in either order of the buckets, and leaves a table of capacity and size 0 without a
  bucket; without a destructor the caller's data is left as it was.
\<close>

theorem table_deinit:
  assumes "1 \<le> unat n" "unat n \<le> 2 ^ 32"
  shows "\<exists>t0 t t' destroyed. cctable_init n True = Inr t0 \<and> insert_all cctable_insert kvs t0 = Inr t \<and>
    cctable_deinit t (Some (#)) [] = Inr (t', destroyed) \<and> mset destroyed = mset (map snd kvs) \<and>
    cctable_deinit t None u = Inr (t', u) \<and>
    t_capacity t' = 0 \<and> t_size t' = 0 \<and> t_buckets t' = []"
proof -
  obtain t0 t where t: "cctable_init n True = Inr t0" "insert_all cctable_insert kvs t0 = Inr t"
    "wf_table t" "\<forall>k. values_of (entries t) k = rev (map snd (filter (\<lambda>e. fst e = k) kvs))"
    using filled_multi [OF assms, of kvs] by auto
  have "mset (entries t) = mset kvs"
    by (rule entries_mset_eqI) (simp add: t(4), simp add: values_of_def)
  then have "mset (map snd (entries t)) = mset (map snd kvs)"
    by simp
  then show ?thesis
    using t(1,2) by (simp add: deinit_entries [OF t(3)] fold_cons)
qed

theorem table_deinit_witness:
  "\<exists>t0 t t' destroyed. cctable_init 3 True = Inr t0 \<and>
    insert_all cctable_insert [(bytes ''a'', 10), (bytes ''b'', 20), (bytes ''a'', 30)] t0 = Inr t \<and>
    cctable_deinit t (Some (#)) [] = Inr (t', destroyed) \<and> mset destroyed = {# 10, 20, 30 #}"
  using table_deinit [of 3 "[(bytes ''a'', 10), (bytes ''b'', 20), (bytes ''a'', 30)]" "0 :: nat"] by auto

section \<open>The hash\<close>

text \<open>The 64-bit Fowler-Noll-Vo 1a hash the comments name.\<close>

definition fnv1a_64 :: "byte list \<Rightarrow> size_t" where
  "fnv1a_64 s = foldl (\<lambda>hash c. (hash XOR ucast c) * 0x100000001b3) 0xcbf29ce484222325 s"

lemma xor_same_right: "a XOR c = b XOR c \<longleftrightarrow> a = (b :: size_t)"
  by (auto simp: bit_eq_iff bit_xor_iff)

lemma ascii_sign_extension:
  assumes "c < 128"
  shows "ucast c = (signed (c :: byte) :: size_t)"
proof -
  have "uint c < 128" "- 128 \<le> uint c"
    using assms order_trans [OF _ uint_ge_0, of "- 128" c] by (simp_all add: word_less_def)
  then have "sint c = uint c"
    unfolding sint_uint by (intro signed_take_bit_int_eq_self) auto
  then show ?thesis
    by (metis of_int_sint of_int_uint)
qed

lemma hash_step_inj: "hash_step h c = hash_step h' c \<Longrightarrow> h = h'"
proof -
  assume "hash_step h c = hash_step h' c"
  then have "(h XOR signed c) * (0x100000001b3 * 0xce965057aff6957b) =
      (h' XOR signed c) * (0x100000001b3 * 0xce965057aff6957b)"
    by (simp only: hash_step_def flip: mult.assoc)
  moreover have "0x100000001b3 * 0xce965057aff6957b = (1 :: size_t)"
    by simp
  ultimately show "h = h'"
    by (simp only: mult_1_right xor_same_right)
qed

lemma foldl_hash_inj: "foldl hash_step h s = foldl hash_step h' s \<Longrightarrow> h = h'"
  by (induction s arbitrary: h h') (auto dest: hash_step_inj)

text \<open>
  The hash is not the FNV-1a it is documented to be: on every string of ASCII characters, the
  empty one included, it differs from the reference, because the two halves of the offset basis are
  swapped in the initial value.
\<close>

theorem hash_is_not_fnv1a:
  assumes "\<forall>c \<in> set s. c < 128"
  shows "hash_string s \<noteq> fnv1a_64 s"
proof
  assume eq: "hash_string s = fnv1a_64 s"
  have "fnv1a_64 s = foldl hash_step 0xcbf29ce484222325 s"
    unfolding fnv1a_64_def
    by (intro foldl_cong) (use assms in \<open>auto simp: hash_step_def ascii_sign_extension\<close>)
  with eq have "foldl hash_step 0x84222325cbf29ce4 s = foldl hash_step 0xcbf29ce484222325 s"
    by (simp only: hash_string_def)
  then have "(0x84222325cbf29ce4 :: size_t) = 0xcbf29ce484222325"
    by (rule foldl_hash_inj)
  then show False
    by simp
qed

theorem hash_is_not_fnv1a_witness:
  "hash_string (bytes ''key'') \<noteq> fnv1a_64 (bytes ''key'')"
  by (rule hash_is_not_fnv1a) (simp add: bytes_def)

end
