(* ===== verification/CC_String.thy ===== *)
theory CC_String
  imports CC_Buffer
begin

text \<open>
  String utilities: \<^verbatim>\<open>string_copy\<close> and \<^verbatim>\<open>string_duplicate\<close> (include/ccore/string.h) and
  \<^verbatim>\<open>is_number\<close> (src/format.c).
\<close>

section \<open>Operations\<close>

text \<open>\<^verbatim>\<open>for(l = 0; l + 1 < cap && src[l] != 0; l++);\<close>\<close>

function scan_len :: "buf \<Rightarrow> nat \<Rightarrow> nat \<Rightarrow> nat res" where
  "scan_len src cap l =
     (if Suc l < cap then
        (case rd src l of
           Inl e \<Rightarrow> Inl e
         | Inr c \<Rightarrow> if c \<noteq> 0 then scan_len src cap (Suc l) else Inr l)
      else Inr l)"
  by pat_completeness auto
termination
  by (relation "measure (\<lambda>(src, cap, l). cap - l)") auto

declare scan_len.simps [simp del]

definition string_copy :: "build \<Rightarrow> buf \<Rightarrow> buf \<Rightarrow> size_t \<Rightarrow> buf res" where
  "string_copy bd dest src cap =
     bindE (ccassert bd (cap \<noteq> 0)) (\<lambda>_.
     bindE (scan_len src (unat cap) 0) (\<lambda>l.
     bindE (memcpy dest src (min (unat (cap - 1)) (l + 1))) (\<lambda>dest.
     wr dest (unat (cap - 1)) 0)))"

text \<open>The block the allocator returns is \<^term>\<open>size\<close> bytes nobody has written.\<close>

definition string_duplicate :: "build \<Rightarrow> buf \<Rightarrow> buf res" where
  "string_duplicate bd str =
     bindE (read_str str) (\<lambda>s.
     let size = (of_nat (length s) + 1 :: size_t) in
     string_copy bd (replicate (unat size) None) str size)"

fun is_number :: "buf \<Rightarrow> bool res" where
  "is_number [] = Inl OutOfBounds"
| "is_number (None # input) = Inl Uninit"
| "is_number (Some c # input) =
     (if c \<noteq> 0 then (if \<not> isdigit c then Inr False else is_number input) else Inr True)"

section \<open>What they compute\<close>

lemma scan_len_result:
  assumes "is_cstr s" "l \<le> length s" "l < cap"
  shows "scan_len (map Some s @ Some 0 # r) cap l = Inr (min (cap - 1) (length s))"
  using assms
proof (induction "cap - l" arbitrary: l)
  case (Suc n)
  show ?case
  proof (cases "Suc l < cap \<and> l < length s")
    case True
    moreover from True have "rd (map Some s @ Some 0 # r) l = Inr (s ! l)" "s ! l \<noteq> 0"
      using Suc.prems by (simp_all add: rd_inside is_cstr_nth)
    ultimately show ?thesis
      using Suc.hyps(1) [of "Suc l"] Suc.hyps(2) Suc.prems by (subst scan_len.simps) simp
  next
    case False
    then consider "l = cap - 1" | "Suc l < cap" "l = length s"
      using Suc.prems by linarith
    then show ?thesis
      by cases (use Suc.prems in \<open>subst scan_len.simps, simp add: rd_def nth_append\<close>)+
  qed
qed simp

lemma take_min_length: "take (min k (length xs)) (xs @ ys) = take k xs"
  by (simp add: min_def)

lemma drop_append_drop: "length xs = k \<Longrightarrow> k \<le> n \<Longrightarrow> drop n (xs @ drop k ys) = drop n ys"
  by simp

text \<open>
  The destination after a copy: the longest prefix of the source that fits with its NUL, then the
  bytes that were there, and a NUL in the last place.
\<close>

lemma string_copy_result:
  assumes "is_cstr s" "cap \<noteq> 0" "unat cap \<le> length dest"
  shows "string_copy bd dest (map Some s @ Some 0 # r) cap =
    Inr ((map Some (take (unat cap - 1) (s @ [0])) @ drop (min (unat cap - 1) (Suc (length s))) dest)
         [unat cap - 1 := Some 0])"
proof -
  let ?src = "map Some s @ Some 0 # r" and ?n = "min (unat cap - 1) (Suc (length s))"
  have cap: "unat (cap - 1) = unat cap - 1" "0 < unat cap"
    using assms(2) by (simp_all add: unat_minus_one unat_gt_0)
  have scan: "scan_len ?src (unat cap) 0 = Inr (min (unat cap - 1) (length s))"
    using scan_len_result [OF assms(1), of 0] cap(2) by simp
  have n: "min (unat (cap - 1)) (min (unat cap - 1) (length s) + 1) = ?n"
    using cap(1) by linarith
  have src: "?src = map Some (s @ [0]) @ r"
    by simp
  have "take ?n ?src = map Some (take (unat cap - 1) (s @ [0]))"
    unfolding src using take_min_length [of "unat cap - 1" "map Some (s @ [0])" r]
    by (simp add: take_map del: map_append)
  then have mc: "memcpy dest ?src ?n =
      Inr (map Some (take (unat cap - 1) (s @ [0])) @ drop ?n dest)" (is "_ = Inr ?d")
    using assms(3) by (simp add: memcpy_def le_diff_conv min.coboundedI1)
  have "string_copy bd dest ?src cap = wr ?d (unat (cap - 1)) 0"
    by (simp only: string_copy_def scan n mc bindE_simps ccassert_holds [OF assms(2)])
  then show ?thesis
    using assms(2,3) cap by (simp add: wr_def)
qed

lemma string_copy_string:
  assumes "is_cstr s" "cap \<noteq> 0" "unat cap \<le> length dest"
  shows "\<exists>dest'. string_copy bd dest (map Some s @ Some 0 # r) cap = Inr dest' \<and>
    length dest' = length dest \<and> read_str dest' = Inr (take (unat cap - 1) s) \<and>
    drop (unat cap) dest' = drop (unat cap) dest"
proof -
  let ?k = "unat cap - 1"
  let ?d = "(map Some (take ?k (s @ [0])) @ drop (min ?k (Suc (length s))) dest)[?k := Some 0]"
  have k: "?k < length dest"
    using assms(2,3) by (simp add: unat_gt_0 Suc_leI less_le_trans [OF _ assms(3)])
  have "read_str ?d = Inr (take ?k s)"
  proof (cases "length s < ?k")
    case True
    then obtain j where "?k = Suc (length s) + j"
      by (metis Suc_leI le_Suc_ex)
    then have "?d = map Some s @ Some 0 # (drop (Suc (length s)) dest)[j := Some 0]"
      by (simp add: list_update_append)
    then show ?thesis
      using assms(1) True by (simp add: read_str_iff)
  next
    case False
    then have "?d = map Some (take ?k s) @ (drop ?k dest)[0 := Some 0]"
      by (simp add: list_update_append min_def)
    moreover obtain x xs where "drop ?k dest = x # xs"
      using k by (metis Cons_nth_drop_Suc)
    ultimately show ?thesis
      using assms(1) by (simp add: read_str_iff is_cstr_take)
  qed
  moreover have "length ?d = length dest"
    using k by (auto simp: min_def)
  moreover have "drop (unat cap) ?d = drop (unat cap) dest"
  proof -
    let ?q = "min ?k (Suc (length s))"
    have "?k < unat cap" "?q \<le> unat cap"
      using assms(2) by (simp_all add: unat_gt_0 Suc_leI min.coboundedI1)
    moreover have "length (map Some (take ?k (s @ [0]))) = ?q"
      by simp
    ultimately show ?thesis
      by (simp only: drop_update_cancel drop_append_drop)
  qed
  ultimately show ?thesis
    using string_copy_result [OF assms, of bd r] by blast
qed

lemma string_duplicate_string:
  assumes "is_cstr s" "length s + 1 < 2 ^ 64"
  shows "string_duplicate bd (map Some s @ Some 0 # r) = Inr (cbuf s)"
proof -
  let ?size = "of_nat (length s) + 1 :: size_t"
  have u: "unat ?size = Suc (length s)"
    using unat_of_nat_small(2) [of "length s"] assms(2) by simp
  then have nz: "?size \<noteq> 0"
    by (metis nat.distinct(1) unat_0)
  have "drop (length s) (replicate (Suc (length s)) None) = [None :: byte option]"
    by (simp only: drop_replicate) simp
  then have "string_copy bd (replicate (unat ?size) None) (map Some s @ Some 0 # r) ?size = Inr (cbuf s)"
    using string_copy_result [OF assms(1) nz, of "replicate (unat ?size) None" bd r] u
    by (simp add: cbuf_def list_update_append min_def del: replicate_Suc)
  moreover have "read_str (map Some s @ Some 0 # r) = Inr s"
    using assms(1) by (simp add: read_str_iff)
  ultimately show ?thesis
    by (simp add: string_duplicate_def)
qed

lemma is_number_string:
  "is_cstr s \<Longrightarrow> is_number (map Some s @ Some 0 # r) = Inr (list_all isdigit s)"
  by (induction s) auto

section \<open>Properties\<close>

text \<open>bounded copy. For any source string and any destination of at least cap bytes,
  string_copy stays inside the destination's first cap bytes (what lies behind is unchanged),
  always leaves a terminated string, and that string is the source cut to cap - 1 bytes; the
  source itself is read only up to its terminator.\<close>

theorem string_copy_truncates:
  assumes "is_cstr s" "cap \<noteq> 0" "unat cap \<le> length dest"
  shows "\<exists>dest'. string_copy bd dest (map Some s @ Some 0 # r) cap = Inr dest' \<and>
    length dest' = length dest \<and> read_str dest' = Inr (take (unat cap - 1) s) \<and>
    drop (unat cap) dest' = drop (unat cap) dest"
  by (rule string_copy_string [OF assms])

theorem string_copy_truncates_witness:
  "\<exists>dest'. string_copy Debug [None, None, None, None, None, None] (cbuf [114, 101, 110, 100, 101, 114]) 4 = Inr dest' \<and>
     read_str dest' = Inr [114, 101, 110] \<and> drop 4 dest' = [None, None]"
  using string_copy_truncates [of "[114, 101, 110, 100, 101, 114]" 4 "[None, None, None, None, None, None]" Debug "[]"]
  by (auto simp: cbuf_def)

text \<open>duplication. string_duplicate returns a fresh buffer of exactly the string's length plus
  one, every byte of it written, holding the same string; whatever follows the terminator in the
  source buffer is not read.\<close>

theorem string_duplicate_roundtrip:
  assumes "is_cstr s" "length s + 1 < 2 ^ 64"
  shows "string_duplicate bd (map Some s @ Some 0 # r) = Inr (cbuf s) \<and> read_str (cbuf s) = Inr s"
  using string_duplicate_string [OF assms] read_str_cbuf [OF assms(1)] by blast

theorem string_duplicate_roundtrip_witness:
  "string_duplicate Debug (map Some [107, 101, 121] @ Some 0 # [None]) = Inr (cbuf [107, 101, 121]) \<and>
   read_str (cbuf [107, 101, 121]) = Inr [107, 101, 121]"
  by (rule string_duplicate_roundtrip) simp_all

end
