(* ===== verification/CC_Filesystem.thy ===== *)
theory CC_Filesystem
  imports CC_Buffer
begin

text \<open>
  The path routines of src/filesystem.c on byte buffers, for the targets whose separator is
  \<^verbatim>\<open>/\<close> (include/ccore/filesystem.h).  Buffer arguments are the objects the pointers point
  to, so the assertions that a pointer is not NULL hold by construction.  The rest of the file calls
  the operating system (fopen, access, fread) and is not modelled.
\<close>

section \<open>Operations\<close>

definition CCFS_PATH_SEP :: byte where
  "CCFS_PATH_SEP = 47"

definition is_path_sep :: "byte \<Rightarrow> bool" where
  "is_path_sep c \<longleftrightarrow> c = 92 \<or> c = 47"

text \<open>\<^verbatim>\<open>while(length && is_path_sep(comp[length-1])) length -= 1;\<close>\<close>

fun trim_seps :: "byte list \<Rightarrow> nat \<Rightarrow> nat" where
  "trim_seps str 0 = 0"
| "trim_seps str (Suc n) = (if is_path_sep (str ! n) then trim_seps str n else Suc n)"

definition path_component_length :: "buf \<Rightarrow> size_t res" where
  "path_component_length str =
     bindE (read_str str) (\<lambda>s. Inr (of_nat (trim_seps s (length s))))"

text \<open>\<^verbatim>\<open>while(n--) *dest++ = 0;\<close>\<close>

fun zero_fill :: "buf \<Rightarrow> nat \<Rightarrow> nat \<Rightarrow> buf res" where
  "zero_fill dest d 0 = Inr dest"
| "zero_fill dest d (Suc n) = bindE (wr dest d 0) (\<lambda>dest. zero_fill dest (Suc d) n)"

text \<open>\<^verbatim>\<open>pathcpy\<close> writes at \<^term>\<open>d\<close> bytes into the output buffer.\<close>

fun pathcpy :: "buf \<Rightarrow> nat \<Rightarrow> buf \<Rightarrow> nat \<Rightarrow> buf res" where
  "pathcpy dest d src 0 = Inr dest"
| "pathcpy dest d [] (Suc n) = Inl OutOfBounds"
| "pathcpy dest d (None # src) (Suc n) = Inl Uninit"
| "pathcpy dest d (Some c # src) (Suc n) =
     (if c \<noteq> 0 then
        bindE (wr dest d (if is_path_sep c then CCFS_PATH_SEP else c)) (\<lambda>dest.
        pathcpy dest (Suc d) src n)
      else zero_fill dest d (Suc n))"

fun path_concat_loop :: "buf \<Rightarrow> size_t \<Rightarrow> size_t \<Rightarrow> bool \<Rightarrow> buf list \<Rightarrow> (buf \<times> size_t) res" where
  "path_concat_loop out bufsz head is_first [] = Inr (out, head)"
| "path_concat_loop out bufsz head is_first (component_str # comps) =
     bindE (path_component_length component_str) (\<lambda>comp_length.
     if head + comp_length + 1 \<ge> bufsz then Inr (out, head)
     else
       bindE (if is_first then Inr (out, head)
              else bindE (wr out (unat head) CCFS_PATH_SEP) (\<lambda>out. Inr (out, head + 1)))
         (\<lambda>(out, head).
       bindE (pathcpy out (unat head) component_str (unat comp_length)) (\<lambda>out.
       path_concat_loop out bufsz (head + comp_length) False comps)))"

definition ccfs_path_concat :: "buf \<Rightarrow> size_t \<Rightarrow> buf list \<Rightarrow> (buf \<times> size_t) res" where
  "ccfs_path_concat out bufsz comps =
     bindE (path_concat_loop out bufsz 0 True comps) (\<lambda>(out, head).
     bindE (wr out (unat head) 0) (\<lambda>out. Inr (out, head)))"

text \<open>
  In-place trimming walks a pointer backwards from the last character; the model's \<^term>\<open>head\<close> is
  that pointer minus \<^verbatim>\<open>path\<close>, which can become negative.
\<close>

definition rd_at :: "buf \<Rightarrow> int \<Rightarrow> byte res" where
  "rd_at b i = (if i < 0 then Inl OutOfBounds else rd b (nat i))"

function rtrim_loop :: "buf \<Rightarrow> int \<Rightarrow> int \<Rightarrow> int \<Rightarrow> int res" where
  "rtrim_loop path limit dirs head =
     (if dirs < limit \<and> head \<noteq> 0 then
        (case rd_at path head of
           Inl e \<Rightarrow> Inl e
         | Inr c \<Rightarrow>
             if \<not> is_path_sep c then rtrim_loop path limit dirs (head - 1)
             else rtrim_loop path limit (dirs + 1) (head - 1))
      else Inr head)"
  by pat_completeness auto
termination
  by (relation "measure (\<lambda>(path, limit, dirs, head). nat head)")
    (auto simp: rd_at_def split: if_splits)

declare rtrim_loop.simps [simp del]

text \<open>\<^verbatim>\<open>int length = strlen(path)\<close> keeps the low 32 bits.\<close>

definition ccfs_path_rtrim_i :: "buf \<Rightarrow> int \<Rightarrow> buf res" where
  "ccfs_path_rtrim_i path num_dirs =
     bindE (read_str path) (\<lambda>s.
     let len = sint (of_nat (length s) :: 32 word) in
     if num_dirs + 1 > 2147483647 then Inl SignedOverflow
     else
       bindE (rtrim_loop path (num_dirs + 1) 0 (len - 1)) (\<lambda>head.
       if head + 2 < 0 then Inl OutOfBounds else wr path (nat (head + 2)) 0))"

section \<open>Components and their concatenation\<close>

text \<open>
  A component as it appears in the result: without its trailing separators, every separator left
  written as \<^const>\<open>CCFS_PATH_SEP\<close>; and components joined by one separator.
\<close>

definition component :: "byte list \<Rightarrow> byte list" where
  "component s = map (\<lambda>c. if is_path_sep c then CCFS_PATH_SEP else c)
                   (rev (dropWhile is_path_sep (rev s)))"

fun join :: "byte list list \<Rightarrow> byte list" where
  "join [] = []"
| "join [c] = c"
| "join (c # cs) = c @ CCFS_PATH_SEP # join cs"

lemma join_snoc: "join (cs @ [c]) = (if cs = [] then c else join cs @ CCFS_PATH_SEP # c)"
  by (induction cs rule: join.induct) auto

lemma trim_seps_le: "trim_seps s n \<le> n"
  by (induction n) auto

lemma trim_seps_take:
  "n \<le> length s \<Longrightarrow> take (trim_seps s n) s = rev (dropWhile is_path_sep (rev (take n s)))"
  by (induction n) (simp_all add: take_Suc_conv_app_nth)

lemma component_take: "component s = map (\<lambda>c. if is_path_sep c then CCFS_PATH_SEP else c)
    (take (trim_seps s (length s)) s)"
  by (simp add: component_def trim_seps_take)

lemma length_component: "length (component s) = trim_seps s (length s)"
  using trim_seps_le [of s "length s"] by (simp add: component_take)

lemma is_cstr_component: "is_cstr s \<Longrightarrow> is_cstr (component s)"
  by (auto simp: is_cstr_def component_take CCFS_PATH_SEP_def dest: in_set_takeD)

lemma pathcpy_writes:
  assumes "is_cstr s" "n \<le> length s" "n \<le> length r"
  shows "pathcpy (map Some p @ r) (length p) (map Some s @ t) n =
    Inr (map Some (p @ map (\<lambda>c. if is_path_sep c then CCFS_PATH_SEP else c) (take n s)) @ drop n r)"
  using assms
proof (induction n arbitrary: s p r)
  case (Suc n)
  then obtain c s' x r' where s: "s = c # s'" and r: "r = x # r'"
    by (metis Suc_le_length_iff)
  let ?c = "if is_path_sep c then CCFS_PATH_SEP else c"
  have "wr (map Some p @ r) (length p) ?c = Inr (map Some (p @ [?c]) @ r')"
    by (simp add: wr_def r list_update_append)
  then show ?case
    using Suc.IH [of s' r' "p @ [?c]"] Suc.prems by (simp add: s r)
qed simp

lemma path_component_length_cbuf:
  "is_cstr s \<Longrightarrow> path_component_length (cbuf s) = Inr (of_nat (length (component s)))"
  by (simp add: path_component_length_def length_component)

text \<open>
  Writing one component: the separator unless it is the first, then its bytes.  \<^term>\<open>p\<close> is what
  the buffer holds so far, the path made of the components \<^term>\<open>cs\<close>.
\<close>

lemma write_component:
  assumes s: "is_cstr s" and p: "p = join cs" and fits: "Suc (length (component s)) < length r"
    and small: "length p < 2 ^ 63"
  shows "bindE (if cs = [] then Inr (map Some p @ r, of_nat (length p) :: size_t)
            else bindE (wr (map Some p @ r) (unat (of_nat (length p) :: size_t)) CCFS_PATH_SEP)
              (\<lambda>out. Inr (out, of_nat (length p) + 1)))
          (\<lambda>(out, head). bindE (pathcpy out (unat head) (cbuf s) (length (component s)))
            (\<lambda>out. f out (head + of_nat (length (component s))))) =
    (let q = join (cs @ [component s]) in
       f (map Some q @ drop (length q - length p) r) (of_nat (length q)))"
proof -
  let ?n = "length (component s)"
  have n: "?n \<le> length s"
    by (simp add: length_component trim_seps_le)
  have take: "map (\<lambda>c. if is_path_sep c then CCFS_PATH_SEP else c) (take ?n s) = component s"
    unfolding length_component by (simp only: component_take)
  note copy = pathcpy_writes [OF s n, of _ _ "[Some 0]", unfolded take]
  have u: "unat (of_nat (length p) :: size_t) = length p" "unat (of_nat (length p) + 1 :: size_t) = Suc (length p)"
    using unat_of_nat_small [of "length p"] small by simp_all
  show ?thesis
  proof (cases "cs = []")
    case True
    then show ?thesis
      using copy [of r "[]"] fits p by (simp add: cbuf_def Let_def)
  next
    case False
    obtain x r' where r: "r = x # r'"
      using fits by (cases r) auto
    have "wr (map Some p @ r) (length p) CCFS_PATH_SEP = Inr (map Some (p @ [CCFS_PATH_SEP]) @ r')"
      by (simp add: wr_def r list_update_append)
    moreover have "join (cs @ [component s]) = p @ CCFS_PATH_SEP # component s"
      using False p by (simp add: join_snoc)
    ultimately show ?thesis
      using False copy [of r' "p @ [CCFS_PATH_SEP]"] fits u
      by (simp add: cbuf_def r Let_def algebra_simps)
  qed
qed

text \<open>
  The loop over the components: it appends a prefix of them, and stops early only at a component
  that does not fit.  No C object reaches \<^term>\<open>2 ^ 63\<close> bytes, so \<^verbatim>\<open>head + comp_length + 1\<close>
  does not wrap.
\<close>

lemma path_concat_loop_result:
  assumes "\<forall>s \<in> set strs. is_cstr s \<and> length s < 2 ^ 63 - 1"
    and "p = join cs" "length p < unat bufsz" "unat bufsz \<le> length p + length r"
    and "unat bufsz \<le> 2 ^ 63"
  shows "\<exists>k q. path_concat_loop (map Some p @ r) bufsz (of_nat (length p)) (cs = []) (map cbuf strs) =
      Inr (map Some q @ drop (length q - length p) r, of_nat (length q)) \<and>
    k \<le> length strs \<and> q = join (cs @ map component (take k strs)) \<and>
    length p \<le> length q \<and> length q < unat bufsz \<and>
    (k < length strs \<longrightarrow> unat bufsz \<le> length q + length (component (strs ! k)) + 1)"
  using assms
proof (induction strs arbitrary: p cs r)
  case Nil
  then show ?case by (intro exI [of _ 0] exI [of _ p]) simp
next
  case (Cons s strs)
  let ?n = "length (component s)"
  have s: "is_cstr s" "?n < 2 ^ 63 - 1" "length p < 2 ^ 63"
    using Cons.prems trim_seps_le [of s "length s"] by (auto simp: length_component)
  have eq: "of_nat (length p) + of_nat ?n + 1 = (of_nat (length p + ?n + 1) :: size_t)"
    by simp
  have sum: "unat (of_nat (length p) + of_nat ?n + 1 :: size_t) = length p + ?n + 1"
    unfolding eq by (rule unat_of_nat_small) (use s in simp)
  have len: "unat (of_nat ?n :: size_t) = ?n"
    using unat_of_nat_small(1) [of ?n] s by simp
  have fit: "bufsz \<le> of_nat (length p) + of_nat ?n + 1 \<longleftrightarrow> unat bufsz \<le> length p + ?n + 1"
    by (simp only: word_le_nat_alt sum)
  show ?case
  proof (cases "unat bufsz \<le> length p + ?n + 1")
    case True
    then show ?thesis
      using Cons.prems fit path_component_length_cbuf [OF s(1)]
      by (intro exI [of _ 0] exI [of _ p]) simp
  next
    case False
    let ?q = "join (cs @ [component s])"
    have q: "length ?q = length p + ?n + (if cs = [] then 0 else 1)"
      using Cons.prems(2) by (auto simp: join_snoc)
    have "path_concat_loop (map Some p @ r) bufsz (of_nat (length p)) (cs = []) (map cbuf (s # strs)) =
        path_concat_loop (map Some ?q @ drop (length ?q - length p) r) bufsz (of_nat (length ?q)) False (map cbuf strs)"
      using write_component [OF s(1) Cons.prems(2), of r "\<lambda>out head. path_concat_loop out bufsz head False (map cbuf strs)"]
        False Cons.prems(4) s(3) fit path_component_length_cbuf [OF s(1)] len
      by (auto simp: split_beta Let_def)
    moreover have "\<exists>k q. path_concat_loop (map Some ?q @ drop (length ?q - length p) r) bufsz (of_nat (length ?q))
          (cs @ [component s] = []) (map cbuf strs) =
        Inr (map Some q @ drop (length q - length ?q) (drop (length ?q - length p) r), of_nat (length q)) \<and>
      k \<le> length strs \<and> q = join ((cs @ [component s]) @ map component (take k strs)) \<and>
      length ?q \<le> length q \<and> length q < unat bufsz \<and>
      (k < length strs \<longrightarrow> unat bufsz \<le> length q + length (component (strs ! k)) + 1)"
      by (rule Cons.IH) (use Cons.prems False q in auto)
    then obtain k q where k: "path_concat_loop (map Some ?q @ drop (length ?q - length p) r) bufsz (of_nat (length ?q))
          (cs @ [component s] = []) (map cbuf strs) =
        Inr (map Some q @ drop (length q - length ?q) (drop (length ?q - length p) r), of_nat (length q))"
      "k \<le> length strs" "q = join ((cs @ [component s]) @ map component (take k strs))"
      "length ?q \<le> length q" "length q < unat bufsz"
      "k < length strs \<longrightarrow> unat bufsz \<le> length q + length (component (strs ! k)) + 1"
      by blast
    have dd: "drop (length q - length ?q) (drop (length ?q - length p) r) = drop (length q - length p) r"
      using k(4) q by simp
    have ne: "(cs @ [component s] = []) = False" by simp
    show ?thesis
    proof (intro exI conjI)
      show "path_concat_loop (map Some p @ r) bufsz (of_nat (length p)) (cs = []) (map cbuf (s # strs)) =
          Inr (map Some q @ drop (length q - length p) r, of_nat (length q))"
        using calculation k(1) by (simp only: dd ne)
      show "q = join (cs @ map component (take (Suc k) (s # strs)))"
        using k(3) by simp
      show "length p \<le> length q"
        using k(4) q by simp
      show "Suc k < length (s # strs) \<longrightarrow>
          unat bufsz \<le> length q + length (component ((s # strs) ! Suc k)) + 1"
        using k(6) by simp
    qed (use k in simp_all)
  qed
qed

lemma is_cstr_join: "(\<forall>c \<in> set cs. is_cstr c) \<Longrightarrow> is_cstr (join cs)"
  by (induction cs rule: join.induct) (auto simp: CCFS_PATH_SEP_def)

lemma path_concat_result:
  assumes strs: "\<forall>s \<in> set strs. is_cstr s \<and> length s < 2 ^ 63 - 1"
    and sz: "0 < unat bufsz" "unat bufsz \<le> length out" "length out \<le> 2 ^ 63"
  shows "\<exists>k out'. ccfs_path_concat out bufsz (map cbuf strs) =
      Inr (out', of_nat (length (join (map component (take k strs))))) \<and>
    k \<le> length strs \<and> read_str out' = Inr (join (map component (take k strs))) \<and>
    length (join (map component (take k strs))) < unat bufsz \<and>
    length out' = length out \<and> drop (unat bufsz) out' = drop (unat bufsz) out \<and>
    (k < length strs \<longrightarrow>
      unat bufsz \<le> length (join (map component (take k strs))) + length (component (strs ! k)) + 1)"
proof -
  obtain k q where loop: "path_concat_loop out bufsz 0 True (map cbuf strs) =
      Inr (map Some q @ drop (length q) out, of_nat (length q))"
    and k: "k \<le> length strs" and q: "q = join (map component (take k strs))" "length q < unat bufsz"
    and stop: "k < length strs \<longrightarrow> unat bufsz \<le> length q + length (component (strs ! k)) + 1"
    using path_concat_loop_result [OF strs, of "[]" "[]" bufsz out] sz by auto
  let ?out = "(map Some q @ drop (length q) out)[length q := Some 0]"
  have "unat (of_nat (length q) :: size_t) = length q"
    using unat_of_nat_small(1) [of "length q"] q(2) sz by simp
  then have "ccfs_path_concat out bufsz (map cbuf strs) = Inr (?out, of_nat (length q))"
    using loop q(2) sz by (simp add: ccfs_path_concat_def wr_def)
  moreover have "\<forall>c \<in> set (map component (take k strs)). is_cstr c"
    using strs by (auto simp: is_cstr_component dest: in_set_takeD)
  then have "read_str ?out = Inr q"
    using q sz is_cstr_join by (cases "drop (length q) out") (simp_all add: read_str_iff list_update_append)
  moreover have "drop (unat bufsz) ?out = drop (unat bufsz) out"
    using q(2) by (simp add: drop_update_cancel)
  ultimately show ?thesis
    using k q stop sz by (intro exI [of _ k] exI [of _ ?out]) simp
qed

section \<open>Trimming\<close>

definition seps :: "byte list \<Rightarrow> nat" where
  "seps s = length (filter is_path_sep s)"

lemma rd_at_inside: "i < length s \<Longrightarrow> rd_at (map Some s @ r) (int i) = Inr (s ! i)"
  by (simp add: rd_at_def rd_inside)

lemma rtrim_loop_stop: "\<not> dirs < limit \<or> head = 0 \<Longrightarrow> rtrim_loop path limit dirs head = Inr head"
  by (subst rtrim_loop.simps) auto

text \<open>Walking back over \<^term>\<open>q\<close> to the separator in front of it.\<close>

lemma rtrim_loop_to_sep:
  assumes "p \<noteq> []" "is_path_sep c" "dirs + int (seps q) + 1 = limit"
  shows "rtrim_loop (map Some (p @ c # q) @ r) limit dirs (int (length p + length q)) = Inr (int (length p) - 1)"
  using assms(3)
proof (induction q arbitrary: r dirs rule: rev_induct)
  case Nil
  have "rd_at (map Some (p @ [c]) @ r) (int (length p)) = Inr c"
    using rd_at_inside [of "length p" "p @ [c]" r] by simp
  with assms Nil show ?case
    by (subst rtrim_loop.simps) (simp add: seps_def rtrim_loop_stop)
next
  case (snoc d q)
  have rd: "rd_at (map Some (p @ c # q @ [d]) @ r) (int (length p + length (q @ [d]))) = Inr d"
    using rd_at_inside [of "length p + length (q @ [d])" "p @ c # q @ [d]" r]
    by (simp add: nth_append)
  have IH: "rtrim_loop (map Some (p @ c # q @ [d]) @ r) limit dirs' (int (length p + length (q @ [d])) - 1) =
      Inr (int (length p) - 1)" if "dirs' + int (seps q) + 1 = limit" for dirs'
    using snoc.IH [OF that, of "Some d # r"] by simp
  have "dirs < limit"
    using snoc.prems by simp
  with rd IH snoc.prems show ?case
    by (subst rtrim_loop.simps) (auto simp: seps_def split: if_splits)
qed

text \<open>Walking back to the first character without reading enough separators.\<close>

lemma rtrim_loop_to_start:
  assumes "dirs + int (seps q) < limit"
  shows "rtrim_loop (map Some (c # q) @ r) limit dirs (int (length q)) = Inr 0"
  using assms
proof (induction q arbitrary: r dirs rule: rev_induct)
  case Nil
  then show ?case by (simp add: rtrim_loop_stop)
next
  case (snoc d q)
  have rd: "rd_at (map Some (c # q @ [d]) @ r) (int (length (q @ [d]))) = Inr d"
    using rd_at_inside [of "length (q @ [d])" "c # q @ [d]" r] by (simp add: nth_append)
  have IH: "rtrim_loop (map Some (c # q @ [d]) @ r) limit dirs' (int (length (q @ [d])) - 1) = Inr 0"
    if "dirs' + int (seps q) < limit" for dirs'
    using snoc.IH [OF that, of "Some d # r"] by simp
  have "dirs < limit"
    using snoc.prems by simp
  with rd IH snoc.prems show ?case
    by (subst rtrim_loop.simps) (auto simp: seps_def split: if_splits)
qed

lemma sint_length:
  assumes "n < 2 ^ 31"
  shows "sint (of_nat n :: 32 word) = int n"
  using assms by (simp add: signed_of_nat signed_take_bit_int_eq_self)

lemma rtrim_at_separator:
  assumes "is_cstr (p @ c # q)" "p \<noteq> []" "is_path_sep c" "int (seps q) = n" "length (p @ c # q) < 2 ^ 31"
  shows "\<exists>path'. ccfs_path_rtrim_i (map Some (p @ c # q) @ Some 0 # r) n = Inr path' \<and>
    read_str path' = Inr (p @ [c])"
proof -
  let ?path = "map Some (p @ c # q) @ Some 0 # r"
  have str: "read_str ?path = Inr (p @ c # q)"
    using assms(1) by (simp only: read_str_iff) blast
  have "seps q \<le> length q"
    by (simp add: seps_def)
  then have n: "\<not> n + 1 > 2147483647"
    using assms(4,5) by simp
  have loop: "rtrim_loop ?path (n + 1) 0 (int (length (p @ c # q)) - 1) = Inr (int (length p) - 1)"
    using rtrim_loop_to_sep [OF assms(2,3), of 0 q "n + 1" "Some 0 # r"] assms(4) by simp
  have len: "sint (of_nat (length (p @ c # q)) :: 32 word) = int (length (p @ c # q))"
    by (rule sint_length [OF assms(5)])
  have "ccfs_path_rtrim_i ?path n = wr ?path (Suc (length p)) 0"
    by (simp only: ccfs_path_rtrim_i_def str bindE_simps Let_def len loop n if_False)
      (simp add: nat_add_distrib)
  moreover have "wr ?path (Suc (length p)) 0 = Inr (?path[Suc (length p) := Some 0])"
    by (simp add: wr_def)
  moreover have "read_str (?path[Suc (length p) := Some 0]) = Inr (p @ [c])"
    using assms(1) by (cases q) (auto simp: read_str_iff list_update_append)
  ultimately show ?thesis by auto
qed

text \<open>Fewer separators than asked for: what is left is at most the first two characters.\<close>

lemma rtrim_too_few:
  assumes "is_cstr (c # q)" "seps q \<le> nat n" "0 \<le> n" "n < 2147483647" "length (c # q) < 2 ^ 31"
  shows "ccfs_path_rtrim_i (cbuf (c # q)) n =
    (if q = [] then Inl OutOfBounds else wr (cbuf (c # q)) 2 0)"
proof -
  let ?path = "cbuf (c # q)"
  have str: "read_str ?path = Inr (c # q)"
    using assms(1) by (rule read_str_cbuf)
  have loop: "rtrim_loop ?path (n + 1) 0 (int (length (c # q)) - 1) = Inr 0"
    using rtrim_loop_to_start [of 0 q "n + 1" c "[Some 0]"] assms(2,3) by (simp add: cbuf_def)
  have len: "sint (of_nat (length (c # q)) :: 32 word) = int (length (c # q))"
    by (rule sint_length [OF assms(5)])
  have n: "\<not> n + 1 > 2147483647"
    using assms(4) by simp
  have "ccfs_path_rtrim_i ?path n = wr ?path 2 0"
    by (simp only: ccfs_path_rtrim_i_def str bindE_simps Let_def len loop n if_False) simp
  then show ?thesis
    by (auto simp: wr_def)
qed

lemma rtrim_empty: "0 \<le> n \<Longrightarrow> n < 2147483647 \<Longrightarrow> ccfs_path_rtrim_i (cbuf []) n = Inl OutOfBounds"
  by (simp add: ccfs_path_rtrim_i_def rtrim_loop.simps rd_at_def)

section \<open>Properties\<close>

text \<open>C30: path concatenation never overflows and drops only whole trailing components. For any
  components and any output buffer of at least size bytes (size not 0, no object of 2^63 bytes),
  ccfs_path_concat writes nothing past size bytes and returns the length of the terminated path it
  leaves, which is the first k components, each without trailing separators and with its
  separators normalised, joined by one separator; k falls short of all of them only when the next
  component does not fit.\<close>

theorem path_concat_joins:
  assumes "\<forall>s \<in> set strs. is_cstr s \<and> length s < 2 ^ 63 - 1"
    and "0 < unat bufsz" "unat bufsz \<le> length out" "length out \<le> 2 ^ 63"
  shows "\<exists>k out'. ccfs_path_concat out bufsz (map cbuf strs) =
      Inr (out', of_nat (length (join (map component (take k strs))))) \<and>
    k \<le> length strs \<and> read_str out' = Inr (join (map component (take k strs))) \<and>
    length (join (map component (take k strs))) < unat bufsz \<and>
    length out' = length out \<and> drop (unat bufsz) out' = drop (unat bufsz) out \<and>
    (k < length strs \<longrightarrow>
      unat bufsz \<le> length (join (map component (take k strs))) + length (component (strs ! k)) + 1)"
  by (rule path_concat_result [OF assms])

text \<open>The two components \<^verbatim>\<open>a/\<close> and \<^verbatim>\<open>b\c\<close> in eight bytes.\<close>

theorem path_concat_joins_witness:
  "\<exists>k out'. ccfs_path_concat [None, None, None, None, None, None, None, None, None] 8 (map cbuf [[97, 47], [98, 92, 99]]) =
      Inr (out', of_nat (length (join (map component (take k [[97, 47], [98, 92, 99]]))))) \<and>
    read_str out' = Inr (join (map component (take k [[97, 47], [98, 92, 99]]))) \<and>
    drop 8 out' = [None] \<and> join (map component [[97, 47], [98, 92, 99]]) = [97, 47, 98, 47, 99]"
proof -
  have strs: "\<forall>s \<in> set [[97, 47], [98, 92, 99]]. is_cstr s \<and> length s < 2 ^ 63 - 1"
    by simp
  have "join (map component [[97, 47], [98, 92, 99]]) = [97, 47, 98, 47, 99]"
    by (simp add: component_def is_path_sep_def CCFS_PATH_SEP_def)
  then show ?thesis
    using path_concat_joins [OF strs, of 8 "[None, None, None, None, None, None, None, None, None]"] by auto
qed

text \<open>trimming. When the path has more than num_dirs separators, the last num_dirs + 1 of them
  not counting one in the very first place, ccfs_path_rtrim_i cuts the path right behind the
  (num_dirs + 1)-th separator from the end, and keeps that separator.\<close>

theorem path_rtrim_cuts:
  assumes "is_cstr (p @ c # q)" "p \<noteq> []" "is_path_sep c" "int (seps q) = n" "length (p @ c # q) < 2 ^ 31"
  shows "\<exists>path'. ccfs_path_rtrim_i (map Some (p @ c # q) @ Some 0 # r) n = Inr path' \<and>
    read_str path' = Inr (p @ [c])"
  by (rule rtrim_at_separator [OF assms])

text \<open>\<^verbatim>\<open>/a/b/c\<close> trimmed by one directory is \<^verbatim>\<open>/a/\<close>.\<close>

theorem path_rtrim_cuts_witness:
  "\<exists>path'. ccfs_path_rtrim_i (map Some ([47, 97] @ 47 # [98, 47, 99]) @ Some 0 # []) 1 = Inr path' \<and>
     read_str path' = Inr ([47, 97] @ [47])"
  by (rule path_rtrim_cuts) (simp_all add: is_path_sep_def seps_def)

text \<open>trimming without enough separators. When the walk back reaches the first character
  before it has read num_dirs + 1 separators, ccfs_path_rtrim_i does not leave the path alone: it
  writes a terminator two bytes in, whatever the path is. A path of one character in a buffer of
  its exact size is written out of bounds, an empty path is read out of bounds.\<close>

theorem path_rtrim_too_few:
  assumes "is_cstr (c # q)" "seps q \<le> nat n" "0 \<le> n" "n < 2147483647" "length (c # q) < 2 ^ 31"
  shows "ccfs_path_rtrim_i (cbuf (c # q)) n = (if q = [] then Inl OutOfBounds else wr (cbuf (c # q)) 2 0) \<and>
    ccfs_path_rtrim_i (cbuf []) n = Inl OutOfBounds"
  using rtrim_too_few [OF assms] rtrim_empty [OF assms(3,4)] by blast

text \<open>\<^verbatim>\<open>/abc\<close> trimmed by its file name becomes \<^verbatim>\<open>/a\<close>.\<close>

theorem path_rtrim_too_few_witness:
  "ccfs_path_rtrim_i (cbuf [47, 97, 98, 99]) 0 = Inr (map Some [47, 97, 0, 99, 0]) \<and>
   ccfs_path_rtrim_i (cbuf []) 0 = Inl OutOfBounds"
  using path_rtrim_too_few [of 47 "[97, 98, 99]" 0]
  by (simp add: seps_def is_path_sep_def wr_def cbuf_def)

end
