(* ===== verification/CC_Memory.thy ===== *)
theory CC_Memory
  imports CC_Buffer
begin

text \<open>
  Allocation (src/memory.c).  The heap is a map from the address of a block to its bytes;
  \<^verbatim>\<open>realloc\<close> and \<^verbatim>\<open>free\<close> of the C library work on it, with the address of the new
  block (or NULL when memory has run out) as an argument.  An allocator is a function from the heap,
  that address, the old block and the new size to the heap and the block it returns.
\<close>

section \<open>The heap of the C library\<close>

type_synonym heap = "addr \<rightharpoonup> buf"

text \<open>The contents of a block after a change of its size.\<close>

definition resized :: "size_t \<Rightarrow> buf \<Rightarrow> buf" where
  "resized sz b = take (unat sz) b @ replicate (unat sz - length b) None"

definition c_free :: "heap \<Rightarrow> addr \<Rightarrow> heap res" where
  "c_free h p =
     (if p = NULL then Inr h
      else case h p of None \<Rightarrow> Inl BadDeref | Some b \<Rightarrow> Inr (h(p := None)))"

definition c_realloc :: "heap \<Rightarrow> addr \<Rightarrow> addr \<Rightarrow> size_t \<Rightarrow> (heap \<times> addr) res" where
  "c_realloc h new p sz =
     (if p = NULL then
        if new = NULL then Inr (h, NULL) else Inr (h(new \<mapsto> replicate (unat sz) None), new)
      else case h p of
        None \<Rightarrow> Inl BadDeref
      | Some b \<Rightarrow>
          if new = NULL then Inr (h, NULL) else Inr ((h(p := None))(new \<mapsto> resized sz b), new))"

text \<open>An address the library may return for a block: NULL, the old block itself, or one not in use.\<close>

definition may_return :: "heap \<Rightarrow> addr \<Rightarrow> addr \<Rightarrow> bool" where
  "may_return h p new \<longleftrightarrow> new = NULL \<or> new = p \<or> h new = None"

section \<open>The allocator\<close>

type_synonym cc_allocator = "heap \<Rightarrow> addr \<Rightarrow> addr \<Rightarrow> size_t \<Rightarrow> (heap \<times> addr) res"

definition cc_default_alloc :: "build \<Rightarrow> cc_allocator" where
  "cc_default_alloc bd h new ptr sz =
     (if sz = 0 then
        bindE (if ptr \<noteq> NULL then c_free h ptr else Inr h) (\<lambda>h. Inr (h, ptr))
      else
        bindE (c_realloc h new ptr sz) (\<lambda>(h, ptr).
        bindE (ccassert bd (ptr \<noteq> NULL)) (\<lambda>_. Inr (h, ptr))))"

record memory =
  cc_alloc_fn :: cc_allocator
  cc_heap :: heap

definition memory_start :: "build \<Rightarrow> memory" where
  "memory_start bd = \<lparr>cc_alloc_fn = cc_default_alloc bd, cc_heap = Map.empty\<rparr>"

definition cc_set_allocator :: "cc_allocator \<Rightarrow> memory \<Rightarrow> memory" where
  "cc_set_allocator f m = m\<lparr>cc_alloc_fn := f\<rparr>"

definition cc_alloc :: "memory \<Rightarrow> addr \<Rightarrow> size_t \<Rightarrow> (memory \<times> addr) res" where
  "cc_alloc m new sz =
     bindE (cc_alloc_fn m (cc_heap m) new NULL sz) (\<lambda>(h, p). Inr (m\<lparr>cc_heap := h\<rparr>, p))"

definition cc_free :: "memory \<Rightarrow> addr \<Rightarrow> memory res" where
  "cc_free m ptr = bindE (cc_alloc_fn m (cc_heap m) NULL ptr 0) (\<lambda>(h, p). Inr (m\<lparr>cc_heap := h\<rparr>))"

definition cc_realloc :: "memory \<Rightarrow> addr \<Rightarrow> addr \<Rightarrow> size_t \<Rightarrow> (memory \<times> addr) res" where
  "cc_realloc m new ptr sz =
     bindE (cc_alloc_fn m (cc_heap m) new ptr sz) (\<lambda>(h, p). Inr (m\<lparr>cc_heap := h\<rparr>, p))"

definition cc_default_destructor :: "memory \<Rightarrow> addr \<Rightarrow> addr \<Rightarrow> memory res" where
  "cc_default_destructor m ptr unused = cc_free m ptr"

section \<open>The contract of an allocator\<close>

text \<open>
  "Must behave like realloc()" (include/ccore/memory.h), as laws: size 0 frees, any other size makes
  a block of that size which keeps the bytes of the old one.
\<close>

locale allocator =
  fixes f :: cc_allocator
  assumes free_null: "f h new NULL 0 = Inr (h, NULL)"
    and free_block: "h p \<noteq> None \<Longrightarrow> p \<noteq> NULL \<Longrightarrow> \<exists>q. f h new p 0 = Inr (h(p := None), q)"
    and fresh_block: "sz \<noteq> 0 \<Longrightarrow> new \<noteq> NULL \<Longrightarrow> f h new NULL sz = Inr (h(new \<mapsto> replicate (unat sz) None), new)"
    and resize_block: "sz \<noteq> 0 \<Longrightarrow> new \<noteq> NULL \<Longrightarrow> p \<noteq> NULL \<Longrightarrow> h p = Some b \<Longrightarrow>
      f h new p sz = Inr ((h(p := None))(new \<mapsto> resized sz b), new)"
begin

lemma alloc_free:
  assumes "cc_alloc_fn m = f" "sz \<noteq> 0" "new \<noteq> NULL" "cc_heap m new = None"
  shows "\<exists>m'. cc_alloc m new sz = Inr (m', new) \<and> cc_heap m' new = Some (replicate (unat sz) None) \<and>
    cc_free m' new = Inr m"
proof -
  let ?m = "m\<lparr>cc_heap := (cc_heap m)(new \<mapsto> replicate (unat sz) None)\<rparr>"
  have "cc_alloc m new sz = Inr (?m, new)"
    using assms by (simp add: cc_alloc_def fresh_block)
  moreover have "cc_free ?m new = Inr m"
    using free_block [of "cc_heap ?m" new NULL] assms by (auto simp: cc_free_def fun_upd_idem)
  ultimately show ?thesis by auto
qed

lemma realloc_twice:
  assumes "cc_alloc_fn m = f" "cc_heap m p = Some b" "p \<noteq> NULL" "sz \<noteq> 0" "q \<noteq> NULL" "may_return (cc_heap m) p q"
    and "sz' \<noteq> 0" "r \<noteq> NULL" "sz' \<le> sz"
  shows "bindE (cc_realloc m q p sz) (\<lambda>(m, q). cc_realloc m r q sz') =
    Inr (m\<lparr>cc_heap := ((cc_heap m)(p := None, q := None))(r \<mapsto> resized sz' b)\<rparr>, r)"
proof -
  have "resized sz' (resized sz b) = resized sz' b"
    using assms(9) by (auto simp: resized_def word_le_nat_alt min_def take_append)
  then show ?thesis
    using assms by (simp add: cc_realloc_def resize_block)
qed

end

interpretation default: allocator "cc_default_alloc bd" for bd
  by unfold_locales (auto simp: cc_default_alloc_def c_free_def c_realloc_def)

section \<open>What the default allocator does\<close>



text \<open>
  Reallocating to size 0 frees the block but answers with its address, unlike a failed
  allocation: whoever takes the answer for a block frees it a second time.  When memory has run out
  a release build answers NULL and keeps the old block, a debug build stops.
\<close>

theorem memory_realloc_edge_cases:
  assumes "cc_alloc_fn m = cc_default_alloc bd" "cc_heap m p = Some b" "p \<noteq> NULL" "sz \<noteq> 0"
  shows "(\<exists>m'. cc_realloc m new p 0 = Inr (m', p) \<and> cc_heap m' = (cc_heap m)(p := None) \<and> cc_free m' p = Inl BadDeref) \<and>
    cc_realloc m NULL p sz = (if bd = Debug then Inl AssertFail else Inr (m, NULL))"
  using assms by (auto simp: cc_realloc_def cc_free_def cc_default_alloc_def c_free_def c_realloc_def ccassert_def)

theorem memory_realloc_edge_cases_witness:
  "cc_realloc (\<lparr>cc_alloc_fn = cc_default_alloc NDebug, cc_heap = [16 \<mapsto> [None]]\<rparr>) NULL 16 5 =
    Inr (\<lparr>cc_alloc_fn = cc_default_alloc NDebug, cc_heap = [16 \<mapsto> [None]]\<rparr>, NULL)"
  using memory_realloc_edge_cases
    [of "\<lparr>cc_alloc_fn = cc_default_alloc NDebug, cc_heap = [16 \<mapsto> [None]]\<rparr>" NDebug 16 "[None]" 5] by simp

end
