(* ===== verification/CC_FileRead.thy ===== *)
theory CC_FileRead
  imports CC_Memory CC_Filesystem
begin

text \<open>
  Reading files whole (src/filesystem.c, the functions below the path functions).  What the
  operating system answers is an argument: whether the file can be opened, its bytes, and whether
  it can be positioned in (a pipe cannot).
\<close>

datatype ccfs_mode_t = CCFS_READ | CCFS_WRITE | CCFS_APPEND

definition mode_string :: "ccfs_mode_t \<Rightarrow> byte list" where
  "mode_string mode =
     (case mode of CCFS_READ \<Rightarrow> bytes ''rb'' | CCFS_WRITE \<Rightarrow> bytes ''wb'' | CCFS_APPEND \<Rightarrow> bytes ''ab'')"

record stream =
  s_bytes :: "byte list"
  s_seekable :: bool
  s_pos :: nat

text \<open>\<^term>\<open>fopen\<close> maps a path and a mode string to an open file, or to NULL.\<close>

definition ccfs_file_open :: "(byte list \<Rightarrow> byte list \<Rightarrow> stream option) \<Rightarrow> byte list \<Rightarrow> ccfs_mode_t \<Rightarrow> stream option" where
  "ccfs_file_open fopen path mode = fopen path (mode_string mode)"

text \<open>\<^term>\<open>access\<close> answers as the system call of that name does, 0 for a path that exists.\<close>

definition ccfs_path_exists :: "(byte list \<Rightarrow> int) \<Rightarrow> byte list \<Rightarrow> bool" where
  "ccfs_path_exists access path \<longleftrightarrow> access path = 0"

definition fseek_end :: "stream \<Rightarrow> stream" where
  "fseek_end f = (if s_seekable f then f\<lparr>s_pos := length (s_bytes f)\<rparr> else f)"

definition fseek_start :: "stream \<Rightarrow> stream" where
  "fseek_start f = (if s_seekable f then f\<lparr>s_pos := 0\<rparr> else f)"

text \<open>\<^verbatim>\<open>ftell\<close> answers -1 when the file has no position.\<close>

definition ftell :: "stream \<Rightarrow> size_t" where
  "ftell f = (if s_seekable f then of_nat (s_pos f) else - 1)"

text \<open>Reading n bytes into a block of the heap: at most what is left of the file.\<close>

definition fread :: "heap \<Rightarrow> addr \<Rightarrow> nat \<Rightarrow> stream \<Rightarrow> (heap \<times> stream) res" where
  "fread h p n f =
     (let bs = take n (drop (s_pos f) (s_bytes f)) in
      case (if p = NULL then None else h p) of
        None \<Rightarrow> Inl BadDeref
      | Some b \<Rightarrow>
          if length bs \<le> length b then
            Inr (h(p \<mapsto> map Some bs @ drop (length bs) b), f\<lparr>s_pos := s_pos f + length bs\<rparr>)
          else Inl OutOfBounds)"

text \<open>The result is the block and the size stored through the pointer \<^verbatim>\<open>size\<close>.\<close>

definition ccfs_file_read :: "memory \<Rightarrow> addr \<Rightarrow> stream \<Rightarrow> (memory \<times> addr \<times> size_t) res" where
  "ccfs_file_read m new f =
     (let f = fseek_end f; sz = ftell f; f = fseek_start f in
      bindE (cc_alloc m new (sz + 1)) (\<lambda>(m, data).
      bindE (fread (cc_heap m) data (unat sz) f) (\<lambda>(h, f).
      case h data of
        None \<Rightarrow> Inl BadDeref
      | Some b \<Rightarrow> bindE (wr b (unat sz) 0) (\<lambda>b. Inr (m\<lparr>cc_heap := h(data \<mapsto> b)\<rparr>, data, sz)))))"

definition ccfs_path_read :: "(byte list \<Rightarrow> byte list \<Rightarrow> stream option) \<Rightarrow> memory \<Rightarrow> addr \<Rightarrow> byte list \<Rightarrow>
    (memory \<times> addr \<times> size_t) option res" where
  "ccfs_path_read fopen m new path =
     (case ccfs_file_open fopen path CCFS_READ of
        None \<Rightarrow> Inr None
      | Some f \<Rightarrow> bindE (ccfs_file_read m new f) (\<lambda>r. Inr (Some r)))"

lemma file_read_seekable:
  assumes "cc_alloc_fn m = cc_default_alloc bd" "new \<noteq> NULL" "cc_heap m new = None"
    and "s_seekable f" "length (s_bytes f) < 2 ^ 64 - 1"
  shows "\<exists>m'. ccfs_file_read m new f = Inr (m', new, of_nat (length (s_bytes f))) \<and>
    cc_heap m' = (cc_heap m)(new \<mapsto> cbuf (s_bytes f)) \<and> cc_free m' new = Inr m"
proof -
  let ?n = "of_nat (length (s_bytes f)) :: size_t"
  have n: "unat ?n = length (s_bytes f)" "unat (?n + 1) = Suc (length (s_bytes f))"
    using assms(5) unat_of_nat_small [of "length (s_bytes f)"] by simp_all
  then have "?n + 1 \<noteq> 0"
    by (metis nat.distinct(1) unsigned_0)
  from default.alloc_free [OF assms(1) this assms(2,3)] obtain m1 where m1:
    "cc_alloc m new (?n + 1) = Inr (m1, new)" "cc_heap m1 new = Some (replicate (Suc (length (s_bytes f))) None)"
    by (auto simp: n)
  have m1': "m1 = m\<lparr>cc_heap := (cc_heap m)(new \<mapsto> replicate (Suc (length (s_bytes f))) None)\<rparr>"
    using m1(1) assms(1,2) \<open>?n + 1 \<noteq> 0\<close> by (simp add: cc_alloc_def default.fresh_block n)
  let ?m' = "m\<lparr>cc_heap := (cc_heap m)(new \<mapsto> cbuf (s_bytes f))\<rparr>"
  have rep: "drop k (replicate (Suc k) (None :: byte option)) = [None]" for k
    by (simp only: drop_replicate) simp
  have "ccfs_file_read m new f = Inr (?m', new, ?n)"
    using assms m1 n rep [of "length (s_bytes f)"] by (simp add: ccfs_file_read_def fseek_end_def fseek_start_def ftell_def fread_def wr_def cbuf_def
        Let_def m1' list_update_append)
  moreover have "cc_free ?m' new = Inr m"
    using default.free_block [of "cc_heap ?m'" new bd NULL] assms by (auto simp: cc_free_def fun_upd_idem)
  ultimately show ?thesis by auto
qed

text \<open>
  Reading a file by its path gives a new block that holds exactly its bytes and a NUL, and their
  number, so that a text without NUL bytes is the C string in the block; freeing the block leaves
  the heap as it was.  A file that cannot be opened gives NULL.
\<close>

theorem path_read_gives_contents:
  assumes "cc_alloc_fn m = cc_default_alloc bd" "new \<noteq> NULL" "cc_heap m new = None"
    and "\<forall>f. fopen path (bytes ''rb'') = Some f \<longrightarrow> s_seekable f \<and> length (s_bytes f) < 2 ^ 64 - 1"
  shows "case fopen path (bytes ''rb'') of
      None \<Rightarrow> ccfs_path_read fopen m new path = Inr None
    | Some f \<Rightarrow> \<exists>m'. ccfs_path_read fopen m new path = Inr (Some (m', new, of_nat (length (s_bytes f)))) \<and>
        cc_heap m' new = Some (cbuf (s_bytes f)) \<and> cc_free m' new = Inr m \<and>
        (is_cstr (s_bytes f) \<longrightarrow> read_str (the (cc_heap m' new)) = Inr (s_bytes f))"
proof (cases "fopen path (bytes ''rb'')")
  case None
  then show ?thesis by (simp add: ccfs_path_read_def ccfs_file_open_def mode_string_def)
next
  case (Some f)
  then obtain m' where "ccfs_file_read m new f = Inr (m', new, of_nat (length (s_bytes f)))"
    "cc_heap m' = (cc_heap m)(new \<mapsto> cbuf (s_bytes f))" "cc_free m' new = Inr m"
    using file_read_seekable [OF assms(1-3)] assms(4) by blast
  then show ?thesis
    by (simp add: Some ccfs_path_read_def ccfs_file_open_def mode_string_def)
qed

definition hello :: "byte list \<Rightarrow> byte list \<Rightarrow> stream option" where
  "hello path mode = (if path = bytes ''a'' then Some \<lparr>s_bytes = bytes ''hi'', s_seekable = True, s_pos = 0\<rparr> else None)"

theorem path_read_gives_contents_witness:
  "\<exists>m'. ccfs_path_read hello (memory_start Debug) 8 (bytes ''a'') = Inr (Some (m', 8, 2)) \<and>
     cc_heap m' 8 = Some (cbuf (bytes ''hi''))"
  using path_read_gives_contents [of "memory_start Debug" Debug 8 hello "bytes ''a''"]
  by (auto simp: hello_def memory_start_def bytes_def)

text \<open>
  The size of a file without a position, a pipe for instance, is taken to be 2^64 - 1: the block
  asked for has size 0, the allocator answers NULL, and the file is read into it.
\<close>

theorem pipe_is_read_into_null:
  assumes "cc_alloc_fn m = cc_default_alloc bd" "\<not> s_seekable f"
  shows "ccfs_file_read m new f = Inl BadDeref"
  using assms by (simp add: ccfs_file_read_def fseek_end_def fseek_start_def ftell_def fread_def cc_alloc_def
      default.free_null Let_def)

theorem pipe_is_read_into_null_witness:
  "ccfs_file_read (memory_start NDebug) 8 \<lparr>s_bytes = bytes ''hi'', s_seekable = False, s_pos = 0\<rparr> = Inl BadDeref"
  by (rule pipe_is_read_into_null [of _ NDebug]) (simp_all add: memory_start_def)

end
