(* ===== verification/CC_Value.thy ===== *)
theory CC_Value
  imports CC_Prelude
begin

text \<open>
  Tagged values and the object chain of the collector (src/value.c, include/ccore/value.h).  The
  union of a value is the 64 bits its members share: an \<^verbatim>\<open>int64_t\<close> in two's complement,
  the bits of a double, or a pointer.  The heap maps the address of each live object to its
  header; \<^verbatim>\<open>cc_alloc\<close> is represented by the address it returned.
\<close>

section \<open>Tagged values\<close>

datatype value_kind = VALUE_NIL | VALUE_BOOL | VALUE_INT | VALUE_FLOAT | VALUE_STRING | VALUE_REF

record value_t =
  v_kind :: value_kind
  v_bits :: "64 word"

definition val_nil :: value_t where
  "val_nil = \<lparr>v_kind = VALUE_NIL, v_bits = NULL\<rparr>"

definition val_bool :: "bool \<Rightarrow> value_t" where
  "val_bool b = \<lparr>v_kind = VALUE_BOOL, v_bits = (if b then 1 else 0)\<rparr>"

definition val_int :: "int \<Rightarrow> value_t" where
  "val_int i = \<lparr>v_kind = VALUE_INT, v_bits = word_of_int i\<rparr>"

definition val_float :: "64 word \<Rightarrow> value_t" where
  "val_float f = \<lparr>v_kind = VALUE_FLOAT, v_bits = f\<rparr>"

definition val_string :: "addr \<Rightarrow> value_t" where
  "val_string s = \<lparr>v_kind = VALUE_STRING, v_bits = s\<rparr>"

definition val_ref :: "addr \<Rightarrow> value_t" where
  "val_ref ref = \<lparr>v_kind = VALUE_REF, v_bits = ref\<rparr>"

definition as_bool :: "build \<Rightarrow> value_t \<Rightarrow> bool res" where
  "as_bool bd v = bindE (ccassert bd (v_kind v = VALUE_BOOL)) (\<lambda>_. Inr (sint (v_bits v) \<noteq> 0))"

definition as_int :: "build \<Rightarrow> value_t \<Rightarrow> int res" where
  "as_int bd v = bindE (ccassert bd (v_kind v = VALUE_INT)) (\<lambda>_. Inr (sint (v_bits v)))"

definition as_float :: "build \<Rightarrow> value_t \<Rightarrow> 64 word res" where
  "as_float bd v = bindE (ccassert bd (v_kind v = VALUE_FLOAT)) (\<lambda>_. Inr (v_bits v))"

definition as_string :: "build \<Rightarrow> value_t \<Rightarrow> addr res" where
  "as_string bd v = bindE (ccassert bd (v_kind v = VALUE_STRING)) (\<lambda>_. Inr (v_bits v))"

definition as_ref :: "build \<Rightarrow> value_t \<Rightarrow> addr res" where
  "as_ref bd v = bindE (ccassert bd (v_kind v = VALUE_REF)) (\<lambda>_. Inr (v_bits v))"

section \<open>The object chain\<close>

record object_t =
  o_kind :: "32 word"
  o_next :: addr
  o_is_marked :: bool

record obj_gc =
  mark_flag :: bool
  gc_head :: addr
  allocated :: size_t
  next_collect :: size_t

type_synonym oheap = "addr \<rightharpoonup> object_t"

definition GC_INITIAL_THRESHOLD :: size_t where
  "GC_INITIAL_THRESHOLD = 128"

text \<open>\<^verbatim>\<open>sizeof(object_t)\<close>: an enum, a pointer and a bool, aligned to 8.\<close>

definition sizeof_object :: size_t where
  "sizeof_object = 24"

definition gc_init :: obj_gc where
  "gc_init = \<lparr>mark_flag = True, gc_head = NULL, allocated = 0, next_collect = GC_INITIAL_THRESHOLD\<rparr>"

text \<open>
  The loops over the chain follow \<^verbatim>\<open>next\<close> until a null pointer; \<^const>\<open>None\<close> is a loop
  that never ends.
\<close>

partial_function (option) free_chain :: "oheap \<Rightarrow> addr \<Rightarrow> oheap res option" where
  "free_chain h obj =
     (if obj = NULL then Some (Inr h)
      else case h obj of
        None \<Rightarrow> Some (Inl BadDeref)
      | Some ob \<Rightarrow> free_chain (h(obj := None)) (o_next ob))"

definition gc_deinit :: "oheap \<Rightarrow> obj_gc \<Rightarrow> (oheap \<times> obj_gc) res option" where
  "gc_deinit h gc =
     map_option (\<lambda>r. bindE r (\<lambda>h'. Inr (h', gc_init))) (free_chain h (gc_head gc))"

partial_function (option) mark_chain :: "oheap \<Rightarrow> addr \<Rightarrow> unit res option" where
  "mark_chain h obj =
     (if obj = NULL then Some (Inr ())
      else case h obj of
        None \<Rightarrow> Some (Inl BadDeref)
      | Some ob \<Rightarrow> mark_chain h (o_next ob))"

definition gc_collect :: "oheap \<Rightarrow> obj_gc \<Rightarrow> (oheap \<times> obj_gc) res option" where
  "gc_collect h gc = map_option (\<lambda>r. bindE r (\<lambda>_. Inr (h, gc))) (mark_chain h (gc_head gc))"

definition gc_new :: "build \<Rightarrow> addr \<Rightarrow> size_t \<Rightarrow> 32 word \<Rightarrow> oheap \<times> obj_gc \<Rightarrow>
    (oheap \<times> obj_gc) res option" where
  "gc_new bd obj sz kind s =
     (case ccassert bd (sz > sizeof_object) of
        Inl e \<Rightarrow> Some (Inl e)
      | Inr _ \<Rightarrow>
          let (h, gc) = s;
              gc = gc\<lparr>allocated := allocated gc + 1\<rparr> in
          map_option
            (\<lambda>r. bindE r (\<lambda>(h, gc).
               Inr (h(obj \<mapsto> \<lparr>o_kind = kind, o_next = gc_head gc, o_is_marked = \<not> mark_flag gc\<rparr>),
                    gc\<lparr>gc_head := obj\<rparr>)))
            (if allocated gc > next_collect gc then gc_collect h gc else Some (Inr (h, gc))))"

fun gc_news :: "build \<Rightarrow> (addr \<times> size_t \<times> 32 word) list \<Rightarrow> oheap \<times> obj_gc \<Rightarrow>
    (oheap \<times> obj_gc) res option" where
  "gc_news bd [] s = Some (Inr s)"
| "gc_news bd ((obj, sz, kind) # rs) s =
     (case gc_new bd obj sz kind s of
        Some (Inr s') \<Rightarrow> gc_news bd rs s'
      | r \<Rightarrow> r)"

section \<open>The chain as a sequence of objects\<close>

fun chain :: "oheap \<Rightarrow> addr \<Rightarrow> addr list \<Rightarrow> bool" where
  "chain h p [] \<longleftrightarrow> p = NULL"
| "chain h p (a # as) \<longleftrightarrow> p = a \<and> a \<noteq> NULL \<and> (\<exists>ob. h a = Some ob \<and> chain h (o_next ob) as)"

definition wf_gc :: "oheap \<Rightarrow> obj_gc \<Rightarrow> addr list \<Rightarrow> bool" where
  "wf_gc h gc objs \<longleftrightarrow> chain h (gc_head gc) objs \<and> distinct objs \<and>
     allocated gc = of_nat (length objs) \<and> next_collect gc = GC_INITIAL_THRESHOLD \<and> mark_flag gc"

lemma chain_frame: "a \<notin> set objs \<Longrightarrow> chain (h(a := v)) p objs = chain h p objs"
  by (induction objs arbitrary: p) auto

lemma chain_mapped: "chain h p objs \<Longrightarrow> set objs \<subseteq> dom h"
  by (induction objs arbitrary: p) auto

lemma mark_chain_chain: "chain h p objs \<Longrightarrow> mark_chain h p = Some (Inr ())"
  by (induction objs arbitrary: p) (auto simp: mark_chain.simps)

lemma free_chain_chain:
  "chain h p objs \<Longrightarrow> distinct objs \<Longrightarrow> free_chain h p = Some (Inr (h |` (- set objs)))"
proof (induction objs arbitrary: h p)
  case Nil
  then show ?case by (simp add: free_chain.simps)
next
  case (Cons a objs)
  then obtain ob where ob: "p = a" "a \<noteq> NULL" "h a = Some ob" "chain h (o_next ob) objs"
    by auto
  have "free_chain (h(a := None)) (o_next ob) = Some (Inr ((h(a := None)) |` (- set objs)))"
    by (rule Cons.IH) (use Cons.prems ob in \<open>simp_all add: chain_frame del: fun_upd_apply\<close>)
  moreover have "(h(a := None)) |` (- set objs) = h |` (- set (a # objs))"
    by (auto simp: restrict_map_def fun_eq_iff)
  ultimately show ?case
    using ob by (simp add: free_chain.simps [of h a])
qed

lemma wf_gc_init: "wf_gc h gc_init []"
  by (simp add: wf_gc_def gc_init_def)

lemma gc_collect_wf: "chain h (gc_head gc) objs \<Longrightarrow> gc_collect h gc = Some (Inr (h, gc))"
  by (simp add: gc_collect_def mark_chain_chain)

lemma gc_new_wf:
  assumes "wf_gc h gc objs" "obj \<noteq> NULL" "obj \<notin> dom h" "sz > sizeof_object"
  shows "\<exists>gc'. gc_new bd obj sz kind (h, gc) =
      Some (Inr (h(obj \<mapsto> \<lparr>o_kind = kind, o_next = gc_head gc, o_is_marked = False\<rparr>), gc')) \<and>
    wf_gc (h(obj \<mapsto> \<lparr>o_kind = kind, o_next = gc_head gc, o_is_marked = False\<rparr>)) gc' (obj # objs)"
proof -
  have fresh: "obj \<notin> set objs"
    using assms(1,3) chain_mapped by (auto simp: wf_gc_def)
  let ?gc = "gc\<lparr>allocated := allocated gc + 1\<rparr>"
  have "(if allocated ?gc > next_collect ?gc then gc_collect h ?gc else Some (Inr (h, ?gc))) =
      Some (Inr (h, ?gc))"
    using assms(1) gc_collect_wf [of h ?gc objs] by (simp add: wf_gc_def)
  then show ?thesis
    using assms fresh
    by (simp add: gc_new_def Let_def wf_gc_def chain_frame del: if_cancel split del: if_split)
qed

lemma gc_news_wf:
  assumes "wf_gc h gc objs" "distinct (map fst rs)"
    "\<forall>(obj, sz, kind) \<in> set rs. obj \<noteq> NULL \<and> obj \<notin> dom h \<and> sz > sizeof_object"
  shows "\<exists>h' gc'. gc_news bd rs (h, gc) = Some (Inr (h', gc')) \<and>
    wf_gc h' gc' (rev (map fst rs) @ objs) \<and> dom h' = dom h \<union> fst ` set rs \<and>
    (\<forall>a. a \<notin> fst ` set rs \<longrightarrow> h' a = h a)"
  using assms
proof (induction rs arbitrary: h gc objs)
  case (Cons r rs)
  obtain obj sz kind where r: "r = (obj, sz, kind)" by (cases r)
  let ?h = "h(obj \<mapsto> \<lparr>o_kind = kind, o_next = gc_head gc, o_is_marked = False\<rparr>)"
  obtain gc1 where 1: "gc_new bd obj sz kind (h, gc) = Some (Inr (?h, gc1))" "wf_gc ?h gc1 (obj # objs)"
    using gc_new_wf [OF Cons.prems(1), of obj sz bd kind] Cons.prems(3) by (auto simp: r)
  have "\<exists>h' gc'. gc_news bd rs (?h, gc1) = Some (Inr (h', gc')) \<and>
      wf_gc h' gc' (rev (map fst rs) @ obj # objs) \<and> dom h' = dom ?h \<union> fst ` set rs \<and>
      (\<forall>a. a \<notin> fst ` set rs \<longrightarrow> h' a = ?h a)"
    by (rule Cons.IH [OF 1(2)]) (use Cons.prems(2,3) r in \<open>force+\<close>)
  with 1(1) show ?case
    by (auto simp: r)
qed simp

section \<open>Properties\<close>

text \<open>
  Every accessor gives back what the constructor of its kind stored, in either build (integers
  over the whole range of \<^verbatim>\<open>int64_t\<close>), and in a debug build every accessor stops at an
  assertion on a value of another kind.
\<close>

theorem value_accessors:
  "as_bool bd (val_bool b) = Inr b \<and>
   (- (2 ^ 63) \<le> i \<and> i < 2 ^ 63 \<longrightarrow> as_int bd (val_int i) = Inr i) \<and>
   as_float bd (val_float f) = Inr f \<and>
   as_string bd (val_string p) = Inr p \<and> as_ref bd (val_ref p) = Inr p \<and>
   (v_kind v \<noteq> VALUE_BOOL \<longrightarrow> as_bool Debug v = Inl AssertFail) \<and>
   (v_kind v \<noteq> VALUE_INT \<longrightarrow> as_int Debug v = Inl AssertFail) \<and>
   (v_kind v \<noteq> VALUE_FLOAT \<longrightarrow> as_float Debug v = Inl AssertFail) \<and>
   (v_kind v \<noteq> VALUE_STRING \<longrightarrow> as_string Debug v = Inl AssertFail) \<and>
   (v_kind v \<noteq> VALUE_REF \<longrightarrow> as_ref Debug v = Inl AssertFail)"
proof -
  have "sint (word_of_int i :: 64 word) = i" if "- (2 ^ 63) \<le> i \<and> i < 2 ^ 63"
    using that by (simp add: sint_sbintrunc' signed_take_bit_int_eq_self)
  then show ?thesis
    by (simp add: as_bool_def val_bool_def as_int_def val_int_def as_float_def val_float_def
        as_string_def val_string_def as_ref_def val_ref_def)
qed

theorem value_accessors_witness:
  "as_int Debug (val_int (- 5)) = Inr (- 5) \<and> as_int Debug (val_bool True) = Inl AssertFail"
  using value_accessors [of Debug True "- 5" 0 0 "val_bool True"] by (simp add: val_bool_def)



text \<open>
  A collection ends on every well-formed chain but reclaims nothing: heap and collector are
  unchanged, whatever the number of objects.  The threshold is never raised either, so once more
  than 128 objects have been made, making one more walks the whole chain and still only adds an
  object.
\<close>

theorem gc_collect_reclaims_nothing:
  assumes "wf_gc h gc objs" "obj \<noteq> NULL" "obj \<notin> dom h" "sz > sizeof_object"
  shows "gc_collect h gc = Some (Inr (h, gc)) \<and>
    (\<exists>h' gc'. gc_new bd obj sz kind (h, gc) = Some (Inr (h', gc')) \<and>
       wf_gc h' gc' (obj # objs) \<and> dom h' = insert obj (dom h) \<and> next_collect gc' = 128)"
  using gc_new_wf [OF assms, of bd kind] assms(1) gc_collect_wf [of h gc objs]
  by (auto simp: wf_gc_def GC_INITIAL_THRESHOLD_def)

theorem gc_collect_reclaims_nothing_witness:
  "\<exists>h' gc'. gc_new Debug 64 32 0 (Map.empty, gc_init) = Some (Inr (h', gc')) \<and>
    wf_gc h' gc' [64] \<and> dom h' = {64} \<and> next_collect gc' = 128"
  using gc_collect_reclaims_nothing [OF wf_gc_init, of 64 Map.empty 32 Debug 0]
  by (auto simp: sizeof_object_def)

end
