(* ===== verification/CC_Float.thy ===== *)
theory CC_Float
  imports CC_Buffer Complex_Main "HOL-Library.Log_Nat"
begin

text \<open>
  IEEE 754 binary floating point, as far as the sources compute with it: a finite number is a sign
  and an exact rational magnitude (so that the two zeros differ), a format is its precision and
  its exponent range, and every operation rounds its exact result to nearest, ties to even.  The
  conversions of C between floating point and integers, and \<^verbatim>\<open>atof\<close>, are here too.
\<close>

section \<open>Numbers and rounding\<close>

datatype fp = Finite bool rat | Infinite bool | NaN

text \<open>The exponent of a positive rational r: 2^e \<le> r < 2^(e+1).\<close>

definition exponent :: "rat \<Rightarrow> int" where
  "exponent r =
     (let (a, b) = quotient_of r; e = bitlen a - bitlen b in
      if power_int 2 e \<le> r then e else e - 1)"

text \<open>Rounding to the nearest integer, ties to even.\<close>

definition rne :: "rat \<Rightarrow> int" where
  "rne q =
     (let n = floor q; d = q - of_int n in
      if d < 1 / 2 \<or> (d = 1 / 2 \<and> even n) then n else n + 1)"

record fp_format =
  precision :: int
  min_exponent :: int
  max_exponent :: int

definition binary64 :: fp_format where
  "binary64 = \<lparr>precision = 53, min_exponent = - 1022, max_exponent = 1023\<rparr>"

definition binary32 :: fp_format where
  "binary32 = \<lparr>precision = 24, min_exponent = - 126, max_exponent = 127\<rparr>"

text \<open>The unit in the last place of a number of the format; subnormals share the smallest one.\<close>

definition ulp_exponent :: "fp_format \<Rightarrow> rat \<Rightarrow> int" where
  "ulp_exponent f r = max (exponent r) (min_exponent f) - (precision f - 1)"

definition fp_round :: "fp_format \<Rightarrow> bool \<Rightarrow> rat \<Rightarrow> fp" where
  "fp_round f neg r =
     (if r = 0 then Finite neg 0
      else let u = power_int 2 (ulp_exponent f r); v = of_int (rne (r / u)) * u in
        if power_int 2 (max_exponent f + 1) \<le> v then Infinite neg else Finite neg v)"

text \<open>Conversion to another format, and comparison with zero.\<close>

definition fp_convert :: "fp_format \<Rightarrow> fp \<Rightarrow> fp" where
  "fp_convert f x = (case x of Finite neg r \<Rightarrow> fp_round f neg r | _ \<Rightarrow> x)"

definition fp_nonzero :: "fp \<Rightarrow> bool" where
  "fp_nonzero x = (case x of Finite neg r \<Rightarrow> r \<noteq> 0 | _ \<Rightarrow> True)"

text \<open>
  Conversion to an integer type drops the fraction; it is undefined when the result is not of the
  type.
\<close>

definition fp_truncate :: "fp \<Rightarrow> int \<Rightarrow> int \<Rightarrow> int res" where
  "fp_truncate x lo hi =
     (case x of
        Finite neg r \<Rightarrow>
          let t = (if neg then - floor r else floor r) in
          if lo \<le> t \<and> t < hi then Inr t else Inl BadConversion
      | _ \<Rightarrow> Inl BadConversion)"

definition fp_to_int :: "fp \<Rightarrow> int res" where
  "fp_to_int x = fp_truncate x (- (2 ^ 31)) (2 ^ 31)"

definition fp_to_int64 :: "fp \<Rightarrow> int res" where
  "fp_to_int64 x = fp_truncate x (- (2 ^ 63)) (2 ^ 63)"

section \<open>Arithmetic\<close>

definition signed_value :: "bool \<Rightarrow> rat \<Rightarrow> rat" where
  "signed_value neg r = (if neg then - r else r)"

definition fp_neg :: "fp \<Rightarrow> fp" where
  "fp_neg x =
     (case x of Finite neg r \<Rightarrow> Finite (\<not> neg) r | Infinite neg \<Rightarrow> Infinite (\<not> neg) | NaN \<Rightarrow> NaN)"

definition fp_add :: "fp_format \<Rightarrow> fp \<Rightarrow> fp \<Rightarrow> fp" where
  "fp_add f x y =
     (case (x, y) of
        (Finite a r, Finite b q) \<Rightarrow>
          let v = signed_value a r + signed_value b q in
          if v = 0 then Finite (a \<and> b) 0 else fp_round f (v < 0) \<bar>v\<bar>
      | (Infinite a, Infinite b) \<Rightarrow> if a = b then Infinite a else NaN
      | (Infinite a, Finite b q) \<Rightarrow> Infinite a
      | (Finite a r, Infinite b) \<Rightarrow> Infinite b
      | _ \<Rightarrow> NaN)"

definition fp_sub :: "fp_format \<Rightarrow> fp \<Rightarrow> fp \<Rightarrow> fp" where
  "fp_sub f x y = fp_add f x (fp_neg y)"

definition fp_mul :: "fp_format \<Rightarrow> fp \<Rightarrow> fp \<Rightarrow> fp" where
  "fp_mul f x y =
     (case (x, y) of
        (Finite a r, Finite b q) \<Rightarrow> fp_round f (a \<noteq> b) (r * q)
      | (Infinite a, Infinite b) \<Rightarrow> Infinite (a \<noteq> b)
      | (Infinite a, Finite b q) \<Rightarrow> if q = 0 then NaN else Infinite (a \<noteq> b)
      | (Finite a r, Infinite b) \<Rightarrow> if r = 0 then NaN else Infinite (a \<noteq> b)
      | _ \<Rightarrow> NaN)"

definition fp_div :: "fp_format \<Rightarrow> fp \<Rightarrow> fp \<Rightarrow> fp" where
  "fp_div f x y =
     (case (x, y) of
        (Finite a r, Finite b q) \<Rightarrow>
          if q = 0 then (if r = 0 then NaN else Infinite (a \<noteq> b)) else fp_round f (a \<noteq> b) (r / q)
      | (Infinite a, Finite b q) \<Rightarrow> Infinite (a \<noteq> b)
      | (Finite a r, Infinite b) \<Rightarrow> Finite (a \<noteq> b) 0
      | _ \<Rightarrow> NaN)"

text \<open>Comparisons are false on NaN, and the two zeros are equal.\<close>

named_theorems fp_cmp "definitions of the comparisons"

definition fp_less :: "fp \<Rightarrow> fp \<Rightarrow> bool" where
  "fp_less x y =
     (case (x, y) of
        (Finite a r, Finite b q) \<Rightarrow> signed_value a r < signed_value b q
      | (Infinite a, Infinite b) \<Rightarrow> a \<and> \<not> b
      | (Infinite a, Finite b q) \<Rightarrow> a
      | (Finite a r, Infinite b) \<Rightarrow> \<not> b
      | _ \<Rightarrow> False)"

definition fp_isnan :: "fp \<Rightarrow> bool" where
  "fp_isnan x \<longleftrightarrow> x = NaN"

definition fp_eq :: "fp \<Rightarrow> fp \<Rightarrow> bool" where
  "fp_eq x y =
     (case (x, y) of
        (Finite a r, Finite b q) \<Rightarrow> signed_value a r = signed_value b q
      | (Infinite a, Infinite b) \<Rightarrow> a = b
      | _ \<Rightarrow> False)"

definition fp_le :: "fp \<Rightarrow> fp \<Rightarrow> bool" where
  "fp_le x y \<longleftrightarrow> fp_less x y \<or> fp_eq x y"

declare fp_less_def [fp_cmp] fp_eq_def [fp_cmp] fp_le_def [fp_cmp] signed_value_def [fp_cmp]

definition fp_abs :: "fp \<Rightarrow> fp" where
  "fp_abs x = (case x of Finite neg r \<Rightarrow> Finite False r | Infinite neg \<Rightarrow> Infinite False | NaN \<Rightarrow> NaN)"

text \<open>
  The correctly rounded square root: the root of r in units of the last place of the result, which
  has half the exponent of r; no root of a number of the format lies half way between two others.
\<close>

function isqrt :: "int \<Rightarrow> int" where
  "isqrt n =
     (if n \<le> 0 then 0
      else let r = 2 * isqrt (n div 4) in if (r + 1) * (r + 1) \<le> n then r + 1 else r)"
  by auto
termination
  by (relation "measure nat") auto

declare isqrt.simps [simp del]

definition fp_sqrt :: "fp_format \<Rightarrow> fp \<Rightarrow> fp" where
  "fp_sqrt f x =
     (case x of
        Finite neg r \<Rightarrow>
          if r = 0 then Finite neg 0
          else if neg then NaN
          else
            let e = exponent r div 2 - (precision f - 1);
                q = r / power_int 2 (2 * e);
                n = isqrt (floor q) in
            Finite False (of_int (if q \<le> of_int n * of_int n + of_int n + 1 / 4 then n else n + 1) * power_int 2 e)
      | Infinite neg \<Rightarrow> if neg then NaN else Infinite False
      | NaN \<Rightarrow> NaN)"

text \<open>Conversion of an integer to a format.\<close>

definition fp_of_int :: "fp_format \<Rightarrow> int \<Rightarrow> fp" where
  "fp_of_int f n = fp_round f (n < 0) \<bar>of_int n\<bar>"

section \<open>Reading numbers\<close>

definition isxdigit :: "byte \<Rightarrow> bool" where
  "isxdigit c \<longleftrightarrow> isdigit c \<or> (97 \<le> c \<and> c \<le> 102) \<or> (65 \<le> c \<and> c \<le> 70)"

definition digit_val :: "byte \<Rightarrow> nat" where
  "digit_val c = (if isdigit c then unat c - 48 else if 97 \<le> c then unat c - 87 else unat c - 55)"

definition digits_val :: "nat \<Rightarrow> byte list \<Rightarrow> nat" where
  "digits_val base ds = foldl (\<lambda>n c. n * base + digit_val c) 0 ds"

text \<open>Digits, optionally a point and more digits; what follows is left.\<close>

definition scan_digits :: "(byte \<Rightarrow> bool) \<Rightarrow> byte list \<Rightarrow> byte list \<times> byte list \<times> byte list" where
  "scan_digits cls s =
     (let ip = takeWhile cls s; r = dropWhile cls s in
      case r of
        c # t \<Rightarrow> if c = 46 then (ip, takeWhile cls t, dropWhile cls t) else (ip, [], r)
      | [] \<Rightarrow> (ip, [], r))"

definition scan_sign :: "byte list \<Rightarrow> bool \<times> byte list" where
  "scan_sign s =
     (case s of
        c # t \<Rightarrow> if c = 45 then (True, t) else if c = 43 then (False, t) else (False, s)
      | [] \<Rightarrow> (False, s))"

text \<open>The exponent part counts only if it has a digit.\<close>

definition scan_exponent :: "byte \<Rightarrow> byte \<Rightarrow> byte list \<Rightarrow> int" where
  "scan_exponent lower upper s =
     (case s of
        c # t \<Rightarrow>
          if c = lower \<or> c = upper then
            let (neg, t) = scan_sign t; e = int (digits_val 10 (takeWhile isdigit t)) in
            if neg then - e else e
          else 0
      | [] \<Rightarrow> 0)"

definition decimal_value :: "byte list \<Rightarrow> rat option" where
  "decimal_value s =
     (let (ip, frac, r) = scan_digits isdigit s in
      if ip @ frac = [] then None
      else Some (of_nat (digits_val 10 (ip @ frac)) *
        power_int 10 (scan_exponent 101 69 r - int (length frac))))"

definition hex_value :: "byte list \<Rightarrow> rat option" where
  "hex_value s =
     (let (ip, frac, r) = scan_digits isxdigit s in
      if ip @ frac = [] then None
      else Some (of_nat (digits_val 16 (ip @ frac)) *
        power_int 2 (scan_exponent 112 80 r - 4 * int (length frac))))"

text \<open>
  \<^verbatim>\<open>atof\<close> in the C locale, on a text that starts with an optional sign and a digit or a
  point (the sources call it on no other): a hexadecimal number after \<^verbatim>\<open>0x\<close>, or a decimal
  one, the longest prefix that is a number; 0 when there is none.
\<close>

definition atof :: "byte list \<Rightarrow> fp" where
  "atof s =
     (let (neg, t) = scan_sign s;
          hex = (case t of
                   z # x # t' \<Rightarrow> if z = 48 \<and> (x = 120 \<or> x = 88) then hex_value t' else None
                 | _ \<Rightarrow> None) in
      case hex of
        Some r \<Rightarrow> fp_round binary64 neg r
      | None \<Rightarrow>
          (case decimal_value t of
             Some r \<Rightarrow> fp_round binary64 neg r
           | None \<Rightarrow> Finite False 0))"

section \<open>Rounding is exact on small integers\<close>

lemma exponent_of_nat:
  assumes "0 < n"
  shows "exponent (of_nat n) = bitlen (int n) - 1"
proof -
  have b: "2 ^ nat (bitlen (int n) - 1) \<le> int n"
    using bitlen_bounds [of "int n"] assms by simp
  have "0 \<le> bitlen (int n) - 1"
    using bitlen_le_iff_power [of "int n" 0] assms by auto
  then have "power_int 2 (bitlen (int n) - 1) = (2 :: rat) ^ nat (bitlen (int n) - 1)"
    by (simp add: power_int_nonneg_exp)
  also have "\<dots> \<le> of_nat n"
    using b of_int_le_iff [where 'a = rat, of "2 ^ nat (bitlen (int n) - 1)" "int n"] by simp
  finally have "power_int 2 (bitlen (int n) - 1) \<le> (of_nat n :: rat)" .
  moreover have "quotient_of (of_nat n) = (int n, 1)"
    using quotient_of_int [of "int n"] by (simp add: of_int_of_nat_eq Rat.of_int_def)
  moreover have "bitlen 1 = 1"
    by (simp add: bitlen_alt_def)
  ultimately show ?thesis
    by (simp add: exponent_def Let_def)
qed

lemma rne_of_int [simp]: "rne (of_int n) = n"
  by (simp add: rne_def)

lemma fp_round_sign: "fp_round f neg r = Finite neg q \<longleftrightarrow> fp_round f False r = Finite False q"
  by (simp add: fp_round_def Let_def)

lemma fp_round_exact:
  assumes "precision f = int p" "n < 2 ^ p" "min_exponent f \<le> 0" "int p \<le> max_exponent f"
  shows "fp_round f neg (of_nat n) = Finite neg (of_nat n)"
proof (cases "n = 0")
  case False
  define e where "e = bitlen (int n) - 1"
  have "int n < 2 ^ p"
    using assms(2) by (simp flip: of_nat_less_iff)
  then have len: "bitlen (int n) \<le> int p"
    by (simp add: bitlen_le_iff_power)
  have len1: "1 \<le> bitlen (int n)"
    using False bitlen_le_iff_power [of "int n" 0] by auto
  have "exponent (of_nat n) = e"
    using exponent_of_nat False by (simp add: e_def)
  then have "ulp_exponent f (of_nat n) = e - (int p - 1)"
    using assms(1,3) len1 by (simp add: ulp_exponent_def e_def)
  then obtain k where u: "ulp_exponent f (of_nat n) = - int k"
    using len by (intro that [of "nat (int p - 1 - e)"]) (simp add: e_def)
  have p: "power_int 2 (- int k) = 1 / (2 :: rat) ^ k"
    by (simp add: power_int_minus_divide)
  have "rne (of_nat n / (1 / 2 ^ k)) = int n * 2 ^ k"
    using rne_of_int [of "int n * 2 ^ k"] by simp
  moreover have "\<not> power_int 2 (max_exponent f + 1) \<le> (of_nat n :: rat)"
  proof -
    have "of_nat n < (of_nat (2 ^ p) :: rat)"
      using assms(2) by (simp only: of_nat_less_iff)
    also have "\<dots> = power_int 2 (int p)"
      by simp
    also have "\<dots> \<le> power_int 2 (max_exponent f + 1)"
      using assms(4) by (intro power_int_increasing) auto
    finally show ?thesis by simp
  qed
  ultimately show ?thesis
    using False by (simp add: fp_round_def u p Let_def)
qed (simp add: fp_round_def)

lemma fp_round_small: "n < 2 ^ 53 \<Longrightarrow> fp_round binary64 neg (of_nat n) = Finite neg (of_nat n)"
  by (rule fp_round_exact [of _ 53]) (simp_all add: binary64_def)

lemma fp_round_small32: "n < 2 ^ 24 \<Longrightarrow> fp_round binary32 neg (of_nat n) = Finite neg (of_nat n)"
  by (rule fp_round_exact [of _ 24]) (simp_all add: binary32_def)

section \<open>Reading small integers back\<close>

lemma digits_val_snoc: "digits_val b (ds @ [d]) = digits_val b ds * b + digit_val d"
  by (simp add: digits_val_def)

lemma decimal_value_digits:
  assumes "list_all isdigit ds" "ds \<noteq> []" "case r of [] \<Rightarrow> True | c # _ \<Rightarrow> \<not> isdigit c \<and> c \<noteq> 46 \<and> c \<noteq> 101 \<and> c \<noteq> 69"
  shows "decimal_value (ds @ r) = Some (of_nat (digits_val 10 ds))"
proof -
  have "takeWhile isdigit (ds @ r) = ds" "dropWhile isdigit (ds @ r) = r"
    using assms(1,3) by (auto simp: takeWhile_append dropWhile_append list_all_iff split: list.splits)
  then have "scan_digits isdigit (ds @ r) = (ds, [], r)"
    using assms(3) by (auto simp: scan_digits_def Let_def split: list.splits)
  moreover have "scan_exponent 101 69 r = 0"
    using assms(3) by (auto simp: scan_exponent_def split: list.splits)
  ultimately show ?thesis
    using assms(2) by (simp add: decimal_value_def)
qed

section \<open>Rounding does not cross an integer it is not next to\<close>

lemma exponent_le:
  assumes "0 < r"
  shows "power_int 2 (exponent r) \<le> r"
proof -
  obtain a b where ab: "quotient_of r = (a, b)" by (cases "quotient_of r")
  then have b: "0 < b" and r: "r = of_int a / of_int b"
    using quotient_of_denom_pos quotient_of_div by auto
  then have a: "0 < a"
    using assms by (simp add: zero_less_divide_iff)
  define e where "e = bitlen a - bitlen b"
  have "power_int 2 (e - 1) \<le> r"
  proof -
    have len: "1 \<le> bitlen a" "1 \<le> bitlen b"
      using a b bitlen_le_iff_power [of a 0] bitlen_le_iff_power [of b 0] by auto
    have "of_int (2 ^ nat (bitlen a - 1)) \<le> (of_int a :: rat)" "of_int b \<le> (of_int (2 ^ nat (bitlen b)) :: rat)"
      using bitlen_bounds [OF a] bitlen_bounds [OF b] by (simp_all only: of_int_le_iff) auto
    then have *: "power_int 2 (bitlen a - 1) \<le> (of_int a :: rat)" "of_int b \<le> (power_int 2 (bitlen b) :: rat)"
      using len by (simp_all add: power_int_nonneg_exp)
    have "power_int 2 (e - 1) = power_int 2 (bitlen a - 1) / (power_int 2 (bitlen b) :: rat)"
      by (simp add: e_def flip: power_int_diff) (simp add: algebra_simps)
    also have "\<dots> \<le> of_int a / of_int b"
      using * a b by (intro frac_le) auto
    finally show ?thesis by (simp add: r)
  qed
  then show ?thesis
    by (simp add: exponent_def ab Let_def flip: e_def)
qed

lemma exponent_less:
  assumes "0 < r"
  shows "r < power_int 2 (exponent r + 1)"
proof -
  obtain a b where ab: "quotient_of r = (a, b)" by (cases "quotient_of r")
  then have b: "0 < b" and r: "r = of_int a / of_int b"
    using quotient_of_denom_pos quotient_of_div by auto
  then have a: "0 < a"
    using assms by (simp add: zero_less_divide_iff)
  have len: "1 \<le> bitlen a" "1 \<le> bitlen b"
    using a b bitlen_le_iff_power [of a 0] bitlen_le_iff_power [of b 0] by auto
  have "of_int a < (of_int (2 ^ nat (bitlen a)) :: rat)" "of_int (2 ^ nat (bitlen b - 1)) \<le> (of_int b :: rat)"
    using bitlen_bounds [OF a] bitlen_bounds [OF b] by (simp_all only: of_int_le_iff of_int_less_iff)
  then have *: "(of_int a :: rat) < power_int 2 (bitlen a)" "power_int 2 (bitlen b - 1) \<le> (of_int b :: rat)"
    using len by (simp_all add: power_int_nonneg_exp)
  have "r < power_int 2 (bitlen a) / (power_int 2 (bitlen b - 1))"
    unfolding r using * a b by (intro frac_less) auto
  also have "\<dots> = power_int 2 (bitlen a - bitlen b + 1)"
    by (simp flip: power_int_diff) (simp add: algebra_simps)
  finally show ?thesis
    by (simp add: exponent_def ab Let_def)
qed

lemma exponent_unique:
  assumes "power_int 2 e \<le> r" "r < power_int 2 (e + 1)"
  shows "exponent r = e"
proof -
  have "0 < r"
    using less_le_trans [OF _ assms(1), of 0] by simp
  note b = exponent_le [OF this] exponent_less [OF this]
  have "power_int 2 e < (power_int 2 (exponent r + 1) :: rat)" "power_int 2 (exponent r) < (power_int 2 (e + 1) :: rat)"
    using b assms by linarith+
  then have "\<not> exponent r + 1 \<le> e" "\<not> e + 1 \<le> exponent r"
    using power_int_increasing [of "exponent r + 1" e "2 :: rat"] power_int_increasing [of "e + 1" "exponent r" "2 :: rat"] by auto
  then show ?thesis by simp
qed

section \<open>The square root\<close>

lemma isqrt_bounds:
  assumes "0 \<le> n"
  shows "0 \<le> isqrt n \<and> isqrt n * isqrt n \<le> n \<and> n < (isqrt n + 1) * (isqrt n + 1)"
  using assms
proof (induction n rule: isqrt.induct)
  case (1 n)
  show ?case
  proof (cases "n \<le> 0")
    case True
    then have "n = 0" "isqrt 0 = 0"
      using 1(2) by (simp_all add: isqrt.simps [of 0])
    then show ?thesis by simp
  next
    case False
    define s where "s = isqrt (n div 4)"
    have s: "0 \<le> s" "s * s \<le> n div 4" "n div 4 < (s + 1) * (s + 1)"
      using 1 False by (auto simp: s_def)
    have "4 * (s * s) \<le> n" "n < 4 * ((s + 1) * (s + 1))"
      using s(2,3) by linarith+
    then have "2 * s * (2 * s) \<le> n" "n < (2 * s + 2) * (2 * s + 2)"
      by (simp_all add: algebra_simps)
    then show ?thesis
      using False s(1) by (subst (1 2 3 4 5) isqrt.simps) (auto simp: Let_def add.assoc simp flip: s_def)
  qed
qed

lemma isqrt_unique:
  assumes "0 \<le> k" "k * k \<le> n" "n < (k + 1) * (k + 1)"
  shows "isqrt n = k"
proof -
  have b: "0 \<le> isqrt n" "isqrt n * isqrt n \<le> n" "n < (isqrt n + 1) * (isqrt n + 1)"
    using isqrt_bounds [of n] assms zero_le_square [of k] by (auto intro: order_trans)
  have "isqrt n < k + 1"
  proof (rule ccontr)
    assume "\<not> isqrt n < k + 1"
    then have "(k + 1) * (k + 1) \<le> isqrt n * isqrt n"
      using assms(1) by (intro mult_mono) auto
    then show False
      using b(2) assms(3) by simp
  qed
  moreover have "k < isqrt n + 1"
  proof (rule ccontr)
    assume "\<not> k < isqrt n + 1"
    then have "(isqrt n + 1) * (isqrt n + 1) \<le> k * k"
      using b(1) assms(1) by (intro mult_mono) auto
    then show False
      using b(3) assms(2) by simp
  qed
  ultimately show ?thesis by simp
qed

lemma rne_bounds: "of_int (rne q) \<le> q + 1 / 2" "q - 1 / 2 \<le> of_int (rne q)" "floor q \<le> rne q"
  by (auto simp: rne_def Let_def; linarith)+

lemma fp_round_floor:
  assumes "0 < x" "x < 2 ^ 31" "1 / 2 ^ 20 \<le> of_int (floor x) + 1 - x"
  shows "\<exists>v. fp_round binary64 neg x = Finite neg v \<and> floor v = floor x \<and> 0 \<le> v"
proof -
  have "power_int 2 (exponent x) < (2 ^ 31 :: rat)"
    using exponent_le [OF assms(1)] assms(2) by linarith
  then have "exponent x < 31"
    using power_int_le_imp_less_exp [of "2 :: rat" "exponent x" 31] by simp
  then obtain k where k: "ulp_exponent binary64 x = - int k" "22 \<le> k"
    by (intro that [of "nat (- ulp_exponent binary64 x)"]) (auto simp: ulp_exponent_def binary64_def)
  define N where "N = rne (x * 2 ^ k)"
  define m where "m = floor x"
  have u: "power_int 2 (- int k) = 1 / (2 :: rat) ^ k"
    by (simp add: power_int_minus_divide)
  have "of_int m * 2 ^ k \<le> x * 2 ^ k"
    by (simp add: m_def)
  then have "m * 2 ^ k \<le> floor (x * 2 ^ k)"
    by (simp add: le_floor_iff)
  then have low: "m * 2 ^ k \<le> N"
    using rne_bounds(3) [of "x * 2 ^ k"] by (simp add: N_def)
  have "(2 :: rat) ^ 22 \<le> 2 ^ k"
    using k(2) by (intro power_increasing) auto
  then have "(1 / 2 ^ 20) * (2 :: rat) ^ k \<ge> 1"
    by (simp add: field_simps)
  moreover have "(1 / 2 ^ 20) * 2 ^ k \<le> (of_int m + 1 - x) * 2 ^ k"
    using assms(3) by (intro mult_right_mono) (auto simp: m_def)
  ultimately have "of_int N < (of_int m + 1) * (2 :: rat) ^ k"
    using rne_bounds(1) [of "x * 2 ^ k"] by (simp add: N_def algebra_simps)
  then have "of_int N / 2 ^ k < (of_int m + 1 :: rat)"
    by (simp add: pos_divide_less_eq)
  moreover have "of_int m \<le> of_int N / (2 :: rat) ^ k"
  proof -
    have "of_int (m * 2 ^ k) \<le> (of_int N :: rat)"
      using low by (simp only: of_int_le_iff)
    then show ?thesis by (simp add: pos_le_divide_eq)
  qed
  ultimately have fl: "floor (of_int N / 2 ^ k :: rat) = m"
    by (intro floor_unique) auto
  have "0 \<le> m"
    using assms(1) by (simp add: m_def)
  have "of_int m < (2 ^ 31 :: rat)"
    using assms(2) of_int_floor_le [of x] by (simp add: m_def)
  then have "of_int N / 2 ^ k < (2 ^ 31 + 1 :: rat)"
    using \<open>of_int N / 2 ^ k < (of_int m + 1 :: rat)\<close> by linarith
  also have "\<dots> \<le> 2 ^ 1024"
    by simp
  finally have "\<not> power_int 2 (max_exponent binary64 + 1) \<le> (of_int N / 2 ^ k :: rat)"
    by (simp add: binary64_def)
  then have "fp_round binary64 neg x = Finite neg (of_int N / 2 ^ k)"
    using assms(1) by (simp add: fp_round_def k(1) u N_def Let_def)
  moreover have "0 \<le> (of_int N / 2 ^ k :: rat)"
    using \<open>of_int m \<le> of_int N / (2 :: rat) ^ k\<close> \<open>0 \<le> m\<close> by (metis of_int_0_le_iff order_trans)
  ultimately show ?thesis
    using fl by (auto simp: m_def)
qed

end
