(* ===== verification/CC_Config.thy ===== *)
theory CC_Config
  imports CC_String CC_Float
begin

text \<open>
  The configuration parser (src/cfg.c).  A file is the list of its bytes.  A
  \<^verbatim>\<open>char *\<close> that walks over the current line is the part of the line's buffer from it on;
  the parser only ever moves such a pointer forward.  Strings an entry owns are the buffers
  \<^verbatim>\<open>string_duplicate\<close> returns.  Messages to the log are in CC_ConfigLog.
\<close>

section \<open>State\<close>

datatype cfg_kind = CFG_NIL | CFG_STR | CFG_NUM | CFG_BOOL

text \<open>
  The fields of an entry other than its key are always written together; an entry of which they
  have not been written (\<^const>\<open>None\<close>) holds what the allocator left there.
\<close>

record cfg_fields =
  f_kind :: cfg_kind
  f_str :: "buf option"
  f_f64 :: fp
  f_i64 :: int
  f_b :: bool

record cc_cfg_entry =
  e_key :: buf
  e_fields :: "cfg_fields option"

text \<open>The array of entries; a slot no entry was ever put in is \<^const>\<open>None\<close>.\<close>

record cc_cfg =
  c_count :: size_t
  c_capacity :: size_t
  c_entries :: "cc_cfg_entry option list"

definition CC_CFG_DEFAULT_CAPACITY :: size_t where
  "CC_CFG_DEFAULT_CAPACITY = 32"

definition sizeof_entry :: size_t where
  "sizeof_entry = 40"

section \<open>Entries\<close>

text \<open>\<^verbatim>\<open>cc_realloc\<close>: the old contents up to the new size, then bytes never written.\<close>

definition resize :: "nat \<Rightarrow> 'a option list \<Rightarrow> 'a option list" where
  "resize n xs = take n xs @ replicate (n - length xs) None"

definition streq :: "buf \<Rightarrow> buf \<Rightarrow> bool res" where
  "streq a b = bindE (read_str a) (\<lambda>s. bindE (read_str b) (\<lambda>t. Inr (s = t)))"

definition entry_at :: "cc_cfg \<Rightarrow> size_t \<Rightarrow> cc_cfg_entry res" where
  "entry_at cfg i =
     (if unat i < length (c_entries cfg) then
        (case c_entries cfg ! unat i of None \<Rightarrow> Inl Uninit | Some e \<Rightarrow> Inr e)
      else Inl OutOfBounds)"

text \<open>The index at which the loop over the entries stops, if it finds the key.\<close>

function find_from :: "cc_cfg \<Rightarrow> buf \<Rightarrow> size_t \<Rightarrow> size_t option res" where
  "find_from cfg key i =
     (if i < c_count cfg then
        bindE (entry_at cfg i) (\<lambda>e. bindE (streq key (e_key e)) (\<lambda>same.
        if same then Inr (Some i) else find_from cfg key (i + 1)))
      else Inr None)"
  by auto
termination
  by (relation "measure (\<lambda>(cfg, key, i). unat (c_count cfg) - unat i)")
    (auto simp: unat_step word_less_nat_alt)

declare find_from.simps [simp del]

definition find_entry :: "cc_cfg \<Rightarrow> buf \<Rightarrow> cc_cfg_entry option res" where
  "find_entry cfg key =
     bindE (find_from cfg key 0) (\<lambda>r.
     case r of
       None \<Rightarrow> Inr None
     | Some i \<Rightarrow> bindE (entry_at cfg i) (\<lambda>e. Inr (Some e)))"

definition ensure :: "cc_cfg \<Rightarrow> cc_cfg" where
  "ensure cfg =
     (if c_count cfg + 1 < c_capacity cfg then cfg
      else
        let cap = (if c_capacity cfg \<noteq> 0 then c_capacity cfg * 2 else CC_CFG_DEFAULT_CAPACITY) in
        cfg\<lparr>c_capacity := cap,
            c_entries := resize (unat (cap * sizeof_entry) div unat sizeof_entry) (c_entries cfg)\<rparr>)"

text \<open>Adding an entry writes its key only.  The result is the entry's index.\<close>

definition find_entry_or_add :: "build \<Rightarrow> cc_cfg \<Rightarrow> buf \<Rightarrow> (cc_cfg \<times> size_t) res" where
  "find_entry_or_add bd cfg key =
     bindE (find_from cfg key 0) (\<lambda>r.
     case r of
       Some i \<Rightarrow> Inr (cfg, i)
     | None \<Rightarrow>
         let cfg = ensure cfg; i = c_count cfg; cfg = cfg\<lparr>c_count := i + 1\<rparr> in
         bindE (string_duplicate bd key) (\<lambda>k.
         if unat i < length (c_entries cfg) then
           Inr (cfg\<lparr>c_entries := (c_entries cfg)[unat i := Some \<lparr>e_key = k, e_fields = None\<rparr>]\<rparr>, i)
         else Inl OutOfBounds))"

section \<open>Lines\<close>

text \<open>
  Reading a line, a byte at a time: what is left of the file and whether its end was reached, the
  line's buffer with its capacity, and the number of bytes stored.
\<close>

record reader =
  r_rest :: "byte list"
  r_eof :: bool
  r_line :: buf
  r_capacity :: size_t

definition grow_line :: "reader \<Rightarrow> size_t \<Rightarrow> reader" where
  "grow_line r sz =
     (if sz + 2 > r_capacity r then
        let cap = (if r_capacity r \<noteq> 0 then r_capacity r * 2 else 128) in
        r\<lparr>r_capacity := cap, r_line := resize (unat cap) (r_line r)\<rparr>
      else r)"

function read_line :: "reader \<Rightarrow> size_t \<Rightarrow> (reader \<times> size_t) res" where
  "read_line r sz =
     (case r_rest r of
        [] \<Rightarrow> Inr (r\<lparr>r_eof := True\<rparr>, sz)
      | c # cs \<Rightarrow>
          let r = r\<lparr>r_rest := cs\<rparr> in
          if sz = 0 \<and> isspace c then read_line r sz
          else if c = 13 then read_line r sz
          else if c = 10 then Inr (r, sz)
          else
            let r = grow_line r sz in
            bindE (wr (r_line r) (unat sz) c) (\<lambda>line.
            bindE (wr line (unat (sz + 1)) 0) (\<lambda>line.
            read_line (r\<lparr>r_line := line\<rparr>) (sz + 1))))"
  by auto
termination
  by (relation "measure (\<lambda>(r, sz). length (r_rest r))") (auto simp: grow_line_def Let_def)

declare read_line.simps [simp del]

definition line_is_comment :: "buf \<Rightarrow> size_t \<Rightarrow> bool res" where
  "line_is_comment line sz =
     (if sz = 0 then Inr True
      else bindE (rd line 0) (\<lambda>c.
        if c = 35 then Inr True
        else if sz \<ge> 2 \<and> c = 47 then bindE (rd line 1) (\<lambda>d. Inr (d = 47))
        else Inr False))"

fun trim :: "buf \<Rightarrow> buf res" where
  "trim [] = Inl OutOfBounds"
| "trim (None # s) = Inl Uninit"
| "trim (Some c # s) = (if c \<noteq> 0 \<and> isspace c then trim s else Inr (Some c # s))"

text \<open>
  \<^verbatim>\<open>strchr\<close> for the separator; writing a NUL over it makes the bytes before it the key.
\<close>

fun split_at_sep :: "buf \<Rightarrow> (buf \<times> buf) option res" where
  "split_at_sep [] = Inl OutOfBounds"
| "split_at_sep (None # s) = Inl Uninit"
| "split_at_sep (Some c # s) =
     (if c = 58 then Inr (Some ([Some 0], s))
      else if c = 0 then Inr None
      else bindE (split_at_sep s) (\<lambda>r. Inr (map_option (\<lambda>(key, value). (Some c # key, value)) r)))"

section \<open>Values\<close>

text \<open>Each parser answers where it stopped and, on success, the fields it writes.\<close>

fun skip_digits :: "buf \<Rightarrow> buf res" where
  "skip_digits [] = Inl OutOfBounds"
| "skip_digits (None # s) = Inl Uninit"
| "skip_digits (Some c # s) = (if isdigit c then skip_digits s else Inr (Some c # s))"

definition parse_number :: "buf \<Rightarrow> (buf \<times> cfg_fields option) res" where
  "parse_number value =
     bindE (rd value 0) (\<lambda>c.
     let src = (if c = 45 \<or> c = 43 then tl value else value) in
     bindE (rd src 0) (\<lambda>c.
     if \<not> isdigit c \<and> c \<noteq> 46 then Inr (src, None)
     else
       bindE (skip_digits src) (\<lambda>src.
       bindE (rd src 0) (\<lambda>c.
       bindE (if c = 46 then skip_digits (tl src) else Inr src) (\<lambda>src.
       bindE (read_str value) (\<lambda>text.
       let f64 = atof text in
       bindE (fp_to_int f64) (\<lambda>i64.
       Inr (src, Some \<lparr>f_kind = CFG_NUM, f_str = None, f_f64 = f64, f_i64 = i64, f_b = (i64 \<noteq> 0)\<rparr>))))))))"

text \<open>
  The bytes up to the closing delimiter, over which a NUL is written, and what follows;
  \<^const>\<open>None\<close> when the line ends first.
\<close>

fun scan_string :: "byte \<Rightarrow> buf \<Rightarrow> (buf \<times> buf) option res" where
  "scan_string delim [] = Inl OutOfBounds"
| "scan_string delim (None # s) = Inl Uninit"
| "scan_string delim (Some c # s) =
     (if c = delim then Inr (Some ([Some 0], s))
      else if c = 0 then Inr None
      else bindE (scan_string delim s) (\<lambda>r. Inr (map_option (\<lambda>(str, rest). (Some c # str, rest)) r)))"

definition parse_string :: "build \<Rightarrow> buf \<Rightarrow> byte \<Rightarrow> (buf \<times> cfg_fields option) res" where
  "parse_string bd value delim =
     bindE (scan_string delim (tl value)) (\<lambda>r.
     case r of
       None \<Rightarrow> Inr (dropWhile (\<lambda>c. c \<noteq> Some 0) (tl value), None)
     | Some (start, src) \<Rightarrow>
         bindE (string_duplicate bd start) (\<lambda>str.
         Inr (src, Some \<lparr>f_kind = CFG_STR, f_str = Some str, f_f64 = Finite False 0, f_i64 = 0, f_b = True\<rparr>)))"

text \<open>\<^verbatim>\<open>!strncmp(src, word, strlen(word))\<close>.\<close>

fun starts_with :: "byte list \<Rightarrow> buf \<Rightarrow> bool res" where
  "starts_with [] s = Inr True"
| "starts_with (w # ws) [] = Inl OutOfBounds"
| "starts_with (w # ws) (None # s) = Inl Uninit"
| "starts_with (w # ws) (Some c # s) = (if c = w then starts_with ws s else Inr False)"

definition parse_bool :: "buf \<Rightarrow> (buf \<times> cfg_fields option) res" where
  "parse_bool src =
     bindE (starts_with (bytes ''true'') src) (\<lambda>t.
     if t then
       Inr (drop 4 src, Some \<lparr>f_kind = CFG_BOOL, f_str = None, f_f64 = Finite False 1, f_i64 = 1, f_b = True\<rparr>)
     else
       bindE (starts_with (bytes ''false'') src) (\<lambda>f.
       if f then
         Inr (drop 5 src, Some \<lparr>f_kind = CFG_BOOL, f_str = None, f_f64 = Finite False 0, f_i64 = 0, f_b = False\<rparr>)
       else Inr (src, None)))"

definition parse_value :: "build \<Rightarrow> buf \<Rightarrow> (buf \<times> cfg_fields option) res" where
  "parse_value bd value =
     bindE (rd value 0) (\<lambda>c.
     if c = 46 \<or> c = 43 \<or> c = 45 \<or> isdigit c then parse_number value
     else if c = 116 \<or> c = 102 then parse_bool value
     else if c = 39 \<or> c = 34 then parse_string bd value c
     else Inr (value, None))"

section \<open>Files\<close>

text \<open>The body of the loop for a line that is neither empty nor a comment.\<close>

definition parse_line :: "build \<Rightarrow> cc_cfg \<Rightarrow> buf \<Rightarrow> (cc_cfg \<times> bool) res" where
  "parse_line bd cfg line =
     bindE (split_at_sep line) (\<lambda>r.
     case r of
       None \<Rightarrow> Inr (cfg, False)
     | Some (key, value) \<Rightarrow>
         bindE (trim value) (\<lambda>value.
         bindE (find_entry_or_add bd cfg key) (\<lambda>(cfg, i).
         bindE (entry_at cfg i) (\<lambda>entry.
         bindE (parse_value bd value) (\<lambda>(value, fields).
         case fields of
           None \<Rightarrow> Inr (cfg, False)
         | Some fs \<Rightarrow>
             let cfg = cfg\<lparr>c_entries := (c_entries cfg)[unat i := Some (entry\<lparr>e_fields := Some fs\<rparr>)]\<rparr> in
             bindE (trim value) (\<lambda>value.
             bindE (read_str value) (\<lambda>text.
             bindE (line_is_comment value (of_nat (length text))) (\<lambda>comment.
             Inr (cfg, text = [] \<or> comment)))))))))"

lemma read_line_consumes:
  "read_line r sz = Inr (r', sz') \<Longrightarrow> \<not> r_eof r' \<Longrightarrow> length (r_rest r') < length (r_rest r)"
proof (induction r sz rule: read_line.induct)
  case (1 r sz)
  show ?case
  proof (cases "r_rest r")
    case Nil
    with "1.prems" show ?thesis by (auto simp: read_line.simps [of r])
  next
    case (Cons c cs)
    have grow: "r_rest (grow_line r' sz) = r_rest r'" for r'
      by (simp add: grow_line_def Let_def)
    show ?thesis
      using "1.prems" "1.IH" [OF Cons refl] Cons
      by (auto simp: read_line.simps [of r] Let_def bindE_eq_Inr grow split: if_splits)
          (blast intro: less_SucI)+
  qed
qed

function parse_loop :: "build \<Rightarrow> reader \<Rightarrow> cc_cfg \<Rightarrow> (cc_cfg \<times> bool) res" where
  "parse_loop bd r cfg =
     (if r_eof r then Inr (cfg, True)
      else case read_line r 0 of
        Inl e \<Rightarrow> Inl e
      | Inr (r, sz) \<Rightarrow>
          if sz = 0 then parse_loop bd r cfg
          else bindE (line_is_comment (r_line r) sz) (\<lambda>comment.
            if comment then parse_loop bd r cfg
            else case parse_line bd cfg (r_line r) of
              Inl e \<Rightarrow> Inl e
            | Inr (cfg, ok) \<Rightarrow> if ok then parse_loop bd r cfg else Inr (cfg, False)))"
  by auto
termination
  by (relation "measure (\<lambda>(bd, r, cfg). if r_eof r then 0 else Suc (length (r_rest r)))")
    (auto dest: read_line_consumes)

declare parse_loop.simps [simp del]

definition parse :: "build \<Rightarrow> cc_cfg \<Rightarrow> byte list \<Rightarrow> (cc_cfg \<times> bool) res" where
  "parse bd cfg file = parse_loop bd \<lparr>r_rest = file, r_eof = False, r_line = [], r_capacity = 0\<rparr> cfg"

text \<open>Loading: \<^const>\<open>None\<close> is a file that cannot be opened.\<close>

definition cc_cfg_load :: "build \<Rightarrow> byte list option \<Rightarrow> cc_cfg option res" where
  "cc_cfg_load bd file =
     (case file of
        None \<Rightarrow> Inr None
      | Some bs \<Rightarrow>
          bindE (parse bd \<lparr>c_count = 0, c_capacity = 0, c_entries = []\<rparr> bs) (\<lambda>(cfg, success).
          Inr (Some cfg)))"

text \<open>Deleting: the buffers freed, in order, before the array and the configuration.\<close>

function delete_from :: "cc_cfg \<Rightarrow> size_t \<Rightarrow> buf list res" where
  "delete_from cfg i =
     (if i < c_count cfg then
        bindE (entry_at cfg i) (\<lambda>e.
        case e_fields e of
          None \<Rightarrow> Inl Uninit
        | Some fs \<Rightarrow>
            bindE (delete_from cfg (i + 1)) (\<lambda>freed.
            Inr ((if f_kind fs = CFG_STR then (case f_str fs of None \<Rightarrow> [] | Some s \<Rightarrow> [s]) else []) @
                 e_key e # freed)))
      else Inr [])"
  by auto
termination
  by (relation "measure (\<lambda>(cfg, i). unat (c_count cfg) - unat i)")
    (auto simp: unat_step word_less_nat_alt)

declare delete_from.simps [simp del]

definition cc_cfg_delete :: "cc_cfg \<Rightarrow> buf list res" where
  "cc_cfg_delete cfg = delete_from cfg 0"

section \<open>Getters\<close>

text \<open>
  The key of a getter is a format and its arguments; \<^term>\<open>s\<close> is the text they format to,
  which \<^verbatim>\<open>vsnprintf\<close> cuts to the 256 bytes of \<^verbatim>\<open>key\<close>.  \<^const>\<open>None\<close> is the answer false,
  which leaves the output alone.
\<close>

definition format_key :: "byte list \<Rightarrow> buf" where
  "format_key s = cbuf (take 255 s)"

definition cc_cfg_key_exists :: "cc_cfg \<Rightarrow> byte list \<Rightarrow> bool res" where
  "cc_cfg_key_exists cfg s = bindE (find_entry cfg (format_key s)) (\<lambda>e. Inr (e \<noteq> None))"

definition with_fields :: "cc_cfg \<Rightarrow> byte list \<Rightarrow> (cfg_fields \<Rightarrow> 'a option) \<Rightarrow> 'a option res" where
  "with_fields cfg s get =
     bindE (find_entry cfg (format_key s)) (\<lambda>r.
     case r of
       None \<Rightarrow> Inr None
     | Some e \<Rightarrow> (case e_fields e of None \<Rightarrow> Inl Uninit | Some fs \<Rightarrow> Inr (get fs)))"

definition cc_cfg_get_bool :: "cc_cfg \<Rightarrow> byte list \<Rightarrow> bool option res" where
  "cc_cfg_get_bool cfg s =
     with_fields cfg s (\<lambda>fs.
       case f_kind fs of
         CFG_NIL \<Rightarrow> Some False
       | CFG_NUM \<Rightarrow> Some (fp_nonzero (f_f64 fs))
       | CFG_BOOL \<Rightarrow> Some (f_b fs)
       | CFG_STR \<Rightarrow> None)"

definition cc_cfg_get_int :: "cc_cfg \<Rightarrow> byte list \<Rightarrow> int option res" where
  "cc_cfg_get_int cfg s =
     with_fields cfg s (\<lambda>fs. if f_kind fs = CFG_NUM then Some (f_i64 fs) else None)"

definition cc_cfg_get_float :: "cc_cfg \<Rightarrow> byte list \<Rightarrow> fp option res" where
  "cc_cfg_get_float cfg s =
     with_fields cfg s (\<lambda>fs. if f_kind fs = CFG_NUM then Some (fp_convert binary32 (f_f64 fs)) else None)"

definition cc_cfg_get_double :: "cc_cfg \<Rightarrow> byte list \<Rightarrow> fp option res" where
  "cc_cfg_get_double cfg s =
     with_fields cfg s (\<lambda>fs. if f_kind fs = CFG_NUM then Some (f_f64 fs) else None)"

definition cc_cfg_get_str :: "cc_cfg \<Rightarrow> byte list \<Rightarrow> buf option res" where
  "cc_cfg_get_str cfg s =
     with_fields cfg s (\<lambda>fs. if f_kind fs = CFG_STR then f_str fs else None)"

end
