(* ===== verification/CC_ConfigSpec.thy ===== *)
theory CC_ConfigSpec
  imports CC_Config
begin

text \<open>
  What the configuration parser computes, said without buffers: a line, a value, a whole file as
  functions on byte lists, and a configuration as the list of its keys and fields.  The lemmas
  here show that the parser on buffers implements them and never reads or writes outside one.
\<close>

section \<open>Pointers into a line\<close>

lemma read_str_rd: "read_str b = Inr s \<Longrightarrow> rd b 0 = Inr (case s of [] \<Rightarrow> 0 | c # _ \<Rightarrow> c)"
  by (auto simp: read_str_iff rd_def split: list.split)

lemma read_str_rd1: "read_str b = Inr (c # s) \<Longrightarrow> rd b 1 = Inr (case s of [] \<Rightarrow> 0 | d # _ \<Rightarrow> d)"
  by (auto simp: read_str_iff rd_def split: list.split)

lemma read_str_tl: "read_str b = Inr (c # s) \<Longrightarrow> read_str (tl b) = Inr s"
  by (auto simp: read_str_iff)

lemma read_str_drop: "read_str b = Inr (u @ s) \<Longrightarrow> read_str (drop (length u) b) = Inr s"
  by (auto simp: read_str_iff)

lemma read_str_cstr: "read_str b = Inr s \<Longrightarrow> is_cstr s"
  by (simp add: read_str_iff)

lemma trim_spec: "read_str b = Inr s \<Longrightarrow> \<exists>b'. trim b = Inr b' \<and> read_str b' = Inr (dropWhile isspace s)"
  by (induction b arbitrary: s rule: trim.induct) (fastforce simp: bindE_eq_Inr split: if_splits)+

lemma skip_digits_spec:
  "read_str b = Inr s \<Longrightarrow> \<exists>b'. skip_digits b = Inr b' \<and> read_str b' = Inr (dropWhile isdigit s)"
  by (induction b arbitrary: s rule: skip_digits.induct) (fastforce simp: bindE_eq_Inr split: if_splits)+

text \<open>Cutting a string at the first occurrence of a byte.\<close>

definition before :: "byte \<Rightarrow> byte list \<Rightarrow> byte list" where
  "before d s = takeWhile (\<lambda>c. c \<noteq> d) s"

definition behind :: "byte \<Rightarrow> byte list \<Rightarrow> byte list" where
  "behind d s = tl (dropWhile (\<lambda>c. c \<noteq> d) s)"

lemma before_behind_simps [simp]:
  "before d [] = []" "behind d [] = []"
  "before d (c # s) = (if c = d then [] else c # before d s)"
  "behind d (c # s) = (if c = d then s else behind d s)"
  by (auto simp: before_def behind_def)

lemma before_behind_append [simp]:
  "d \<notin> set u \<Longrightarrow> before d (u @ d # v) = u" "d \<notin> set u \<Longrightarrow> behind d (u @ d # v) = v"
  by (induction u) auto

lemma length_before: "length (before d s) \<le> length s"
  by (simp add: before_def length_takeWhile_le)

lemma length_behind: "length (behind d s) \<le> length s"
  by (induction s) auto

lemma is_cstr_before: "is_cstr s \<Longrightarrow> is_cstr (before d s)"
  by (induction s) auto

lemma split_at_sep_spec:
  "read_str b = Inr s \<Longrightarrow>
   (if 58 \<in> set s then \<exists>v. split_at_sep b = Inr (Some (cbuf (before 58 s), v)) \<and> read_str v = Inr (behind 58 s)
    else split_at_sep b = Inr None)"
proof (induction b arbitrary: s rule: split_at_sep.induct)
  case (3 c b)
  then show ?case
    by (cases "c = 0"; cases "c = 58") (fastforce simp: bindE_eq_Inr cbuf_def)+
qed auto

lemma scan_string_spec:
  "read_str b = Inr s \<Longrightarrow> d \<noteq> 0 \<Longrightarrow>
   (if d \<in> set s then \<exists>v. scan_string d b = Inr (Some (cbuf (before d s), v)) \<and> read_str v = Inr (behind d s)
    else scan_string d b = Inr None)"
proof (induction d b arbitrary: s rule: scan_string.induct)
  case (3 d c b)
  then show ?case
    by (cases "c = 0"; cases "c = d") (fastforce simp: bindE_eq_Inr cbuf_def)+
qed auto

lemma starts_with_spec:
  "read_str b = Inr s \<Longrightarrow> is_cstr w \<Longrightarrow> starts_with w b = Inr (take (length w) s = w)"
proof (induction w b arbitrary: s rule: starts_with.induct)
  case (4 w ws c b)
  then show ?case
    by (cases "c = 0") (auto simp: bindE_eq_Inr)
qed auto

definition is_comment :: "byte list \<Rightarrow> bool" where
  "is_comment s \<longleftrightarrow> (case s of [] \<Rightarrow> True | c # t \<Rightarrow> c = 35 \<or> (c = 47 \<and> (case t of [] \<Rightarrow> False | d # _ \<Rightarrow> d = 47)))"

lemma line_is_comment_raw:
  assumes "length s < 2 ^ 64"
  shows "line_is_comment (map Some s @ t) (of_nat (length s)) = Inr (is_comment s)"
proof -
  have u: "unat (of_nat (length s) :: size_t) = length s"
    using assms by (rule unat_of_nat_small)
  then have "(of_nat (length s) :: size_t) = 0 \<longleftrightarrow> s = []"
    by (metis length_0_conv unat_0 unat_eq_zero)
  moreover have "(2 :: size_t) \<le> of_nat (length s) \<longleftrightarrow> 2 \<le> length s"
    using u by (simp add: word_le_nat_alt)
  ultimately show ?thesis
    by (cases s; cases "tl s") (auto simp: line_is_comment_def is_comment_def rd_def)
qed

section \<open>Values\<close>

definition number_fields :: "byte list \<Rightarrow> cfg_fields res" where
  "number_fields s =
     bindE (fp_to_int (atof s)) (\<lambda>i.
     Inr \<lparr>f_kind = CFG_NUM, f_str = None, f_f64 = atof s, f_i64 = i, f_b = (i \<noteq> 0)\<rparr>)"

definition skip_point :: "byte list \<Rightarrow> byte list" where
  "skip_point s = (case s of [] \<Rightarrow> [] | c # t \<Rightarrow> if c = 46 then dropWhile isdigit t else s)"

definition number_spec :: "byte list \<Rightarrow> (byte list \<times> cfg_fields) option res" where
  "number_spec s =
     (let t = snd (scan_sign s) in
      case t of
        [] \<Rightarrow> Inr None
      | c # _ \<Rightarrow>
          if isdigit c \<or> c = 46 then
            bindE (number_fields s) (\<lambda>fs. Inr (Some (skip_point (dropWhile isdigit t), fs)))
          else Inr None)"

definition str_fields :: "byte list \<Rightarrow> cfg_fields" where
  "str_fields s = \<lparr>f_kind = CFG_STR, f_str = Some (cbuf s), f_f64 = Finite False 0, f_i64 = 0, f_b = True\<rparr>"

definition bool_fields :: "bool \<Rightarrow> cfg_fields" where
  "bool_fields b =
     \<lparr>f_kind = CFG_BOOL, f_str = None, f_f64 = Finite False (if b then 1 else 0),
      f_i64 = (if b then 1 else 0), f_b = b\<rparr>"

definition value_spec :: "byte list \<Rightarrow> (byte list \<times> cfg_fields) option res" where
  "value_spec s =
     (case s of
        [] \<Rightarrow> Inr None
      | c # t \<Rightarrow>
          if c = 46 \<or> c = 43 \<or> c = 45 \<or> isdigit c then number_spec s
          else if c = 116 \<or> c = 102 then
            (if take 4 s = bytes ''true'' then Inr (Some (drop 4 s, bool_fields True))
             else if take 5 s = bytes ''false'' then Inr (Some (drop 5 s, bool_fields False))
             else Inr None)
          else if c = 39 \<or> c = 34 then
            (if c \<in> set t then Inr (Some (behind c t, str_fields (before c t))) else Inr None)
          else Inr None)"

text \<open>How a parser on buffers implements one on strings.\<close>

definition implements :: "(buf \<times> cfg_fields option) res \<Rightarrow> (byte list \<times> cfg_fields) option res \<Rightarrow> bool" where
  "implements p q \<longleftrightarrow>
     (case q of
        Inl e \<Rightarrow> p = Inl e
      | Inr None \<Rightarrow> \<exists>b. p = Inr (b, None)
      | Inr (Some (s, fs)) \<Rightarrow> \<exists>b. p = Inr (b, Some fs) \<and> read_str b = Inr s)"

lemma implements_None: "implements (Inr (b, None)) (Inr None)"
  by (simp add: implements_def)

lemma parse_string_spec:
  assumes "read_str b = Inr (d # s)" "length s + 1 < 2 ^ 64"
  shows "implements (parse_string bd b d)
    (if d \<in> set s then Inr (Some (behind d s, str_fields (before d s))) else Inr None)"
proof -
  have d: "d \<noteq> 0" and cstr: "is_cstr s"
    using read_str_cstr [OF assms(1)] by simp_all
  note scan = scan_string_spec [OF read_str_tl [OF assms(1)] d]
  show ?thesis
  proof (cases "d \<in> set s")
    case True
    then obtain v where v: "scan_string d (tl b) = Inr (Some (cbuf (before d s), v))" "read_str v = Inr (behind d s)"
      using scan by auto
    have "cbuf (before d s) = map Some (before d s) @ Some 0 # []"
      by (simp add: cbuf_def)
    moreover have "length (before d s) + 1 < 2 ^ 64"
      using length_before [of d s] assms(2) by linarith
    ultimately have "string_duplicate bd (cbuf (before d s)) = Inr (cbuf (before d s))"
      using string_duplicate_string [OF is_cstr_before [OF cstr]] by metis
    with v True show ?thesis
      by (simp add: implements_def parse_string_def str_fields_def)
  qed (use scan in \<open>simp add: implements_def parse_string_def\<close>)
qed

lemma cstr_words: "is_cstr (bytes ''true'')" "is_cstr (bytes ''false'')"
  "length (bytes ''true'') = 4" "length (bytes ''false'') = 5"
  by (simp_all add: bytes_def)

lemma parse_bool_spec:
  assumes "read_str b = Inr s"
  shows "implements (parse_bool b)
    (if take 4 s = bytes ''true'' then Inr (Some (drop 4 s, bool_fields True))
     else if take 5 s = bytes ''false'' then Inr (Some (drop 5 s, bool_fields False))
     else Inr None)"
proof -
  have rest: "read_str (drop (length w) b) = Inr (drop (length w) s)" if "take (length w) s = w" for w
    using read_str_drop [of b w "drop (length w) s"] that append_take_drop_id [of "length w" s] assms
    by simp
  note true = starts_with_spec [OF assms cstr_words(1)] rest [of "bytes ''true''"]
  note false = starts_with_spec [OF assms cstr_words(2)] rest [of "bytes ''false''"]
  show ?thesis
    using true false by (simp add: implements_def parse_bool_def bool_fields_def cstr_words)
qed

lemma parse_number_spec:
  assumes "read_str b = Inr s" "s \<noteq> []"
  shows "implements (parse_number b) (number_spec s)"
proof -
  define t where "t = snd (scan_sign s)"
  obtain c0 s0 where s: "s = c0 # s0"
    using assms(2) by (cases s) auto
  have rd0: "rd b 0 = Inr c0"
    using read_str_rd [OF assms(1)] s by simp
  define src where "src = (if c0 = 45 \<or> c0 = 43 then tl b else b)"
  have src: "read_str src = Inr t"
    using assms(1) read_str_tl [of b c0 s0] by (auto simp: src_def t_def scan_sign_def s)
  show ?thesis
  proof (cases "\<exists>c t'. t = c # t' \<and> (isdigit c \<or> c = 46)")
    case False
    then have "number_spec s = Inr None"
      by (auto simp: number_spec_def Let_def t_def split: list.split)
    moreover have "parse_number b = Inr (src, None)"
      using False read_str_rd [OF src]
      by (auto simp: parse_number_def rd0 Let_def simp flip: src_def split: list.splits)
    ultimately show ?thesis by (simp add: implements_def)
  next
    case True
    then obtain c t' where t: "t = c # t'" "isdigit c \<or> c = 46" by blast
    obtain b1 where b1: "skip_digits src = Inr b1" "read_str b1 = Inr (dropWhile isdigit t)"
      using skip_digits_spec [OF src] by blast
    define u where "u = dropWhile isdigit t"
    note b1 = b1 [folded u_def]
    obtain b2 where b2:
      "(if (case u of [] \<Rightarrow> 0 | c # _ \<Rightarrow> c) = 46 then skip_digits (tl b1) else Inr b1) = Inr b2"
      "read_str b2 = Inr (skip_point (u))"
    proof (cases u)
      case Nil
      with b1(2) show thesis by (intro that [of b1]) (simp_all add: skip_point_def)
    next
      case (Cons d v)
      with b1(2) have "read_str (tl b1) = Inr v"
        using read_str_tl by simp
      then obtain b2 where "skip_digits (tl b1) = Inr b2" "read_str b2 = Inr (dropWhile isdigit v)"
        using skip_digits_spec by blast
      with Cons b1(2) show thesis
        by (intro that [of "if d = 46 then b2 else b1"]) (simp_all add: skip_point_def)
    qed
    have "parse_number b = bindE (number_fields s) (\<lambda>fs. Inr (b2, Some fs))"
      using read_str_rd [OF src] read_str_rd [OF b1(2)] t assms(1) b1(1) b2(1)
      by (auto simp: parse_number_def rd0 Let_def number_fields_def bindE_assoc simp flip: src_def)
    then show ?thesis
      using t b2(2) by (cases "number_fields s") (auto simp: implements_def number_spec_def t_def [symmetric] u_def Let_def)
  qed
qed

lemma parse_value_spec:
  assumes "read_str b = Inr s" "length s < 2 ^ 64"
  shows "implements (parse_value bd b) (value_spec s)"
proof (cases s)
  case Nil
  then show ?thesis
    using read_str_rd [OF assms(1)]
    by (simp add: parse_value_def value_spec_def implements_def)
next
  case (Cons c t)
  then have rd: "rd b 0 = Inr c"
    using read_str_rd [OF assms(1)] by simp
  note number = parse_number_spec [OF assms(1)]
  note bool = parse_bool_spec [OF assms(1)]
  have str: "implements (parse_string bd b c)
      (if c \<in> set t then Inr (Some (behind c t, str_fields (before c t))) else Inr None)"
    using parse_string_spec [of b c t bd] assms Cons by simp
  show ?thesis
    using number bool str by (auto simp: parse_value_def rd value_spec_def Cons implements_None)
qed

text \<open>Every value is text of its own line, and numbers are the only ones that can go wrong.\<close>

lemma value_spec_error: "value_spec s = Inl e \<Longrightarrow> e = BadConversion"
  by (auto simp: value_spec_def number_spec_def number_fields_def fp_to_int_def fp_truncate_def Let_def bindE_eq_Inl
      split: list.splits if_splits fp.splits)

lemma value_spec_length: "value_spec s = Inr (Some (rest, fs)) \<Longrightarrow> length rest \<le> length s"
proof -
  have skip: "length (skip_point t) \<le> length t" for t
    using length_dropWhile_le [of isdigit] by (auto simp: skip_point_def le_SucI split: list.split)
  have "number_spec s = Inr (Some (rest, fs)) \<Longrightarrow> length rest \<le> length s"
    using skip [of "dropWhile isdigit (snd (scan_sign s))"] length_dropWhile_le [of isdigit "snd (scan_sign s)"]
    by (auto simp: number_spec_def scan_sign_def Let_def bindE_eq_Inr split: list.splits if_splits)
  then show "value_spec s = Inr (Some (rest, fs)) \<Longrightarrow> length rest \<le> length s"
    using length_behind by (auto simp: value_spec_def le_SucI split: list.splits if_splits)
qed

section \<open>Configurations\<close>

text \<open>The keys and fields of the entries, in the order they were added.\<close>

type_synonym config = "(byte list \<times> cfg_fields option) list"

definition entry_of :: "byte list \<times> cfg_fields option \<Rightarrow> cc_cfg_entry" where
  "entry_of kf = \<lparr>e_key = cbuf (fst kf), e_fields = snd kf\<rparr>"

definition represents :: "cc_cfg \<Rightarrow> config \<Rightarrow> bool" where
  "represents cfg es \<longleftrightarrow>
     c_count cfg = of_nat (length es) \<and> length es < 2 ^ 56 \<and>
     c_entries cfg = map (Some \<circ> entry_of) es @ replicate (unat (c_capacity cfg) - length es) None \<and>
     length es \<le> unat (c_capacity cfg) \<and> unat (c_capacity cfg) \<le> max 32 (2 * length es) \<and>
     (c_capacity cfg = 0 \<longrightarrow> es = []) \<and>
     distinct (map fst es) \<and> (\<forall>k \<in> fst ` set es. is_cstr k)"

lemma represents_count:
  assumes "represents cfg es"
  shows "unat (c_count cfg) = length es"
  using assms unat_of_nat_small(1) [of "length es"] by (simp add: represents_def)

lemma represents_entry:
  assumes "represents cfg es" "i < length es"
  shows "entry_at cfg (of_nat i) = Inr (entry_of (es ! i))"
proof -
  have "unat (of_nat i :: size_t) = i"
    using assms by (intro unat_of_nat_small) (simp add: represents_def)
  with assms show ?thesis
    by (simp add: entry_at_def represents_def nth_append)
qed

lemma streq_cbuf: "read_str b = Inr k \<Longrightarrow> is_cstr k' \<Longrightarrow> streq b (cbuf k') = Inr (k = k')"
  by (simp add: streq_def)

lemma find_from_spec:
  assumes "represents cfg es" "read_str b = Inr k" "i \<le> length es"
  shows "k \<notin> fst ` set (drop i es) \<Longrightarrow> find_from cfg b (of_nat i) = Inr None"
    and "i \<le> n \<Longrightarrow> n < length es \<Longrightarrow> fst (es ! n) = k \<Longrightarrow> find_from cfg b (of_nat i) = Inr (Some (of_nat n))"
proof -
  have u: "unat (of_nat j :: size_t) = j" if "j \<le> length es" for j
    using assms(1) that by (intro unat_of_nat_small) (simp add: represents_def)
  have step: "find_from cfg b (of_nat j) =
      (if j < length es then
         (if k = fst (es ! j) then Inr (Some (of_nat j)) else find_from cfg b (of_nat (Suc j)))
       else Inr None)" if "j \<le> length es" for j
  proof -
    have "of_nat j < c_count cfg \<longleftrightarrow> j < length es"
      using u [OF that] represents_count [OF assms(1)] by (simp add: word_less_nat_alt)
    moreover have "is_cstr (fst (es ! j))" if "j < length es"
      using assms(1) that by (auto simp: represents_def)
    ultimately show ?thesis
      using represents_entry [OF assms(1), of j] streq_cbuf [OF assms(2)]
      by (subst find_from.simps) (simp add: entry_of_def add.commute)
  qed
  show "find_from cfg b (of_nat i) = Inr None" if "k \<notin> fst ` set (drop i es)"
    using assms(3) that
  proof (induction i rule: inc_induct)
    case base
    then show ?case by (simp add: step)
  next
    case (step j)
    then show ?case
      by (auto simp: \<open>\<And>j. j \<le> length es \<Longrightarrow> find_from cfg b (of_nat j) = _\<close> simp flip: Cons_nth_drop_Suc)
  qed
  show "find_from cfg b (of_nat i) = Inr (Some (of_nat n))"
    if n: "i \<le> n" "n < length es" "fst (es ! n) = k"
    using n(1)
  proof (induction i rule: inc_induct)
    case base
    then show ?case using n by (simp add: step)
  next
    case (step j)
    have "fst (es ! j) \<noteq> k"
      using assms(1) n step(2) nth_eq_iff_index_eq [of "map fst es" j n] by (auto simp: represents_def)
    then show ?case
      using step n by (simp add: \<open>\<And>j. j \<le> length es \<Longrightarrow> find_from cfg b (of_nat j) = _\<close>)
  qed
qed

lemma ensure_spec:
  assumes "represents cfg es" "length es + 1 < 2 ^ 56"
  shows "c_count (ensure cfg) = c_count cfg" "length es < unat (c_capacity (ensure cfg))"
    "unat (c_capacity (ensure cfg)) \<le> max 32 (2 * (length es + 1))"
    "c_entries (ensure cfg) =
       map (Some \<circ> entry_of) es @ replicate (unat (c_capacity (ensure cfg)) - length es) None"
proof -
  define n where "n = length es"
  define cap where "cap = unat (c_capacity cfg)"
  note rep = assms(1)[unfolded represents_def, folded n_def cap_def]
  have count: "unat (c_count cfg + 1) = n + 1"
    using unat_of_nat_small(1) [of "n + 1"] rep assms(2) by (simp add: n_def add.commute)
  then have room: "c_count cfg + 1 < c_capacity cfg \<longleftrightarrow> n + 1 < cap"
    by (simp add: word_less_nat_alt cap_def)
  have zero: "c_capacity cfg = 0 \<longleftrightarrow> cap = 0"
    by (simp add: cap_def unat_eq_zero)
  have len: "length (c_entries cfg) = cap"
    using rep by (simp add: n_def)
  show "c_count (ensure cfg) = c_count cfg"
    by (simp add: ensure_def Let_def)
  have "length es < unat (c_capacity (ensure cfg)) \<and>
      unat (c_capacity (ensure cfg)) \<le> max 32 (2 * (length es + 1)) \<and>
      c_entries (ensure cfg) =
        map (Some \<circ> entry_of) es @ replicate (unat (c_capacity (ensure cfg)) - length es) None"
  proof (cases "n + 1 < cap")
    case True
    then have "ensure cfg = cfg"
      using room by (simp add: ensure_def)
    moreover have "unat (c_capacity cfg) \<le> max 32 (2 * (length es + 1))"
      using rep by (auto simp: n_def cap_def)
    ultimately show ?thesis
      using rep True by (simp add: n_def cap_def)
  next
    case False
    show ?thesis
    proof (cases "cap = 0")
      case True
      then have z: "c_capacity cfg = 0" and es: "es = []" and slots: "c_entries cfg = []"
        using zero rep len by auto
      show ?thesis
        by (simp add: ensure_def z es slots Let_def CC_CFG_DEFAULT_CAPACITY_def sizeof_entry_def resize_def)
    next
      case nz: False
      have small: "cap * 80 < 2 ^ 64"
        using False assms(2) by (simp add: n_def)
      then have dbl: "unat (c_capacity cfg * 2) = cap * 2"
        using unat_mult_lem [of "c_capacity cfg" 2] by (simp add: cap_def)
      then have "unat (c_capacity cfg * 2 * 40) = cap * 80"
        using unat_mult_lem [of "c_capacity cfg * 2" 40] small by simp
      then have slots: "unat (c_capacity cfg * 2 * sizeof_entry) div unat sizeof_entry = cap * 2"
        by (simp add: sizeof_entry_def)
      have "c_entries (ensure cfg) = c_entries cfg @ replicate cap None"
        using nz zero room False len slots by (simp add: ensure_def Let_def resize_def)
      moreover have "replicate (cap - n) None @ replicate cap None = replicate (cap * 2 - n) (None :: cc_cfg_entry option)"
        using rep by (simp flip: replicate_add)
      moreover have "unat (c_capacity (ensure cfg)) = cap * 2"
        using nz zero room False dbl by (simp add: ensure_def Let_def)
      ultimately show ?thesis
        using rep nz False by (simp add: n_def)
    qed
  qed
  then show "length es < unat (c_capacity (ensure cfg))"
    "unat (c_capacity (ensure cfg)) \<le> max 32 (2 * (length es + 1))"
    "c_entries (ensure cfg) =
       map (Some \<circ> entry_of) es @ replicate (unat (c_capacity (ensure cfg)) - length es) None"
    by blast+
qed

definition ensure_key :: "config \<Rightarrow> byte list \<Rightarrow> config" where
  "ensure_key es k = (if k \<in> fst ` set es then es else es @ [(k, None)])"

definition put :: "config \<Rightarrow> byte list \<Rightarrow> cfg_fields \<Rightarrow> config" where
  "put es k fs = map (\<lambda>(k', f). if k' = k then (k', Some fs) else (k', f)) es"

lemma find_entry_or_add_spec:
  assumes rep: "represents cfg es" and key: "read_str b = Inr k" "length k + 1 < 2 ^ 64"
    and room: "length es + 1 < 2 ^ 56"
  shows "\<exists>cfg' n. find_entry_or_add bd cfg b = Inr (cfg', of_nat n) \<and>
    represents cfg' (ensure_key es k) \<and> n < length (ensure_key es k) \<and> fst (ensure_key es k ! n) = k"
proof (cases "k \<in> fst ` set es")
  case True
  then obtain n where "n < length es" "fst (es ! n) = k"
    by (auto simp: in_set_conv_nth)
  then show ?thesis
    using find_from_spec(2) [OF rep key(1), of 0 n] rep True
    by (auto simp: find_entry_or_add_def ensure_key_def)
next
  case False
  have dup: "string_duplicate bd b = Inr (cbuf k)"
    using string_duplicate_string key by (auto simp: read_str_iff)
  have n: "unat (c_count (ensure cfg)) = length es"
    using represents_count [OF rep] ensure_spec(1) [OF rep room] by simp
  let ?e = "\<lparr>e_key = cbuf k, e_fields = None\<rparr>"
  let ?cfg = "(ensure cfg)\<lparr>c_count := c_count (ensure cfg) + 1,
    c_entries := (c_entries (ensure cfg))[length es := Some ?e]\<rparr>"
  have "replicate (unat (c_capacity (ensure cfg)) - length es) None =
      None # replicate (unat (c_capacity (ensure cfg)) - Suc (length es)) (None :: cc_cfg_entry option)"
    using ensure_spec(2) [OF rep room] by (simp add: Suc_diff_Suc flip: replicate_Suc)
  then have slots: "(c_entries (ensure cfg))[length es := Some ?e] =
      map (Some \<circ> entry_of) (es @ [(k, None)]) @
      replicate (unat (c_capacity (ensure cfg)) - Suc (length es)) None"
    using ensure_spec(4) [OF rep room] by (simp add: list_update_append entry_of_def)
  have "represents ?cfg (es @ [(k, None)])"
    unfolding represents_def
  proof (intro conjI)
    show "c_entries ?cfg = map (Some \<circ> entry_of) (es @ [(k, None)]) @
        replicate (unat (c_capacity ?cfg) - length (es @ [(k, None)])) None"
      using slots by simp
    show "c_count ?cfg = of_nat (length (es @ [(k, None)]))"
      using ensure_spec(1) [OF rep room] rep by (simp add: represents_def)
    show "length (es @ [(k, None)]) \<le> unat (c_capacity ?cfg)" "c_capacity ?cfg = 0 \<longrightarrow> es @ [(k, None)] = []"
      using ensure_spec(2) [OF rep room] by auto
    show "unat (c_capacity ?cfg) \<le> max 32 (2 * length (es @ [(k, None)]))"
      using ensure_spec(3) [OF rep room] by simp
  qed (use room rep False key read_str_cstr in \<open>auto simp: represents_def\<close>)
  moreover have "length es < length (c_entries (ensure cfg))"
    using ensure_spec(2,4) [OF rep room] by simp
  then have "find_entry_or_add bd cfg b = Inr (?cfg, of_nat (length es))"
    using find_from_spec(1) [OF rep key(1), of 0] False ensure_spec(1) [OF rep room] rep
    by (simp add: find_entry_or_add_def Let_def dup n) (use n in \<open>simp add: represents_def\<close>)
  ultimately show ?thesis
    using False by (intro exI [of _ ?cfg] exI [of _ "length es"]) (simp add: ensure_key_def)
qed

lemma put_nth:
  assumes "distinct (map fst es)" "n < length es" "fst (es ! n) = k"
  shows "put es k fs = es[n := (k, Some fs)]"
proof (rule nth_equalityI)
  fix j assume "j < length (put es k fs)"
  then have j: "j < length es" by (simp add: put_def)
  have "fst (es ! j) = k \<longleftrightarrow> j = n"
    using nth_eq_iff_index_eq [of "map fst es" j n] assms j by simp
  with j assms(2) show "put es k fs ! j = es[n := (k, Some fs)] ! j"
    by (auto simp: put_def nth_list_update split: prod.split)
qed (simp add: put_def)

lemma represents_put:
  assumes "represents cfg es" "n < length es" "fst (es ! n) = k"
  shows "represents (cfg\<lparr>c_entries := (c_entries cfg)[unat (of_nat n :: size_t) :=
      Some (entry_of (es ! n)\<lparr>e_fields := Some fs\<rparr>)]\<rparr>) (put es k fs)"
proof -
  have u: "unat (of_nat n :: size_t) = n"
    using assms by (intro unat_of_nat_small) (simp add: represents_def)
  have put: "put es k fs = es[n := (k, Some fs)]"
    using put_nth assms by (simp add: represents_def)
  have keys: "map fst (put es k fs) = map fst es"
    by (auto simp: put_def)
  then have "fst ` set (put es k fs) = fst ` set es"
    by (metis list.set_map)
  with keys u assms show ?thesis
    by (auto simp: represents_def put list_update_append map_update entry_of_def)
qed

section \<open>Lines\<close>

definition line_spec :: "config \<Rightarrow> byte list \<Rightarrow> (config \<times> bool) res" where
  "line_spec es s =
     (if 58 \<notin> set s then Inr (es, False)
      else
        let k = before 58 s; es = ensure_key es k in
        bindE (value_spec (dropWhile isspace (behind 58 s))) (\<lambda>v.
        case v of
          None \<Rightarrow> Inr (es, False)
        | Some (rest, fs) \<Rightarrow> Inr (put es k fs, is_comment (dropWhile isspace rest))))"

lemma length_ensure_key: "length (ensure_key es k) \<le> Suc (length es)"
  by (simp add: ensure_key_def)

lemma length_line_spec:
  "line_spec es s = Inr (es', ok) \<Longrightarrow> length es' \<le> Suc (length es)"
  using length_ensure_key [of es "before 58 s"]
  by (auto simp: line_spec_def Let_def put_def bindE_eq_Inr split: if_splits option.splits)

text \<open>
  What the parser has in its hands before it parses the value of a line: the key, what is left of the
  line without leading white space, and the entry.
\<close>

lemma line_parts:
  assumes "represents cfg es" "read_str b = Inr s" "58 \<in> set s" "length s < 2 ^ 56" "length es + 1 < 2 ^ 56"
  shows "\<exists>b1 b2 cfg1 n. split_at_sep b = Inr (Some (cbuf (before 58 s), b1)) \<and> trim b1 = Inr b2 \<and>
    read_str b2 = Inr (dropWhile isspace (behind 58 s)) \<and>
    find_entry_or_add bd cfg (cbuf (before 58 s)) = Inr (cfg1, of_nat n) \<and>
    represents cfg1 (ensure_key es (before 58 s)) \<and> n < length (ensure_key es (before 58 s)) \<and>
    fst (ensure_key es (before 58 s) ! n) = before 58 s \<and>
    implements (parse_value bd b2) (value_spec (dropWhile isspace (behind 58 s)))"
proof -
  define k where "k = before 58 s"
  define v where "v = dropWhile isspace (behind 58 s)"
  obtain b1 where b1: "split_at_sep b = Inr (Some (cbuf k, b1))" "read_str b1 = Inr (behind 58 s)"
    using split_at_sep_spec [OF assms(2)] assms(3) by (auto simp: k_def)
  obtain b2 where b2: "trim b1 = Inr b2" "read_str b2 = Inr v"
    using trim_spec [OF b1(2)] by (auto simp: v_def)
  have k: "read_str (cbuf k) = Inr k" "length k + 1 < 2 ^ 64"
    using read_str_cstr [OF assms(2)] is_cstr_before assms(4) length_before [of 58 s] by (auto simp: k_def)
  have "length v \<le> length s"
    using length_behind [of 58 s] length_dropWhile_le [of isspace "behind 58 s"] by (simp add: v_def)
  then have "implements (parse_value bd b2) (value_spec v)"
    using parse_value_spec [OF b2(2)] assms(4) by simp
  then show ?thesis
    using b1(1) b2 find_entry_or_add_spec [OF assms(1) k assms(5), of bd] unfolding k_def v_def by blast
qed

lemma length_value: "length (dropWhile isspace (behind 58 s)) \<le> length s"
  using length_behind [of 58 s] length_dropWhile_le [of isspace "behind 58 s"] by simp

text \<open>What is left of a line behind its value.\<close>

lemma line_rest:
  assumes "read_str b = Inr rest" "length rest < 2 ^ 64"
  shows "\<exists>b'. trim b = Inr b' \<and> read_str b' = Inr (dropWhile isspace rest) \<and>
    line_is_comment b' (of_nat (length (dropWhile isspace rest))) = Inr (is_comment (dropWhile isspace rest))"
proof -
  obtain b' where b': "trim b = Inr b'" "read_str b' = Inr (dropWhile isspace rest)"
    using trim_spec [OF assms(1)] by blast
  moreover have "length (dropWhile isspace rest) < 2 ^ 64"
    using assms(2) length_dropWhile_le [of isspace rest] by simp
  then have "line_is_comment b' (of_nat (length (dropWhile isspace rest))) = Inr (is_comment (dropWhile isspace rest))"
    using line_is_comment_raw b'(2) by (auto simp: read_str_iff)
  ultimately show ?thesis by blast
qed

lemma parse_line_spec:
  assumes rep: "represents cfg es" and line: "read_str b = Inr s"
    and small: "length s < 2 ^ 56" "length es + 1 < 2 ^ 56"
  shows "case line_spec es s of
      Inl e \<Rightarrow> parse_line bd cfg b = Inl e
    | Inr (es', ok) \<Rightarrow> \<exists>cfg'. parse_line bd cfg b = Inr (cfg', ok) \<and> represents cfg' es'"
proof (cases "58 \<in> set s")
  case False
  then show ?thesis
    using split_at_sep_spec [OF line] rep by (simp add: parse_line_def line_spec_def)
next
  case True
  define k where "k = before 58 s"
  define v where "v = dropWhile isspace (behind 58 s)"
  obtain b1 b2 cfg1 n where b1: "split_at_sep b = Inr (Some (cbuf k, b1))" and b2: "trim b1 = Inr b2"
    and add: "find_entry_or_add bd cfg (cbuf k) = Inr (cfg1, of_nat n)" "represents cfg1 (ensure_key es k)"
      "n < length (ensure_key es k)" "fst (ensure_key es k ! n) = k"
    and val: "implements (parse_value bd b2) (value_spec v)"
    using line_parts [OF rep line True small, of bd] unfolding k_def v_def by blast
  have line: "parse_line bd cfg b =
      bindE (parse_value bd b2) (\<lambda>(value, fields).
      case fields of
        None \<Rightarrow> Inr (cfg1, False)
      | Some fs \<Rightarrow>
          let cfg = cfg1\<lparr>c_entries := (c_entries cfg1)[unat (of_nat n :: size_t) :=
                Some (entry_of (ensure_key es k ! n)\<lparr>e_fields := Some fs\<rparr>)]\<rparr> in
          bindE (trim value) (\<lambda>value.
          bindE (read_str value) (\<lambda>text.
          bindE (line_is_comment value (of_nat (length text))) (\<lambda>comment.
          Inr (cfg, text = [] \<or> comment)))))"
    by (simp add: parse_line_def b1 b2 add(1) represents_entry [OF add(2,3)] Let_def cong: option.case_cong)
  have spec: "line_spec es s =
      bindE (value_spec v) (\<lambda>v.
        case v of
          None \<Rightarrow> Inr (ensure_key es k, False)
        | Some (rest, fs) \<Rightarrow> Inr (put (ensure_key es k) k fs, is_comment (dropWhile isspace rest)))"
    unfolding line_spec_def Let_def k_def v_def using True by simp
  show ?thesis
  proof (cases "value_spec v")
    case (Inl e)
    with val show ?thesis by (simp add: line spec implements_def)
  next
    case (Inr q)
    show ?thesis
    proof (cases q)
      case None
      with val Inr add(2) show ?thesis by (auto simp: line spec implements_def)
    next
      case (Some rf)
      obtain rest fs where rf: "rf = (rest, fs)" by (cases rf)
      obtain b3 where b3: "parse_value bd b2 = Inr (b3, Some fs)" "read_str b3 = Inr rest"
        using val Inr Some rf by (auto simp: implements_def)
      have "length rest < 2 ^ 64"
        using value_spec_length [of v rest fs] Inr Some rf length_value [of s] small(1) by (simp add: v_def)
      then obtain b4 where b4: "trim b3 = Inr b4" "read_str b4 = Inr (dropWhile isspace rest)"
        "line_is_comment b4 (of_nat (length (dropWhile isspace rest))) = Inr (is_comment (dropWhile isspace rest))"
        using line_rest [OF b3(2)] by blast
      moreover have "dropWhile isspace rest = [] \<or> is_comment (dropWhile isspace rest) \<longleftrightarrow>
          is_comment (dropWhile isspace rest)"
        unfolding is_comment_def by (auto split: list.split simp del: dropWhile_eq_Nil_conv)
      ultimately show ?thesis
        using represents_put [OF add(2-4), of fs] Inr Some rf b3(1) b4
        by (auto simp: line spec Let_def simp del: dropWhile_eq_Nil_conv)
    qed
  qed
qed

section \<open>Files\<close>

text \<open>
  The next line of a file: leading white space, blank lines included, and carriage returns left
  out; what follows it; whether the file ended before a newline.
\<close>

fun line_of :: "bool \<Rightarrow> byte list \<Rightarrow> byte list \<times> byte list \<times> bool" where
  "line_of started [] = ([], [], True)"
| "line_of started (c # cs) =
     (if \<not> started \<and> isspace c then line_of started cs
      else if c = 13 then line_of started cs
      else if c = 10 then ([], cs, False)
      else let (l, rest, eof) = line_of True cs in (c # l, rest, eof))"

lemma line_of_length:
  "line_of st cs = (l, rest, eof) \<Longrightarrow> length l + length rest \<le> length cs \<and> (\<not> eof \<longrightarrow> length rest < length cs)"
proof (induction st cs arbitrary: l rest eof rule: line_of.induct)
  case (2 st c cs)
  obtain l1 rest1 eof1 where "line_of True cs = (l1, rest1, eof1)"
    by (cases "line_of True cs")
  then show ?case
    using "2.prems" "2.IH"(1,2) [of l rest eof] "2.IH"(3) [of l1 rest1 eof1]
    by (auto split: if_splits)
qed simp

definition reading :: "nat \<Rightarrow> reader \<Rightarrow> byte list \<Rightarrow> bool" where
  "reading N r pre \<longleftrightarrow>
     length (r_line r) = unat (r_capacity r) \<and> unat (r_capacity r) \<le> max 128 (2 * N) \<and>
     length pre + length (r_rest r) \<le> N \<and>
     (\<exists>t. r_line r = map Some pre @ t \<and> (pre \<noteq> [] \<longrightarrow> (\<exists>t'. t = Some 0 # t')))"

lemma reading_grow:
  assumes reading: "reading N r pre" and small: "N < 2 ^ 56" and rest: "r_rest r = c # cs"
  shows "\<exists>line line'. wr (r_line (grow_line (r\<lparr>r_rest := cs\<rparr>) (of_nat (length pre)))) (length pre) c = Inr line \<and>
    wr line (Suc (length pre)) 0 = Inr line' \<and>
    reading N ((grow_line (r\<lparr>r_rest := cs\<rparr>) (of_nat (length pre)))\<lparr>r_line := line'\<rparr>) (pre @ [c])"
proof -
  define n where "n = length pre"
  define cap where "cap = unat (r_capacity r)"
  define r' where "r' = grow_line (r\<lparr>r_rest := cs\<rparr>) (of_nat n)"
  obtain t where t: "r_line r = map Some pre @ t" "pre \<noteq> [] \<longrightarrow> (\<exists>t'. t = Some 0 # t')"
    and len: "length (r_line r) = cap" "cap \<le> max 128 (2 * N)" "n + length (r_rest r) \<le> N"
    using reading by (auto simp: reading_def n_def cap_def)
  have cap_pre: "cap = n + length t"
    using t(1) len(1) by (simp add: n_def)
  have "unat (of_nat n + 2 :: size_t) = n + 2"
    using unat_of_nat_small(1) [of "n + 2"] len(3) small by (simp add: add.commute)
  then have full: "of_nat n + 2 > r_capacity r \<longleftrightarrow> cap < n + 2"
    by (simp add: word_less_nat_alt cap_def)
  have r'_simps: "r_rest r' = cs" "r_eof r' = r_eof r"
    by (simp_all add: r'_def grow_line_def Let_def)
  have "\<exists>t1. r_line r' = map Some pre @ t1 \<and> 2 \<le> length t1 \<and> length (r_line r') = unat (r_capacity r') \<and>
      unat (r_capacity r') \<le> max 128 (2 * N)"
  proof (cases "cap < n + 2")
    case False
    then show ?thesis
      using t len full cap_pre by (auto simp: r'_def grow_line_def cap_def)
  next
    case True
    show ?thesis
    proof (cases "cap = 0")
      case True
      then have z: "r_capacity r = 0" "r_line r = []" "pre = []"
        using len(1) cap_pre by (auto simp: cap_def unat_eq_zero n_def)
      then show ?thesis
        by (simp add: r'_def grow_line_def Let_def resize_def n_def)
    next
      case nz: False
      have dbl: "unat (r_capacity r * 2) = cap * 2"
        using unat_mult_lem [of "r_capacity r" 2] True len(3) small by (simp add: cap_def)
      have "n + 2 \<le> cap * 2"
        using t(2) nz cap_pre by (cases "pre = []"; cases t) (auto simp: n_def)
      moreover have "cap * 2 \<le> max 128 (2 * N)"
        using True len(3) rest by simp
      moreover have "r_line r' = map Some pre @ t @ replicate cap None" "unat (r_capacity r') = cap * 2"
        using True nz full dbl len(1) t(1)
        by (simp_all add: r'_def grow_line_def Let_def resize_def unat_eq_zero cap_def)
      ultimately show ?thesis
        using cap_pre by (auto simp: n_def)
    qed
  qed
  then obtain t1 where t1: "r_line r' = map Some pre @ t1" "2 \<le> length t1"
      "length (r_line r') = unat (r_capacity r')" "unat (r_capacity r') \<le> max 128 (2 * N)"
    by blast
  then obtain a b t2 where t2: "t1 = a # b # t2"
    by (metis Suc_le_length_iff numeral_2_eq_2)
  have "wr (r_line r') n c = Inr (map Some pre @ Some c # b # t2)"
    by (simp add: wr_def t1(1) t2 n_def list_update_append)
  moreover have "wr (map Some pre @ Some c # b # t2) (Suc n) 0 = Inr (map Some (pre @ [c]) @ Some 0 # t2)"
    by (simp add: wr_def n_def list_update_append)
  moreover have "reading N (r'\<lparr>r_line := map Some (pre @ [c]) @ Some 0 # t2\<rparr>) (pre @ [c])"
    using t1 t2 len(3) rest by (simp add: reading_def r'_simps n_def)
  ultimately show ?thesis
    unfolding r'_def n_def by blast
qed

lemma read_line_spec:
  assumes "reading N r pre" "N < 2 ^ 56" "line_of (pre \<noteq> []) (r_rest r) = (l, rest, eof)"
  shows "\<exists>r'. read_line r (of_nat (length pre)) = Inr (r', of_nat (length (pre @ l))) \<and>
    reading N r' (pre @ l) \<and> r_rest r' = rest \<and> r_eof r' = (eof \<or> r_eof r)"
  using assms(1,3)
proof (induction "r_rest r" arbitrary: r pre l)
  case Nil
  then show ?case
    by (subst read_line.simps) (auto simp: reading_def)
next
  case (Cons c cs)
  define n where "n = length pre"
  have rest: "r_rest r = c # cs"
    using Cons.hyps(2) by simp
  have u: "unat (of_nat n :: size_t) = n" "unat (of_nat n + 1 :: size_t) = Suc n"
    using Cons.prems(1) assms(2) unat_of_nat_small [of n] by (simp_all add: reading_def n_def)
  have zero: "(of_nat n :: size_t) = 0 \<longleftrightarrow> pre = []"
    using u(1) by (auto simp: n_def)
  have skip: "reading N (r\<lparr>r_rest := cs\<rparr>) pre"
    using Cons.prems(1) rest by (auto simp: reading_def)
  note step = read_line.simps [of r "of_nat n"]
  note IH = Cons.hyps(1) [of "r\<lparr>r_rest := cs\<rparr>" pre l]
  show ?case
  proof (cases "(pre = [] \<and> isspace c) \<or> c = 13")
    case True
    then have "read_line r (of_nat n) = read_line (r\<lparr>r_rest := cs\<rparr>) (of_nat n)"
      by (subst step) (auto simp: rest zero Let_def)
    moreover have "line_of (pre \<noteq> []) cs = (l, rest, eof)"
      using True Cons.prems(2) rest by (auto split: if_splits)
    ultimately show ?thesis
      using IH skip by (simp add: n_def)
  next
    case no_skip: False
    show ?thesis
    proof (cases "c = 10")
      case True
      then have "read_line r (of_nat n) = Inr (r\<lparr>r_rest := cs\<rparr>, of_nat n)"
        using no_skip by (subst step) (auto simp: rest zero)
      then show ?thesis
        using True no_skip Cons.prems(2) rest skip by (auto simp: n_def)
    next
      case False
      obtain l1 where l1: "l = c # l1" "line_of True cs = (l1, rest, eof)"
        using False no_skip Cons.prems(2) rest by (auto split: prod.splits)
      define r1 where "r1 = grow_line (r\<lparr>r_rest := cs\<rparr>) (of_nat n)"
      have r1: "r_rest r1 = cs" "r_eof r1 = r_eof r"
        by (simp_all add: r1_def grow_line_def Let_def)
      obtain line line' where w: "wr (r_line r1) n c = Inr line" "wr line (Suc n) 0 = Inr line'"
        "reading N (r1\<lparr>r_line := line'\<rparr>) (pre @ [c])"
        using reading_grow [OF Cons.prems(1) assms(2) rest] by (auto simp: r1_def n_def)
      have "read_line r (of_nat n) = read_line (r1\<lparr>r_line := line'\<rparr>) (of_nat n + 1)"
        using False no_skip w by (subst step) (auto simp: rest zero u Let_def simp flip: r1_def)
      moreover have "of_nat n + 1 = (of_nat (length (pre @ [c])) :: size_t)"
        by (simp add: n_def)
      ultimately show ?thesis
        using Cons.hyps(1) [of "r1\<lparr>r_line := line'\<rparr>" "pre @ [c]" l1] w(3) l1 r1
        by (simp add: n_def ac_simps)
    qed
  qed
qed

text \<open>A whole file, line by line, up to the first line that is not accepted.\<close>

function file_spec :: "config \<Rightarrow> byte list \<Rightarrow> (config \<times> bool) res" where
  "file_spec es file =
     (case line_of False file of
        (l, rest, eof) \<Rightarrow>
          (case if is_comment l then Inr (es, True) else line_spec es (before 0 l) of
             Inl e \<Rightarrow> Inl e
           | Inr (es, ok) \<Rightarrow> if \<not> ok \<or> eof then Inr (es, ok) else file_spec es rest))"
  by auto
termination
  by (relation "measure (\<lambda>(es, file). length file)") (auto dest!: line_of_length [OF sym])

declare file_spec.simps [simp del]

lemma read_str_line: "read_str (map Some l @ Some 0 # t) = Inr (before 0 l)"
proof -
  have "l = before 0 l \<or> (\<exists>r. l = before 0 l @ 0 # r)"
    by (induction l) auto
  moreover have "is_cstr (before 0 l)"
    by (induction l) auto
  ultimately show ?thesis
    by (auto simp: read_str_iff) (metis append.assoc append_Cons list.simps(9) map_append)
qed

lemma reading_reset: "reading N r pre \<Longrightarrow> reading N r []"
  by (auto simp: reading_def)

text \<open>Reading the next line into a buffer that is reused.\<close>

lemma next_line:
  assumes "reading N r []" "N < 2 ^ 55" "\<not> r_eof r" "line_of False (r_rest r) = (l, rest, eof)"
  shows "\<exists>r'. read_line r 0 = Inr (r', of_nat (length l)) \<and> reading N r' [] \<and> r_rest r' = rest \<and> r_eof r' = eof \<and>
    ((of_nat (length l) :: size_t) = 0 \<longleftrightarrow> l = []) \<and>
    line_is_comment (r_line r') (of_nat (length l)) = Inr (is_comment l) \<and>
    (\<not> is_comment l \<longrightarrow> read_str (r_line r') = Inr (before 0 l))"
proof -
  have "line_of ([] \<noteq> ([] :: byte list)) (r_rest r) = (l, rest, eof)"
    using assms(4) by simp
  then obtain r' where r': "read_line r 0 = Inr (r', of_nat (length l))" "reading N r' l"
    "r_rest r' = rest" "r_eof r' = eof"
    using read_line_spec [OF assms(1)] assms(2,3) by fastforce
  have "length l < 2 ^ 64"
    using line_of_length [OF assms(4)] assms(1,2) by (auto simp: reading_def)
  note small = unat_of_nat_small(1) [OF this] line_is_comment_raw [OF this]
  obtain t where t: "r_line r' = map Some l @ t" "l \<noteq> [] \<longrightarrow> (\<exists>t'. t = Some 0 # t')"
    using r'(2) by (auto simp: reading_def)
  have "(of_nat (length l) :: size_t) = 0 \<longleftrightarrow> l = []"
    using small(1) by auto
  moreover have "\<not> is_comment l \<longrightarrow> read_str (r_line r') = Inr (before 0 l)"
    using t read_str_line by (auto simp: is_comment_def)
  ultimately show ?thesis
    using r' reading_reset [OF r'(2)] small(2) t(1) by auto
qed

lemma parse_loop_spec:
  assumes "reading N r []" "N < 2 ^ 55" "\<not> r_eof r" "represents cfg es" "length es + length (r_rest r) < 2 ^ 55"
  shows "case file_spec es (r_rest r) of
      Inl e \<Rightarrow> parse_loop bd r cfg = Inl e
    | Inr (es', ok) \<Rightarrow> \<exists>cfg'. parse_loop bd r cfg = Inr (cfg', ok) \<and> represents cfg' es'"
  using assms(1,3-5)
proof (induction "length (r_rest r)" arbitrary: r cfg es rule: less_induct)
  case less
  obtain l rest eof where l: "line_of False (r_rest r) = (l, rest, eof)"
    by (cases "line_of False (r_rest r)")
  obtain r' where r': "read_line r 0 = Inr (r', of_nat (length l))" "reading N r' []" "r_rest r' = rest" "r_eof r' = eof"
    "(of_nat (length l) :: size_t) = 0 \<longleftrightarrow> l = []" "line_is_comment (r_line r') (of_nat (length l)) = Inr (is_comment l)"
    and str: "\<not> is_comment l \<longrightarrow> read_str (r_line r') = Inr (before 0 l)"
    using next_line [OF less.prems(1) assms(2) less.prems(2) l] by blast
  have len: "length l + length rest \<le> length (r_rest r)" "\<not> eof \<longrightarrow> length rest < length (r_rest r)"
    using line_of_length [OF l] by auto
  have small: "length l < 2 ^ 55"
    using len(1) less.prems(4) by linarith
  have continue: "case (if eof then Inr (es1, True) else file_spec es1 rest) of
      Inl e \<Rightarrow> parse_loop bd r' cfg1 = Inl e
    | Inr (es', ok) \<Rightarrow> \<exists>cfg'. parse_loop bd r' cfg1 = Inr (cfg', ok) \<and> represents cfg' es'"
    if "represents cfg1 es1" "length es1 + length rest < 2 ^ 55" for cfg1 es1
  proof (cases eof)
    case True
    then show ?thesis
      using that(1) r'(4) by (simp add: parse_loop.simps [of bd r'])
  next
    case False
    then show ?thesis
      using less.hyps [of r' cfg1 es1] that r'(2-4) len(2) by simp
  qed
  show ?case
  proof (cases "is_comment l")
    case True
    then have loop: "parse_loop bd r cfg = parse_loop bd r' cfg"
      using less.prems(2) r'(1,6) by (subst parse_loop.simps) simp
    have spec: "file_spec es (r_rest r) = (if eof then Inr (es, True) else file_spec es rest)"
      using True l by (subst file_spec.simps) simp
    have "length es + length rest < 2 ^ 55"
      using len(1) less.prems(4) by linarith
    then show ?thesis
      unfolding loop spec by (rule continue [OF less.prems(3)])
  next
    case False
    then have "l \<noteq> []" by (auto simp: is_comment_def)
    have loop: "parse_loop bd r cfg =
        (case parse_line bd cfg (r_line r') of
           Inl e \<Rightarrow> Inl e
         | Inr (cfg, ok) \<Rightarrow> if ok then parse_loop bd r' cfg else Inr (cfg, False))"
      using less.prems(2) r'(1,5,6) False \<open>l \<noteq> []\<close> by (subst parse_loop.simps) simp
    have spec: "file_spec es (r_rest r) =
        (case line_spec es (before 0 l) of
           Inl e \<Rightarrow> Inl e
         | Inr (es, ok) \<Rightarrow> if \<not> ok \<or> eof then Inr (es, ok) else file_spec es rest)"
      using False l by (subst file_spec.simps) simp
    have "length (before 0 l) < 2 ^ 56" "length es + 1 < 2 ^ 56"
      using length_before [of 0 l] small less.prems(4) by simp_all
    note line = parse_line_spec [OF less.prems(3) str [rule_format, OF False] this, of bd]
    show ?thesis
    proof (cases "line_spec es (before 0 l)")
      case (Inl e)
      then show ?thesis using line by (simp add: loop spec)
    next
      case (Inr q)
      obtain es1 ok where q: "q = (es1, ok)" by (cases q)
      obtain cfg1 where cfg1: "parse_line bd cfg (r_line r') = Inr (cfg1, ok)" "represents cfg1 es1"
        using line Inr q by auto
      have "length es1 \<le> Suc (length es)"
        using length_line_spec Inr q by blast
      moreover have "length l > 0"
        using \<open>l \<noteq> []\<close> by simp
      ultimately have "length es1 + length rest < 2 ^ 55"
        using len(1) less.prems(4) by linarith
      then have step: "case (if eof then Inr (es1, True) else file_spec es1 rest) of
          Inl e \<Rightarrow> parse_loop bd r' cfg1 = Inl e
        | Inr (es', ok) \<Rightarrow> \<exists>cfg'. parse_loop bd r' cfg1 = Inr (cfg', ok) \<and> represents cfg' es'"
        by (rule continue [OF cfg1(2)])
      show ?thesis
      proof (cases ok)
        case True
        have "parse_loop bd r cfg = parse_loop bd r' cfg1"
          "file_spec es (r_rest r) = (if eof then Inr (es1, True) else file_spec es1 rest)"
          using cfg1(1) Inr q True by (simp_all add: loop spec)
        with step show ?thesis by (simp only:)
      qed (use cfg1 Inr q in \<open>simp add: loop spec\<close>)
    qed
  qed
qed

text \<open>Loading a file from empty.\<close>

lemma parse_spec:
  assumes "length file < 2 ^ 55"
  shows "case file_spec [] file of
      Inl e \<Rightarrow> parse bd \<lparr>c_count = 0, c_capacity = 0, c_entries = []\<rparr> file = Inl e
    | Inr (es, ok) \<Rightarrow>
        \<exists>cfg. parse bd \<lparr>c_count = 0, c_capacity = 0, c_entries = []\<rparr> file = Inr (cfg, ok) \<and> represents cfg es"
proof -
  let ?r = "\<lparr>r_rest = file, r_eof = False, r_line = [], r_capacity = 0\<rparr>"
  let ?cfg = "\<lparr>c_count = 0, c_capacity = 0, c_entries = []\<rparr> :: cc_cfg"
  have "reading (length file) ?r []" "represents ?cfg []"
    by (simp_all add: reading_def represents_def)
  then show ?thesis
    using parse_loop_spec [of "length file" ?r ?cfg "[]" bd] assms
    by (auto simp: parse_def split: sum.splits)
qed

end
