(* ===== verification/CC_ConfigProps.thy ===== *)
theory CC_ConfigProps
  imports CC_ConfigSpec
begin

text \<open>
  The properties of the configuration parser: what loading a file gives back through the getters,
  that it stays inside its buffers on every file, and what happens to files it does not accept.
\<close>

section \<open>Getters and deletion\<close>

lemma map_of_nth_key: "k \<in> fst ` set es \<Longrightarrow> \<exists>n<length es. fst (es ! n) = k \<and> map_of es k = Some (snd (es ! n))"
proof (induction es)
  case (Cons e es)
  show ?case
  proof (cases "fst e = k")
    case True
    then show ?thesis by (intro exI [of _ 0]) auto
  next
    case False
    with Cons obtain n where "n < length es" "fst (es ! n) = k" "map_of es k = Some (snd (es ! n))"
      by auto
    with False show ?thesis by (intro exI [of _ "Suc n"]) auto
  qed
qed simp

lemma find_entry_spec:
  assumes "represents cfg es" "read_str b = Inr k"
  shows "find_entry cfg b = Inr (map_option (\<lambda>f. entry_of (k, f)) (map_of es k))"
proof (cases "k \<in> fst ` set es")
  case True
  obtain n where n: "n < length es" "fst (es ! n) = k" "map_of es k = Some (snd (es ! n))"
    using map_of_nth_key [OF True] by auto
  have "find_from cfg b 0 = Inr (Some (of_nat n))"
    using find_from_spec(2) [OF assms, of 0 n] n by simp
  then show ?thesis
    using n represents_entry [OF assms(1) n(1)] by (simp add: find_entry_def entry_of_def)
next
  case False
  then have "map_of es k = None"
    by (simp add: map_of_eq_None_iff)
  then show ?thesis
    using find_from_spec(1) [OF assms, of 0] False by (simp add: find_entry_def)
qed

lemma read_format_key: "is_cstr s \<Longrightarrow> read_str (format_key s) = Inr (take 255 s)"
  by (simp add: format_key_def is_cstr_take)

lemma with_fields_spec:
  assumes "represents cfg es" "is_cstr s"
  shows "with_fields cfg s get =
    (case map_of es (take 255 s) of
       None \<Rightarrow> Inr None
     | Some None \<Rightarrow> Inl Uninit
     | Some (Some fs) \<Rightarrow> Inr (get fs))"
  using find_entry_spec [OF assms(1) read_format_key [OF assms(2)]]
  by (auto simp: with_fields_def entry_of_def split: option.split)

text \<open>The buffers an entry owns: its string, if it has one, and its key.\<close>

definition owned :: "byte list \<times> cfg_fields option \<Rightarrow> buf list" where
  "owned kf =
     (case snd kf of
        None \<Rightarrow> []
      | Some fs \<Rightarrow>
          (if f_kind fs = CFG_STR then (case f_str fs of None \<Rightarrow> [] | Some s \<Rightarrow> [s]) else [])) @ [cbuf (fst kf)]"

lemma delete_from_spec:
  assumes "represents cfg es" "i \<le> length es"
  shows "delete_from cfg (of_nat i) =
    (if \<forall>e \<in> set (drop i es). snd e \<noteq> None then Inr (concat (map owned (drop i es))) else Inl Uninit)"
  using assms(2)
proof (induction i rule: inc_induct)
  case base
  have "\<not> of_nat (length es) < c_count cfg"
    using assms(1) by (simp add: represents_def)
  then show ?case
    by (subst delete_from.simps) simp
next
  case (step i)
  have "unat (of_nat i :: size_t) = i"
    using assms(1) step(2) by (intro unat_of_nat_small) (simp add: represents_def)
  then have "of_nat i < c_count cfg"
    using represents_count [OF assms(1)] step(2) by (simp add: word_less_nat_alt)
  moreover have "drop i es = es ! i # drop (Suc i) es"
    using step(2) by (simp add: Cons_nth_drop_Suc)
  moreover have "delete_from cfg (of_nat i + 1) =
      (if \<forall>e \<in> set (drop (Suc i) es). snd e \<noteq> None then Inr (concat (map owned (drop (Suc i) es)))
       else Inl Uninit)"
    using step(3) by (simp add: add.commute)
  ultimately show ?case
    using represents_entry [OF assms(1) step(2)]
    by (subst delete_from.simps) (auto simp: entry_of_def owned_def split: option.splits)
qed

lemma delete_spec:
  "represents cfg es \<Longrightarrow> cc_cfg_delete cfg =
    (if \<forall>e \<in> set es. snd e \<noteq> None then Inr (concat (map owned es)) else Inl Uninit)"
  using delete_from_spec [of cfg es 0] by (simp add: cc_cfg_delete_def)

section \<open>Which entries a load leaves unfinished\<close>

definition filled :: "config \<Rightarrow> bool" where
  "filled es \<longleftrightarrow> (\<forall>e \<in> set es. snd e \<noteq> None)"

lemma filled_butlast: "filled es \<Longrightarrow> filled (butlast es)"
  by (auto simp: filled_def dest: in_set_butlastD)

lemma put_ensure_filled:
  assumes "filled es"
  shows "filled (butlast (ensure_key es k))" "filled (put (ensure_key es k) k fs)"
  using assms by (auto simp: filled_def ensure_key_def put_def dest: in_set_butlastD)

lemma line_spec_filled:
  assumes "filled es" "line_spec es s = Inr (es', ok)"
  shows "filled (butlast es')" "ok \<longrightarrow> filled es'"
  using assms put_ensure_filled [OF assms(1)] filled_butlast
  by (auto simp: line_spec_def Let_def bindE_eq_Inr split: if_splits option.splits)

lemma file_spec_filled:
  "filled es \<Longrightarrow> file_spec es bs = Inr (es', ok) \<Longrightarrow> filled (butlast es') \<and> (ok \<longrightarrow> filled es')"
proof (induction es bs rule: file_spec.induct)
  case (1 es bs)
  obtain l rest eof where l: "line_of False bs = (l, rest, eof)"
    by (cases "line_of False bs")
  obtain es1 ok1 where line: "(if is_comment l then Inr (es, True) else line_spec es (before 0 l)) = Inr (es1, ok1)"
    and then_: "if \<not> ok1 \<or> eof then es' = es1 \<and> ok = ok1 else file_spec es1 rest = Inr (es', ok)"
    using "1.prems"(2) l by (subst (asm) file_spec.simps) (auto split: sum.splits if_splits)
  have "filled (butlast es1)" "ok1 \<longrightarrow> filled es1"
    using line "1.prems"(1) line_spec_filled [of es "before 0 l" es1 ok1] filled_butlast
    by (auto split: if_splits)
  then show ?case
    using then_ "1.IH" [OF l[symmetric] refl line refl] by (auto split: if_splits)
qed

lemma file_spec_error: "file_spec es bs = Inl e \<Longrightarrow> e = BadConversion"
proof (induction es bs rule: file_spec.induct)
  case (1 es bs)
  obtain l rest eof where l: "line_of False bs = (l, rest, eof)"
    by (cases "line_of False bs")
  have line: "line_spec es s = Inl e \<Longrightarrow> e = BadConversion" for s
    by (auto simp: line_spec_def Let_def bindE_eq_Inl value_spec_error split: if_splits option.splits)
  show ?case
    using "1.prems" "1.IH" [OF l[symmetric] refl] l line
    by (subst (asm) file_spec.simps) (auto split: sum.splits if_splits)
qed

section \<open>Writing configurations\<close>

datatype setting = Str_setting "byte list" | Num_setting bool "byte list" | Bool_setting bool

fun setting_text :: "setting \<Rightarrow> byte list" where
  "setting_text (Str_setting s) = 34 # s @ [34]"
| "setting_text (Num_setting neg ds) = (if neg then [45] else []) @ ds"
| "setting_text (Bool_setting b) = (if b then bytes ''true'' else bytes ''false'')"

text \<open>Settings whose text stays on its line, and those whose number is an \<^verbatim>\<open>int\<close> too.\<close>

fun plain_setting :: "setting \<Rightarrow> bool" where
  "plain_setting (Str_setting s) \<longleftrightarrow> set s \<inter> {0, 10, 13, 34} = {}"
| "plain_setting (Num_setting neg ds) \<longleftrightarrow> list_all isdigit ds \<and> ds \<noteq> []"
| "plain_setting (Bool_setting b) \<longleftrightarrow> True"

fun valid_setting :: "setting \<Rightarrow> bool" where
  "valid_setting (Num_setting neg ds) \<longleftrightarrow> plain_setting (Num_setting neg ds) \<and> digits_val 10 ds < 2 ^ 31"
| "valid_setting v \<longleftrightarrow> plain_setting v"

lemma valid_plain: "valid_setting v \<Longrightarrow> plain_setting v"
  by (cases v) auto

fun setting_fields :: "setting \<Rightarrow> cfg_fields" where
  "setting_fields (Str_setting s) = str_fields s"
| "setting_fields (Num_setting neg ds) =
     (let n = digits_val 10 ds; i = (if neg then - int n else int n) in
      \<lparr>f_kind = CFG_NUM, f_str = None, f_f64 = Finite neg (of_nat n), f_i64 = i, f_b = (i \<noteq> 0)\<rparr>)"
| "setting_fields (Bool_setting b) = bool_fields b"

definition valid_key :: "byte list \<Rightarrow> bool" where
  "valid_key k \<longleftrightarrow> \<not> is_comment k \<and> \<not> isspace (hd k) \<and> set k \<inter> {0, 10, 13, 58} = {}"

text \<open>One line per setting: \<^verbatim>\<open>key: value\<close>.\<close>

definition setting_line :: "byte list \<times> setting \<Rightarrow> byte list" where
  "setting_line kv = fst kv @ 58 # 32 # setting_text (snd kv)"

definition config_text :: "(byte list \<times> setting) list \<Rightarrow> byte list" where
  "config_text kvs = concat (map (\<lambda>kv. setting_line kv @ [10]) kvs)"

definition apply_setting :: "byte list \<times> setting \<Rightarrow> config \<Rightarrow> config" where
  "apply_setting kv es = put (ensure_key es (fst kv)) (fst kv) (setting_fields (snd kv))"

lemma digit_facts: "isdigit c \<Longrightarrow> c \<noteq> 45 \<and> c \<noteq> 43 \<and> c \<noteq> 120 \<and> c \<noteq> 88 \<and> c \<noteq> 10 \<and> c \<noteq> 13 \<and> c \<noteq> 0 \<and> c \<noteq> 58"
  by (auto simp: isdigit_def)

lemma scan_sign_digits:
  assumes "list_all isdigit ds" "ds \<noteq> []"
  shows "scan_sign ((if neg then [45] else []) @ ds) = (neg, ds)"
  using assms digit_facts by (cases ds) (auto simp: scan_sign_def)

lemma atof_digits:
  assumes "list_all isdigit ds" "ds \<noteq> []" "digits_val 10 ds < 2 ^ 53"
  shows "atof ((if neg then [45] else []) @ ds) = Finite neg (of_nat (digits_val 10 ds))"
proof -
  have "decimal_value ds = Some (of_nat (digits_val 10 ds))"
    using decimal_value_digits [OF assms(1,2), of "[]"] by simp
  moreover have "(case ds of
        z # x # t' \<Rightarrow> if z = 48 \<and> (x = 120 \<or> x = 88) then hex_value t' else None
      | _ \<Rightarrow> None) = None"
    using assms(1) by (auto simp: isdigit_def split: list.split)
  ultimately show ?thesis
    using fp_round_small [OF assms(3), of neg]
    unfolding atof_def scan_sign_digits [OF assms(1,2)] by simp
qed

lemma setting_value:
  assumes "valid_setting v"
  shows "value_spec (setting_text v) = Inr (Some ([], setting_fields v))"
proof (cases v)
  case (Str_setting s)
  have "34 \<notin> set s" using assms Str_setting by auto
  then show ?thesis
    using Str_setting by (simp add: value_spec_def isdigit_def)
next
  case (Num_setting neg ds)
  define s where "s = (if neg then [45] else []) @ ds"
  have ds: "list_all isdigit ds" "ds \<noteq> []" "digits_val 10 ds < 2 ^ 31"
    using assms Num_setting by auto
  obtain d ds' where d: "ds = d # ds'" "isdigit d"
    using ds by (cases ds) auto
  have atof: "atof s = Finite neg (of_nat (digits_val 10 ds))"
    using atof_digits [OF ds(1,2), of neg] ds(3) by (simp add: s_def)
  have "dropWhile isdigit ds = []"
    using ds(1) by (simp add: list_all_iff)
  moreover have "fp_to_int (atof s) = Inr (if neg then - int (digits_val 10 ds) else int (digits_val 10 ds))"
    unfolding atof using ds(3) by (simp add: fp_to_int_def fp_truncate_def)
  ultimately have "number_fields s = Inr (setting_fields v)" "dropWhile isdigit ds = []"
    using Num_setting by (simp_all add: number_fields_def atof Let_def)
  moreover have "skip_point (dropWhile isdigit ds') = []"
  proof -
    have "dropWhile isdigit ds' = []"
      using ds(1) d by (simp add: list_all_iff)
    then show ?thesis by (simp only: skip_point_def list.case)
  qed
  ultimately have "number_spec s = Inr (Some ([], setting_fields v))"
    using d scan_sign_digits [OF ds(1,2), of neg, folded s_def]
    by (simp add: number_spec_def)
  moreover have "value_spec s = number_spec s"
    using d by (auto simp: value_spec_def s_def)
  ultimately show ?thesis
    using Num_setting by (simp add: s_def)
next
  case (Bool_setting b)
  then show ?thesis
    by (simp add: value_spec_def bytes_def isdigit_def)
qed

lemma setting_text_cstr:
  assumes "plain_setting v"
  shows "set (setting_text v) \<inter> {0, 10, 13} = {}"
proof (cases v)
  case (Num_setting neg ds)
  with assms show ?thesis
    by (auto simp: list_all_iff dest: digit_facts)
qed (use assms in \<open>auto simp: bytes_def\<close>)

lemma setting_text_start:
  assumes "plain_setting v"
  shows "dropWhile isspace (32 # setting_text v) = setting_text v"
proof (cases v)
  case (Num_setting neg ds)
  then obtain d ds' where "ds = d # ds'" "isdigit d"
    using assms by (cases ds) auto
  with Num_setting show ?thesis
    using digit_not_space [of d] by (auto simp: isspace_def)
qed (simp_all add: isspace_def bytes_def)

text \<open>One line of settings, read by the parser.\<close>

lemma setting_line_spec:
  assumes "valid_key (fst kv)" "valid_setting (snd kv)"
  shows "line_spec es (setting_line kv) = Inr (apply_setting kv es, True)"
proof -
  have "58 \<notin> set (fst kv)"
    using assms(1) by (auto simp: valid_key_def)
  then have "before 58 (setting_line kv) = fst kv" "behind 58 (setting_line kv) = 32 # setting_text (snd kv)"
    "58 \<in> set (setting_line kv)"
    by (simp_all add: setting_line_def)
  then show ?thesis
    using setting_value [OF assms(2)] setting_text_start [OF valid_plain [OF assms(2)]]
    by (simp add: line_spec_def Let_def apply_setting_def is_comment_def del: dropWhile.simps(2))
qed

lemma line_of_plain:
  "10 \<notin> set l \<Longrightarrow> 13 \<notin> set l \<Longrightarrow> st \<or> (l \<noteq> [] \<and> \<not> isspace (hd l)) \<Longrightarrow>
   line_of st (l @ 10 # rest) = (l, rest, False)"
proof (induction l arbitrary: st)
  case (Cons c l)
  then show ?case by (cases st) auto
qed auto

lemma before_nul: "0 \<notin> set l \<Longrightarrow> before 0 l = l"
  by (induction l) auto

lemma setting_line_facts:
  assumes "valid_key (fst kv)" "plain_setting (snd kv)"
  shows "line_of False (setting_line kv @ 10 # rest) = (setting_line kv, rest, False)"
    and "before 0 (setting_line kv) = setting_line kv" "\<not> is_comment (setting_line kv)"
proof -
  obtain c k where k: "fst kv = c # k" "\<not> isspace c"
    using assms(1) by (cases "fst kv") (auto simp: valid_key_def is_comment_def)
  show "line_of False (setting_line kv @ 10 # rest) = (setting_line kv, rest, False)"
    using assms(1) setting_text_cstr [OF assms(2)] k
    by (intro line_of_plain) (auto simp: setting_line_def valid_key_def)
  show "before 0 (setting_line kv) = setting_line kv"
    using assms(1) setting_text_cstr [OF assms(2)]
    by (intro before_nul) (auto simp: setting_line_def valid_key_def)
  show "\<not> is_comment (setting_line kv)"
    using assms(1) k by (cases k) (auto simp: setting_line_def valid_key_def is_comment_def)
qed

lemma config_text_spec:
  assumes "\<forall>kv \<in> set kvs. valid_key (fst kv) \<and> valid_setting (snd kv)"
  shows "file_spec es (config_text kvs @ rest) = file_spec (fold apply_setting kvs es) rest"
  using assms
proof (induction kvs arbitrary: es)
  case (Cons kv kvs)
  have unfold_text: "config_text (kv # kvs) @ rest = setting_line kv @ 10 # config_text kvs @ rest"
    by (simp add: config_text_def)
  note kv = setting_line_facts(1) [of kv "config_text kvs @ rest"] setting_line_facts(2,3) [of kv] setting_line_spec [of kv es] valid_plain [of "snd kv"]
  have "file_spec es (config_text (kv # kvs) @ rest) = file_spec (apply_setting kv es) (config_text kvs @ rest)"
    unfolding unfold_text using kv Cons.prems by (subst file_spec.simps) simp
  with Cons show ?case by simp
qed (simp add: config_text_def)

lemma file_spec_empty: "file_spec es [] = Inr (es, True)"
  by (subst file_spec.simps) (simp add: is_comment_def)

text \<open>The last setting of a key is the one that counts.\<close>

lemma map_of_put:
  "map_of (put es k' fs) k = (if k = k' then map_option (\<lambda>_. Some fs) (map_of es k) else map_of es k)"
  by (induction es) (auto simp: put_def)

lemma map_of_ensure_key:
  "map_of (ensure_key es k') k = (if k = k' \<and> map_of es k = None then Some None else map_of es k)"
proof -
  have "k' \<in> fst ` set es \<longleftrightarrow> map_of es k' \<noteq> None"
    by (simp add: map_of_eq_None_iff)
  then show ?thesis
    by (auto simp: ensure_key_def map_add_def split: option.split)
qed

lemma map_of_apply_setting:
  "map_of (apply_setting kv es) k = (if k = fst kv then Some (Some (setting_fields (snd kv))) else map_of es k)"
  by (auto simp: apply_setting_def map_of_put map_of_ensure_key)

lemma map_of_settings:
  "map_of (fold apply_setting kvs es) k =
    (case map_of (rev kvs) k of None \<Rightarrow> map_of es k | Some v \<Rightarrow> Some (Some (setting_fields v)))"
  by (induction kvs arbitrary: es) (auto simp: map_of_apply_setting map_add_def split: option.split)

lemma load_spec:
  assumes "length file < 2 ^ 55"
  shows "case file_spec [] file of
      Inl e \<Rightarrow> cc_cfg_load bd (Some file) = Inl e
    | Inr (es, ok) \<Rightarrow> \<exists>cfg. cc_cfg_load bd (Some file) = Inr (Some cfg) \<and> represents cfg es"
  using parse_spec [OF assms, of bd] by (auto simp: cc_cfg_load_def split: sum.splits)

section \<open>The fields agree with the kind\<close>

definition typed_fields :: "cfg_fields \<Rightarrow> bool" where
  "typed_fields fs \<longleftrightarrow>
     (case f_kind fs of
        CFG_NIL \<Rightarrow> False
      | CFG_STR \<Rightarrow> (\<exists>s. is_cstr s \<and> f_str fs = Some (cbuf s)) \<and> f_i64 fs = 0 \<and> f_b fs
      | CFG_NUM \<Rightarrow> f_str fs = None \<and> fp_to_int (f_f64 fs) = Inr (f_i64 fs) \<and> f_b fs = (f_i64 fs \<noteq> 0)
      | CFG_BOOL \<Rightarrow> f_str fs = None \<and> f_i64 fs = of_bool (f_b fs) \<and> f_f64 fs = Finite False (of_bool (f_b fs)))"

definition typed :: "config \<Rightarrow> bool" where
  "typed es \<longleftrightarrow> (\<forall>e \<in> set es. \<forall>fs. snd e = Some fs \<longrightarrow> typed_fields fs)"

lemma number_spec_typed: "number_spec s = Inr (Some (rest, fs)) \<Longrightarrow> typed_fields fs"
  by (auto simp: number_spec_def number_fields_def typed_fields_def Let_def bindE_eq_Inr split: list.splits if_splits)

lemma fields_typed: "is_cstr t \<Longrightarrow> typed_fields (str_fields t)" "typed_fields (bool_fields b)"
  by (auto simp: typed_fields_def str_fields_def bool_fields_def)

lemma parts_cstr: "is_cstr t \<Longrightarrow> is_cstr (before d t)" "is_cstr t \<Longrightarrow> is_cstr (behind d t)"
  by (induction t) auto

lemma value_spec_typed:
  assumes "value_spec s = Inr (Some (rest, fs))" "is_cstr s"
  shows "typed_fields fs"
proof (cases s)
  case Nil
  with assms(1) show ?thesis by (simp add: value_spec_def)
next
  case (Cons c t)
  then show ?thesis
    using assms fields_typed parts_cstr(1) [of t c] number_spec_typed
    by (fastforce simp: value_spec_def split: if_splits)
qed

lemma line_spec_typed:
  assumes "typed es" "line_spec es s = Inr (es', ok)" "is_cstr s"
  shows "typed es'"
proof -
  have ens: "typed (ensure_key es k)" for k
    using assms(1) by (auto simp: typed_def ensure_key_def)
  have put: "typed (put es1 k fs)" if "typed es1" "typed_fields fs" for es1 k fs
    using that by (auto simp: typed_def put_def split: if_splits)
  have "is_cstr (dropWhile isspace (behind 58 s))"
    using parts_cstr(2) [OF assms(3), of 58] by (auto simp: is_cstr_def dest: set_dropWhileD)
  from value_spec_typed [OF _ this] show ?thesis
    using assms(1,2) ens put
    by (auto simp: line_spec_def Let_def bindE_eq_Inr split: if_splits option.splits)
qed

lemma file_spec_typed: "typed es \<Longrightarrow> file_spec es bs = Inr (es', ok) \<Longrightarrow> typed es'"
proof (induction es bs rule: file_spec.induct)
  case (1 es bs)
  obtain l rest eof where l: "line_of False bs = (l, rest, eof)"
    by (cases "line_of False bs")
  obtain es1 ok1 where line: "(if is_comment l then Inr (es, True) else line_spec es (before 0 l)) = Inr (es1, ok1)"
    and then_: "if \<not> ok1 \<or> eof then es' = es1 \<and> ok = ok1 else file_spec es1 rest = Inr (es', ok)"
    using "1.prems"(2) l by (subst (asm) file_spec.simps) (auto split: sum.splits if_splits)
  have "is_cstr (before 0 l)"
    by (auto simp: is_cstr_def before_def dest: set_takeWhileD)
  then have "typed es1"
    using line "1.prems"(1) line_spec_typed by (auto split: if_splits)
  then show ?case
    using then_ "1.IH" [OF l[symmetric] refl line refl] by (auto split: if_splits)
qed

section \<open>Properties\<close>

lemma load_settings:
  assumes "\<forall>kv \<in> set kvs. valid_key (fst kv) \<and> valid_setting (snd kv)" "length (config_text kvs) < 2 ^ 55"
  shows "\<exists>cfg. cc_cfg_load bd (Some (config_text kvs)) = Inr (Some cfg) \<and> represents cfg (fold apply_setting kvs [])"
proof -
  have "file_spec [] (config_text kvs) = Inr (fold apply_setting kvs [], True)"
    using config_text_spec [OF assms(1), of "[]" "[]"] by (simp add: file_spec_empty)
  then show ?thesis
    using load_spec [OF assms(2), of bd] by auto
qed

lemma with_fields_settings:
  assumes "represents cfg (fold apply_setting kvs [])" "is_cstr k" "length k < 256"
  shows "with_fields cfg k get = Inr (case map_of (rev kvs) k of None \<Rightarrow> None | Some v \<Rightarrow> get (setting_fields v))"
  using with_fields_spec [OF assms(1,2), of get] assms(3) map_of_settings [of kvs "[]" k]
  by (auto split: option.split)

text \<open>
  C2: A file of settings, one \<^verbatim>\<open>key: value\<close> line each, with valid keys and string,
  integer and boolean values, loads in both builds, and the getters give each setting back: the
  last one written under the key, as its own type (integers also as a double and as a boolean,
  booleans and strings as nothing else), and nothing for a key the file does not set.
\<close>

theorem cfg_roundtrip:
  assumes "\<forall>kv \<in> set kvs. valid_key (fst kv) \<and> valid_setting (snd kv)" "length (config_text kvs) < 2 ^ 55"
  shows "\<exists>cfg. cc_cfg_load bd (Some (config_text kvs)) = Inr (Some cfg) \<and>
    (\<forall>k. is_cstr k \<and> length k < 256 \<longrightarrow>
       (let v = map_of (rev kvs) k in
        cc_cfg_key_exists cfg k = Inr (v \<noteq> None) \<and>
        cc_cfg_get_str cfg k = Inr (case v of Some (Str_setting s) \<Rightarrow> Some (cbuf s) | _ \<Rightarrow> None) \<and>
        cc_cfg_get_int cfg k = Inr (case v of
            Some (Num_setting neg ds) \<Rightarrow> Some (if neg then - int (digits_val 10 ds) else int (digits_val 10 ds))
          | _ \<Rightarrow> None) \<and>
        cc_cfg_get_double cfg k = Inr (case v of
            Some (Num_setting neg ds) \<Rightarrow> Some (Finite neg (of_nat (digits_val 10 ds)))
          | _ \<Rightarrow> None) \<and>
        cc_cfg_get_bool cfg k = Inr (case v of
            Some (Num_setting neg ds) \<Rightarrow> Some (digits_val 10 ds \<noteq> 0)
          | Some (Bool_setting b) \<Rightarrow> Some b
          | _ \<Rightarrow> None)))"
proof -
  obtain cfg where cfg: "cc_cfg_load bd (Some (config_text kvs)) = Inr (Some cfg)"
    "represents cfg (fold apply_setting kvs [])"
    using load_settings [OF assms] by blast
  note get = with_fields_settings [OF cfg(2)]
  have ex: "cc_cfg_key_exists cfg k = Inr (map_of (rev kvs) k \<noteq> None)" if "is_cstr k" "length k < 256" for k
    using find_entry_spec [OF cfg(2) read_format_key [OF that(1)]] that(2) map_of_settings [of kvs "[]" k]
    by (auto simp: cc_cfg_key_exists_def split: option.splits)
  have getters: "let v = map_of (rev kvs) k in
        cc_cfg_key_exists cfg k = Inr (v \<noteq> None) \<and>
        cc_cfg_get_str cfg k = Inr (case v of Some (Str_setting s) \<Rightarrow> Some (cbuf s) | _ \<Rightarrow> None) \<and>
        cc_cfg_get_int cfg k = Inr (case v of
            Some (Num_setting neg ds) \<Rightarrow> Some (if neg then - int (digits_val 10 ds) else int (digits_val 10 ds))
          | _ \<Rightarrow> None) \<and>
        cc_cfg_get_double cfg k = Inr (case v of
            Some (Num_setting neg ds) \<Rightarrow> Some (Finite neg (of_nat (digits_val 10 ds)))
          | _ \<Rightarrow> None) \<and>
        cc_cfg_get_bool cfg k = Inr (case v of
            Some (Num_setting neg ds) \<Rightarrow> Some (digits_val 10 ds \<noteq> 0)
          | Some (Bool_setting b) \<Rightarrow> Some b
          | _ \<Rightarrow> None)" if "is_cstr k" "length k < 256" for k
    using ex [OF that]
    by (auto simp: get [OF that] Let_def cc_cfg_get_str_def cc_cfg_get_int_def cc_cfg_get_double_def cc_cfg_get_bool_def
        str_fields_def bool_fields_def fp_nonzero_def split: option.split setting.split)
  show ?thesis
    using cfg(1) getters by blast
qed

theorem cfg_roundtrip_witness:
  "\<exists>cfg. cc_cfg_load Debug (Some (config_text
      [(bytes ''n'', Num_setting True (bytes ''42'')), (bytes ''s'', Str_setting (bytes ''a: b''))])) = Inr (Some cfg) \<and>
    cc_cfg_get_int cfg (bytes ''n'') = Inr (Some (- 42)) \<and>
    cc_cfg_get_str cfg (bytes ''s'') = Inr (Some (cbuf (bytes ''a: b''))) \<and>
    cc_cfg_get_int cfg (bytes ''s'') = Inr None"
proof -
  let ?kvs = "[(bytes ''n'', Num_setting True (bytes ''42'')), (bytes ''s'', Str_setting (bytes ''a: b''))]"
  have "\<forall>kv \<in> set ?kvs. valid_key (fst kv) \<and> valid_setting (snd kv)" "length (config_text ?kvs) < 2 ^ 55"
    by (simp_all add: bytes_def valid_key_def is_comment_def isspace_def isdigit_def digits_val_def
        digit_val_def config_text_def setting_line_def)
  from cfg_roundtrip [OF this, of Debug] show ?thesis
    by (auto simp: Let_def bytes_def digits_val_def digit_val_def isdigit_def)
qed





text \<open>
  C39: A key without a valid value leaves an unfinished entry behind.  Loading still answers with a
  configuration, in which every getter for that key, and the deletion of the configuration, read
  the entry's kind, which was never written.
\<close>

theorem cfg_unfinished_entry:
  assumes "valid_key k" "length k < 256" "10 \<notin> set v" "13 \<notin> set v" "is_cstr v"
    and "value_spec (dropWhile isspace v) = Inr None" "length (k @ 58 # v @ [10]) < 2 ^ 55"
  shows "\<exists>cfg. cc_cfg_load bd (Some (k @ 58 # v @ [10])) = Inr (Some cfg) \<and>
    cc_cfg_key_exists cfg k = Inr True \<and>
    cc_cfg_get_int cfg k = Inl Uninit \<and> cc_cfg_get_str cfg k = Inl Uninit \<and>
    cc_cfg_get_bool cfg k = Inl Uninit \<and> cc_cfg_get_double cfg k = Inl Uninit \<and>
    cc_cfg_get_float cfg k = Inl Uninit \<and> cc_cfg_delete cfg = Inl Uninit"
proof -
  let ?l = "k @ 58 # v"
  obtain c k' where k: "k = c # k'" "\<not> isspace c"
    using assms(1) by (cases k) (auto simp: valid_key_def is_comment_def)
  have cstr: "is_cstr k" "58 \<notin> set k" "10 \<notin> set k" "13 \<notin> set k"
    using assms(1) by (auto simp: valid_key_def is_cstr_def)
  have line: "line_of False (?l @ 10 # []) = (?l, [], False)"
    using cstr assms(3,4) k by (intro line_of_plain) auto
  have "before 0 ?l = ?l"
    using cstr(1) assms(5) by (intro before_nul) (auto simp: is_cstr_def)
  moreover have "\<not> is_comment ?l"
    using assms(1) k by (cases k') (auto simp: valid_key_def is_comment_def)
  moreover have "line_spec [] ?l = Inr ([(k, None)], False)"
    using assms(6) cstr(2) by (simp add: line_spec_def Let_def ensure_key_def)
  ultimately have "file_spec [] (?l @ 10 # []) = Inr ([(k, None)], False)"
    using line by (subst file_spec.simps) simp
  then obtain cfg where cfg: "cc_cfg_load bd (Some (?l @ 10 # [])) = Inr (Some cfg)" "represents cfg [(k, None)]"
    using load_spec [OF assms(7), of bd] by auto
  have uninit: "with_fields cfg k get = Inl Uninit" for get :: "cfg_fields \<Rightarrow> 'x option"
    using with_fields_spec [OF cfg(2) cstr(1), of get] assms(2) by simp
  have "cc_cfg_key_exists cfg k = Inr True"
    using find_entry_spec [OF cfg(2) read_format_key [OF cstr(1)]] assms(2)
    by (simp add: cc_cfg_key_exists_def)
  then show ?thesis
    using cfg(1) delete_spec [OF cfg(2)]
    by (auto simp: uninit cc_cfg_get_int_def cc_cfg_get_str_def cc_cfg_get_bool_def cc_cfg_get_double_def cc_cfg_get_float_def)
qed

theorem cfg_unfinished_entry_witness:
  "\<exists>cfg. cc_cfg_load Debug (Some (bytes ''rate'' @ 58 # bytes '' fast'' @ [10])) = Inr (Some cfg) \<and>
    cc_cfg_get_int cfg (bytes ''rate'') = Inl Uninit \<and> cc_cfg_delete cfg = Inl Uninit"
proof -
  have "value_spec (dropWhile isspace (bytes '' fast'')) = Inr None"
    by (simp add: bytes_def isspace_def value_spec_def isdigit_def)
  moreover have "valid_key (bytes ''rate'')"
    by (simp add: bytes_def valid_key_def is_comment_def isspace_def)
  ultimately show ?thesis
    using cfg_unfinished_entry [of "bytes ''rate''" "bytes '' fast''" Debug] by (auto simp: bytes_def)
qed

text \<open>
  A line without a separator ends the parse, and the failure is not reported: whatever follows
  it, the configuration holds the entries of the lines before it and no other.
\<close>

theorem cfg_errors_are_dropped:
  assumes "\<forall>kv \<in> set kvs. valid_key (fst kv) \<and> valid_setting (snd kv)"
    and "bad \<noteq> []" "\<not> isspace (hd bad)" "\<not> is_comment bad" "set bad \<inter> {0, 10, 13, 58} = {}"
    and "length (config_text kvs @ bad @ 10 # rest) < 2 ^ 55"
  shows "\<exists>cfg cfg'. cc_cfg_load bd (Some (config_text kvs @ bad @ 10 # rest)) = Inr (Some cfg) \<and>
    cc_cfg_load bd (Some (config_text kvs)) = Inr (Some cfg') \<and>
    (\<exists>es. represents cfg es \<and> represents cfg' es)"
proof -
  let ?es = "fold apply_setting kvs []"
  have "line_of False (bad @ 10 # rest) = (bad, rest, False)"
    using assms(2,3,5) by (intro line_of_plain) auto
  moreover have "before 0 bad = bad"
    using assms(5) by (intro before_nul) auto
  moreover have "line_spec ?es bad = Inr (?es, False)"
    using assms(5) by (simp add: line_spec_def)
  ultimately have "file_spec ?es (bad @ 10 # rest) = Inr (?es, False)"
    using assms(4) by (subst file_spec.simps) simp
  then have "file_spec [] (config_text kvs @ bad @ 10 # rest) = Inr (?es, False)"
    using config_text_spec [OF assms(1), of "[]" "bad @ 10 # rest"] by simp
  then obtain cfg where "cc_cfg_load bd (Some (config_text kvs @ bad @ 10 # rest)) = Inr (Some cfg)" "represents cfg ?es"
    using load_spec [OF assms(6), of bd] by auto
  moreover have "file_spec [] (config_text kvs) = Inr (?es, True)"
    using config_text_spec [OF assms(1), of "[]" "[]"] by (simp add: file_spec_empty)
  then obtain cfg' where "cc_cfg_load bd (Some (config_text kvs)) = Inr (Some cfg')" "represents cfg' ?es"
    using load_spec [of "config_text kvs" bd] assms(6) by auto
  ultimately show ?thesis by blast
qed

theorem cfg_errors_are_dropped_witness:
  "\<exists>cfg cfg'. cc_cfg_load Debug (Some (config_text [(bytes ''b'', Bool_setting True)] @ bytes ''junk'' @ 10 # bytes ''c: 1'')) = Inr (Some cfg) \<and>
    cc_cfg_load Debug (Some (config_text [(bytes ''b'', Bool_setting True)])) = Inr (Some cfg') \<and>
    (\<exists>es. represents cfg es \<and> represents cfg' es)"
  by (rule cfg_errors_are_dropped)
    (simp_all add: bytes_def valid_key_def is_comment_def isspace_def config_text_def setting_line_def)

text \<open>
  An integer value outside the range of \<^verbatim>\<open>int\<close> is undefined behaviour: the entry's
  \<^verbatim>\<open>int\<close> is converted from its double unchecked.
\<close>

theorem cfg_large_number:
  assumes "valid_key k" "list_all isdigit ds" "2 ^ 31 < digits_val 10 ds" "digits_val 10 ds < 2 ^ 53"
    and "length (config_text [(k, Num_setting neg ds)]) < 2 ^ 55"
  shows "cc_cfg_load bd (Some (config_text [(k, Num_setting neg ds)])) = Inl BadConversion"
proof -
  define s where "s = (if neg then [45] else []) @ ds"
  let ?kv = "(k, Num_setting neg ds)"
  have "ds \<noteq> []"
    using assms(3) by (auto simp: digits_val_def)
  note ds = assms(2) this
  then have plain: "plain_setting (snd ?kv)" by simp
  obtain d ds' where d: "ds = d # ds'" "isdigit d"
    using ds by (cases ds) auto
  have "number_fields s = Inl BadConversion"
    using atof_digits [OF ds assms(4), of neg] assms(3) by (auto simp: s_def number_fields_def fp_to_int_def fp_truncate_def Let_def)
  then have "number_spec s = Inl BadConversion"
    using d scan_sign_digits [OF ds, of neg, folded s_def] by (simp add: number_spec_def)
  moreover have "value_spec s = number_spec s"
    using d by (auto simp: value_spec_def s_def)
  moreover have "dropWhile isspace (32 # s) = s"
    using setting_text_start [OF plain] by (simp add: s_def del: dropWhile.simps)
  moreover have "before 58 (setting_line ?kv) = k" "behind 58 (setting_line ?kv) = 32 # s" "58 \<in> set (setting_line ?kv)"
    using assms(1) by (auto simp: setting_line_def valid_key_def s_def)
  ultimately have "line_spec [] (setting_line ?kv) = Inl BadConversion"
    by (simp add: line_spec_def del: dropWhile.simps(2))
  then have "file_spec [] (setting_line ?kv @ 10 # []) = Inl BadConversion"
    using setting_line_facts [OF _ plain] assms(1) by (subst file_spec.simps) simp
  then show ?thesis
    using load_spec [OF assms(5), of bd] by (simp add: config_text_def)
qed

theorem cfg_large_number_witness:
  "cc_cfg_load Debug (Some (config_text [(bytes ''n'', Num_setting False (bytes ''3000000000''))])) = Inl BadConversion"
  by (rule cfg_large_number)
    (simp_all add: bytes_def valid_key_def is_comment_def isspace_def isdigit_def digits_val_def
      digit_val_def config_text_def setting_line_def)

text \<open>
  The getters cut the key they look for to 255 bytes, the loader does not: a setting under a
  longer key is stored but never found.
\<close>

theorem cfg_long_key:
  assumes "\<forall>kv \<in> set kvs. valid_key (fst kv) \<and> valid_setting (snd kv)" "length (config_text kvs) < 2 ^ 55"
    and "is_cstr k" "255 < length k" "take 255 k \<notin> fst ` set kvs"
  shows "\<exists>cfg. cc_cfg_load bd (Some (config_text kvs)) = Inr (Some cfg) \<and>
    cc_cfg_key_exists cfg k = Inr False \<and> cc_cfg_get_int cfg k = Inr None \<and>
    cc_cfg_get_str cfg k = Inr None \<and> cc_cfg_get_bool cfg k = Inr None"
proof -
  let ?es = "fold apply_setting kvs []"
  have "file_spec [] (config_text kvs) = Inr (?es, True)"
    using config_text_spec [OF assms(1), of "[]" "[]"] by (simp add: file_spec_empty)
  then obtain cfg where cfg: "cc_cfg_load bd (Some (config_text kvs)) = Inr (Some cfg)" "represents cfg ?es"
    using load_spec [OF assms(2), of bd] by auto
  have "map_of (rev kvs) (take 255 k) = None"
    using assms(5) by (simp add: map_of_eq_None_iff)
  then have none: "map_of ?es (take 255 k) = None"
    by (simp add: map_of_settings)
  have get: "with_fields cfg k get = Inr None" for get :: "cfg_fields \<Rightarrow> 'x option"
    by (simp add: with_fields_spec [OF cfg(2) assms(3)] none)
  have "cc_cfg_key_exists cfg k = Inr False"
    using find_entry_spec [OF cfg(2) read_format_key [OF assms(3)]] none
    by (simp add: cc_cfg_key_exists_def)
  then show ?thesis
    using cfg(1) by (auto simp: get cc_cfg_get_int_def cc_cfg_get_str_def cc_cfg_get_bool_def)
qed

theorem cfg_long_key_witness:
  "\<exists>cfg. cc_cfg_load Debug (Some (config_text [(replicate 300 97, Bool_setting True)])) = Inr (Some cfg) \<and>
    cc_cfg_key_exists cfg (replicate 300 97) = Inr False"
proof -
  have "valid_key (replicate 300 97)"
  proof -
    have "replicate 300 (97 :: byte) = 97 # replicate 299 97"
      by (simp flip: replicate_Suc)
    then have "\<not> is_comment (replicate 300 97)" "hd (replicate 300 97) = (97 :: byte)"
      by (simp_all add: is_comment_def)
    then show ?thesis
      by (simp add: valid_key_def isspace_def)
  qed
  then show ?thesis
    using cfg_long_key [of "[(replicate 300 97, Bool_setting True)]" "replicate 300 97" Debug]
    by (auto simp: config_text_def setting_line_def bytes_def is_cstr_def)
qed

text \<open>
  Deleting a configuration whose settings all loaded frees each entry's string, if it has one,
  and its key, once each and in the order of the entries, and reads nothing unwritten.
\<close>

theorem cfg_delete_frees:
  assumes "\<forall>kv \<in> set kvs. valid_key (fst kv) \<and> valid_setting (snd kv)" "length (config_text kvs) < 2 ^ 55"
  shows "\<exists>cfg es. cc_cfg_load bd (Some (config_text kvs)) = Inr (Some cfg) \<and> represents cfg es \<and>
    map_of es = (\<lambda>k. map_option (Some \<circ> setting_fields) (map_of (rev kvs) k)) \<and>
    cc_cfg_delete cfg = Inr (concat (map owned es))"
proof -
  let ?es = "fold apply_setting kvs []"
  have file_spec: "file_spec [] (config_text kvs) = Inr (?es, True)"
    using config_text_spec [OF assms(1), of "[]" "[]"] by (simp add: file_spec_empty)
  then obtain cfg where cfg: "cc_cfg_load bd (Some (config_text kvs)) = Inr (Some cfg)" "represents cfg ?es"
    using load_spec [OF assms(2), of bd] by auto
  have "filled ?es"
    using file_spec_filled [OF _ file_spec] by (simp add: filled_def)
  then have "cc_cfg_delete cfg = Inr (concat (map owned ?es))"
    using delete_spec [OF cfg(2)] by (simp add: filled_def)
  moreover have "map_of ?es = (\<lambda>k. map_option (Some \<circ> setting_fields) (map_of (rev kvs) k))"
    by (rule ext) (simp add: map_of_settings split: option.split)
  ultimately show ?thesis
    using cfg by blast
qed

theorem cfg_delete_frees_witness:
  "\<exists>cfg es. cc_cfg_load Debug (Some (config_text [(bytes ''s'', Str_setting (bytes ''x''))])) = Inr (Some cfg) \<and>
    represents cfg es \<and> map_of es (bytes ''s'') = Some (Some (str_fields (bytes ''x''))) \<and>
    cc_cfg_delete cfg = Inr (concat (map owned es))"
proof -
  let ?kvs = "[(bytes ''s'', Str_setting (bytes ''x''))]"
  have "\<forall>kv \<in> set ?kvs. valid_key (fst kv) \<and> valid_setting (snd kv)" "length (config_text ?kvs) < 2 ^ 55"
    by (simp_all add: bytes_def valid_key_def is_comment_def isspace_def config_text_def setting_line_def)
  from cfg_delete_frees [OF this, of Debug] obtain cfg es where
    "cc_cfg_load Debug (Some (config_text ?kvs)) = Inr (Some cfg)" "represents cfg es"
    "map_of es = (\<lambda>k. map_option (Some \<circ> setting_fields) (map_of (rev ?kvs) k))"
    "cc_cfg_delete cfg = Inr (concat (map owned es))"
    by blast
  moreover from this(3) have "map_of es (bytes ''s'') = Some (Some (str_fields (bytes ''x'')))"
    by simp
  ultimately show ?thesis by blast
qed

end
