(* ===== verification/CC_Math.thy ===== *)
theory CC_Math
  imports CC_Float
begin

text \<open>
  The mathematics of include/ccore/math.h and src/math.c: minima, maxima, clamping and
  interpolation on the four types the generic macros accept, the vectors, and the two intersection
  routines.  Arithmetic on \<^verbatim>\<open>double\<close> and \<^verbatim>\<open>float\<close> is that of CC_Float, each
  operation rounded on its own (no wider evaluation, no contraction).  \<^verbatim>\<open>int32_t\<close> is a
  word read as signed.
\<close>

section \<open>Numbers\<close>

type_synonym uint32 = "32 word"
type_synonym int32 = "32 word"

definition max_u32 :: "uint32 \<Rightarrow> uint32 \<Rightarrow> uint32" where
  "max_u32 a b = (if a > b then a else b)"

definition min_u32 :: "uint32 \<Rightarrow> uint32 \<Rightarrow> uint32" where
  "min_u32 a b = (if a < b then a else b)"

definition max_i32 :: "int32 \<Rightarrow> int32 \<Rightarrow> int32" where
  "max_i32 a b = (if sint a > sint b then a else b)"

definition min_i32 :: "int32 \<Rightarrow> int32 \<Rightarrow> int32" where
  "min_i32 a b = (if sint a < sint b then a else b)"

definition max_f32 :: "fp \<Rightarrow> fp \<Rightarrow> fp" where
  "max_f32 a b = (if fp_less b a then a else b)"

definition min_f32 :: "fp \<Rightarrow> fp \<Rightarrow> fp" where
  "min_f32 a b = (if fp_less a b then a else b)"

definition max_f64 :: "fp \<Rightarrow> fp \<Rightarrow> fp" where
  "max_f64 a b = (if fp_less b a then a else b)"

definition min_f64 :: "fp \<Rightarrow> fp \<Rightarrow> fp" where
  "min_f64 a b = (if fp_less a b then a else b)"

definition clamp_u32 :: "uint32 \<Rightarrow> uint32 \<Rightarrow> uint32 \<Rightarrow> uint32" where
  "clamp_u32 v lo hi = (if v > lo then (if v < hi then v else hi) else lo)"

definition clamp_i32 :: "int32 \<Rightarrow> int32 \<Rightarrow> int32 \<Rightarrow> int32" where
  "clamp_i32 v lo hi = (if sint v > sint lo then (if sint v < sint hi then v else hi) else lo)"

definition clamp_f32 :: "fp \<Rightarrow> fp \<Rightarrow> fp \<Rightarrow> fp" where
  "clamp_f32 v lo hi = (if fp_less lo v then (if fp_less v hi then v else hi) else lo)"

definition clamp_f64 :: "fp \<Rightarrow> fp \<Rightarrow> fp \<Rightarrow> fp" where
  "clamp_f64 v lo hi = (if fp_less lo v then (if fp_less v hi then v else hi) else lo)"

text \<open>
  The integer interpolations compute in \<^verbatim>\<open>float\<close> and convert the result back, which is
  undefined when it does not fit.
\<close>

definition lerp_f32 :: "fp \<Rightarrow> fp \<Rightarrow> fp \<Rightarrow> fp" where
  "lerp_f32 a b t =
     fp_add binary32 (fp_mul binary32 a (fp_sub binary32 (Finite False 1) t)) (fp_mul binary32 b t)"

definition lerp_f64 :: "fp \<Rightarrow> fp \<Rightarrow> fp \<Rightarrow> fp" where
  "lerp_f64 a b t =
     fp_add binary64 (fp_mul binary64 a (fp_sub binary64 (Finite False 1) t)) (fp_mul binary64 b t)"

definition lerp_u32 :: "uint32 \<Rightarrow> uint32 \<Rightarrow> fp \<Rightarrow> uint32 res" where
  "lerp_u32 a b t =
     bindE (fp_truncate (lerp_f32 (fp_of_int binary32 (uint a)) (fp_of_int binary32 (uint b)) t) 0 (2 ^ 32))
       (\<lambda>n. Inr (word_of_int n))"

definition lerp_i32 :: "int32 \<Rightarrow> int32 \<Rightarrow> fp \<Rightarrow> int32 res" where
  "lerp_i32 a b t =
     bindE (fp_truncate (lerp_f32 (fp_of_int binary32 (sint a)) (fp_of_int binary32 (sint b)) t) (- (2 ^ 31)) (2 ^ 31))
       (\<lambda>n. Inr (word_of_int n))"

section \<open>Vectors\<close>

record vec2_t =
  x2 :: fp
  y2 :: fp

record vec3_t =
  x3 :: fp
  y3 :: fp
  z3 :: fp

definition CC_VEC2 :: "fp \<Rightarrow> fp \<Rightarrow> vec2_t" where
  "CC_VEC2 x y = \<lparr>x2 = x, y2 = y\<rparr>"

definition CC_VEC3 :: "fp \<Rightarrow> fp \<Rightarrow> fp \<Rightarrow> vec3_t" where
  "CC_VEC3 x y z = \<lparr>x3 = x, y3 = y, z3 = z\<rparr>"

definition CC_VEC3_2 :: "vec2_t \<Rightarrow> vec3_t" where
  "CC_VEC3_2 xy = \<lparr>x3 = x2 xy, y3 = y2 xy, z3 = Finite False 0\<rparr>"

definition CC_VEC2_NULL :: vec2_t where
  "CC_VEC2_NULL = CC_VEC2 NaN NaN"

definition CC_VEC3_NULL :: vec3_t where
  "CC_VEC3_NULL = CC_VEC3 NaN NaN NaN"

abbreviation add64 :: "fp \<Rightarrow> fp \<Rightarrow> fp" where "add64 \<equiv> fp_add binary64"
abbreviation sub64 :: "fp \<Rightarrow> fp \<Rightarrow> fp" where "sub64 \<equiv> fp_sub binary64"
abbreviation mul64 :: "fp \<Rightarrow> fp \<Rightarrow> fp" where "mul64 \<equiv> fp_mul binary64"
abbreviation div64 :: "fp \<Rightarrow> fp \<Rightarrow> fp" where "div64 \<equiv> fp_div binary64"
abbreviation (input) zero64 :: fp where "zero64 \<equiv> Finite False 0"
abbreviation (input) one64 :: fp where "one64 \<equiv> Finite False 1"

text \<open>\<^verbatim>\<open>5 * DBL_EPSILON\<close>, which is exact.\<close>

definition small_magnitude :: fp where
  "small_magnitude = Finite False (5 / 2 ^ 52)"

definition vec3_dot :: "vec3_t \<Rightarrow> vec3_t \<Rightarrow> fp" where
  "vec3_dot a b = add64 (add64 (mul64 (x3 a) (x3 b)) (mul64 (y3 a) (y3 b))) (mul64 (z3 a) (z3 b))"

definition vec3_cross :: "vec3_t \<Rightarrow> vec3_t \<Rightarrow> vec3_t" where
  "vec3_cross a b =
     CC_VEC3 (sub64 (mul64 (y3 a) (z3 b)) (mul64 (z3 a) (y3 b)))
       (sub64 (mul64 (z3 a) (x3 b)) (mul64 (x3 a) (z3 b)))
       (sub64 (mul64 (x3 a) (y3 b)) (mul64 (y3 a) (x3 b)))"

definition vec3_sqmag :: "vec3_t \<Rightarrow> fp" where
  "vec3_sqmag a = add64 (add64 (mul64 (x3 a) (x3 a)) (mul64 (y3 a) (y3 a))) (mul64 (z3 a) (z3 a))"

definition vec3_mag :: "vec3_t \<Rightarrow> fp" where
  "vec3_mag a = fp_sqrt binary64 (vec3_sqmag a)"

definition vec3_add :: "vec3_t \<Rightarrow> vec3_t \<Rightarrow> vec3_t" where
  "vec3_add a b = CC_VEC3 (add64 (x3 a) (x3 b)) (add64 (y3 a) (y3 b)) (add64 (z3 a) (z3 b))"

definition vec3_sub :: "vec3_t \<Rightarrow> vec3_t \<Rightarrow> vec3_t" where
  "vec3_sub a b = CC_VEC3 (sub64 (x3 a) (x3 b)) (sub64 (y3 a) (y3 b)) (sub64 (z3 a) (z3 b))"

definition vec3_mul :: "vec3_t \<Rightarrow> fp \<Rightarrow> vec3_t" where
  "vec3_mul a b = CC_VEC3 (mul64 (x3 a) b) (mul64 (y3 a) b) (mul64 (z3 a) b)"

definition vec3_div :: "vec3_t \<Rightarrow> fp \<Rightarrow> vec3_t" where
  "vec3_div a b = CC_VEC3 (div64 (x3 a) b) (div64 (y3 a) b) (div64 (z3 a) b)"

definition vec3_unit :: "vec3_t \<Rightarrow> vec3_t" where
  "vec3_unit v =
     (let m = vec3_mag v in
      if fp_eq m zero64 \<or> fp_less (fp_abs m) small_magnitude then v else vec3_div v m)"

definition vec3_lerp :: "vec3_t \<Rightarrow> vec3_t \<Rightarrow> fp \<Rightarrow> vec3_t" where
  "vec3_lerp a b t = CC_VEC3 (lerp_f64 (x3 a) (x3 b) t) (lerp_f64 (y3 a) (y3 b) t) (lerp_f64 (z3 a) (z3 b) t)"

definition vec2_dot :: "vec2_t \<Rightarrow> vec2_t \<Rightarrow> fp" where
  "vec2_dot a b = add64 (mul64 (x2 a) (x2 b)) (mul64 (y2 a) (y2 b))"

definition vec2_pdot :: "vec2_t \<Rightarrow> vec2_t \<Rightarrow> fp" where
  "vec2_pdot a b = sub64 (mul64 (x2 a) (y2 b)) (mul64 (y2 a) (x2 b))"

definition vec2_neg :: "vec2_t \<Rightarrow> vec2_t" where
  "vec2_neg v = CC_VEC2 (fp_neg (x2 v)) (fp_neg (y2 v))"

definition vec2_sqmag :: "vec2_t \<Rightarrow> fp" where
  "vec2_sqmag a = add64 (mul64 (x2 a) (x2 a)) (mul64 (y2 a) (y2 a))"

definition vec2_mag :: "vec2_t \<Rightarrow> fp" where
  "vec2_mag a = fp_sqrt binary64 (vec2_sqmag a)"

definition vec2_add :: "vec2_t \<Rightarrow> vec2_t \<Rightarrow> vec2_t" where
  "vec2_add a b = CC_VEC2 (add64 (x2 a) (x2 b)) (add64 (y2 a) (y2 b))"

definition vec2_sub :: "vec2_t \<Rightarrow> vec2_t \<Rightarrow> vec2_t" where
  "vec2_sub a b = CC_VEC2 (sub64 (x2 a) (x2 b)) (sub64 (y2 a) (y2 b))"

definition vec2_mul :: "vec2_t \<Rightarrow> fp \<Rightarrow> vec2_t" where
  "vec2_mul a b = CC_VEC2 (mul64 (x2 a) b) (mul64 (y2 a) b)"

definition vec2_div :: "vec2_t \<Rightarrow> fp \<Rightarrow> vec2_t" where
  "vec2_div a b = CC_VEC2 (div64 (x2 a) b) (div64 (y2 a) b)"

definition vec2_unit :: "vec2_t \<Rightarrow> vec2_t" where
  "vec2_unit v =
     (let m = vec2_mag v in
      if fp_eq m zero64 \<or> fp_less (fp_abs m) small_magnitude then v else vec2_div v m)"

definition vec2_lerp :: "vec2_t \<Rightarrow> vec2_t \<Rightarrow> fp \<Rightarrow> vec2_t" where
  "vec2_lerp a b t = CC_VEC2 (lerp_f64 (x2 a) (x2 b) t) (lerp_f64 (y2 a) (y2 b) t)"

section \<open>Intersections\<close>

definition pow2 :: "fp \<Rightarrow> fp" where
  "pow2 a = mul64 a a"

definition vec2_parallel :: "vec2_t \<Rightarrow> vec2_t \<Rightarrow> bool" where
  "vec2_parallel a b \<longleftrightarrow>
     (fp_eq (y2 a) zero64 \<and> fp_eq (y2 b) zero64) \<or> fp_eq (div64 (x2 a) (y2 a)) (div64 (x2 b) (y2 b))"

definition vec2_equal :: "vec2_t \<Rightarrow> vec2_t \<Rightarrow> bool" where
  "vec2_equal a b \<longleftrightarrow> fp_eq (x2 a) (x2 b) \<and> fp_eq (y2 a) (y2 b)"

text \<open>
  \<^verbatim>\<open>out\<close> is an array of the caller, or NULL (\<^const>\<open>None\<close>).  A solution at the
  distance d along the ray counts if the search is not confined to the segment or d is on it.
\<close>

definition out_write :: "vec3_t list option \<Rightarrow> nat \<Rightarrow> vec3_t \<Rightarrow> vec3_t list option res" where
  "out_write out i p =
     (case out of
        None \<Rightarrow> Inr None
      | Some ps \<Rightarrow> if i < length ps then Inr (Some (ps[i := p])) else Inl OutOfBounds)"

definition on_segment :: "bool \<Rightarrow> fp \<Rightarrow> fp \<Rightarrow> bool" where
  "on_segment confined reach_v d \<longleftrightarrow> (fp_le zero64 d \<and> fp_le d reach_v) \<or> \<not> confined"

fun int_sph_roots :: "vec3_t \<Rightarrow> vec3_t \<Rightarrow> bool \<Rightarrow> fp \<Rightarrow> fp list \<Rightarrow> nat \<times> vec3_t list option \<Rightarrow>
    (nat \<times> vec3_t list option) res" where
  "int_sph_roots u pos confined reach_v [] st = Inr st"
| "int_sph_roots u pos confined reach_v (d # ds) (valid, out) =
     (if on_segment confined reach_v d then
        bindE (out_write out valid (vec3_add pos (vec3_mul u d))) (\<lambda>out.
        int_sph_roots u pos confined reach_v ds (valid + 1, out))
      else int_sph_roots u pos confined reach_v ds (valid, out))"

definition vec3_int_sph :: "vec3_t \<Rightarrow> vec3_t \<Rightarrow> vec3_t \<Rightarrow> fp \<Rightarrow> bool \<Rightarrow> vec3_t list option \<Rightarrow>
    (nat \<times> vec3_t list option) res" where
  "vec3_int_sph pos v c r confined out =
     (let u = vec3_unit v; reach_v = vec3_mag v; o_to_c = vec3_sub pos c; u_o_c = vec3_dot u o_to_c;
          delta = add64 (sub64 (pow2 u_o_c) (vec3_sqmag o_to_c)) (pow2 r) in
      bindE (out_write out 0 CC_VEC3_NULL) (\<lambda>out.
      bindE (out_write out 1 CC_VEC3_NULL) (\<lambda>out.
      if fp_less delta zero64 then Inr (0, out)
      else
        let sq_delta = fp_sqrt binary64 delta in
        if fp_eq delta zero64 then
          let d = fp_neg u_o_c in
          if on_segment confined reach_v d then
            bindE (out_write out 0 (vec3_add pos (vec3_mul u d))) (\<lambda>out. Inr (1, out))
          else Inr (0, out)
        else
          int_sph_roots u pos confined reach_v
            (map (\<lambda>m. add64 (fp_neg u_o_c) (mul64 m sq_delta)) [Finite True 1, Finite False 1]) (0, out))))"

definition vec2_int_vec2 :: "vec2_t \<Rightarrow> vec2_t \<Rightarrow> vec2_t \<Rightarrow> vec2_t \<Rightarrow> vec2_t" where
  "vec2_int_vec2 a u b v =
     (if vec2_parallel u v then CC_VEC2_NULL
      else if vec2_equal a b then a
      else
        let w = vec2_sub b a; mw = vec2_sub a b;
            ta = div64 (vec2_pdot w v) (vec2_pdot u v);
            tb = div64 (vec2_pdot mw u) (vec2_pdot v u) in
        if fp_less ta zero64 \<or> fp_less one64 ta \<or> fp_less tb zero64 \<or> fp_less one64 tb then CC_VEC2_NULL
        else vec2_add a (vec2_mul u ta))"

end
