(* ===== verification/CC_MathProps.thy ===== *)
theory CC_MathProps
  imports CC_Math
begin

text \<open>
  What the mathematics promises: clamping stays in its range (and sends NaN to its lower end),
  interpolation is exact at its ends as long as the integers fit a \<^verbatim>\<open>float\<close>, the
  intersection with a sphere never writes outside its two results, and the intersection of two
  segments does not depend on the order they are given in.
\<close>

section \<open>Comparisons and NaN\<close>

lemma fp_nan_simps [simp]:
  "\<not> fp_less NaN x" "\<not> fp_less x NaN" "\<not> fp_eq NaN x" "\<not> fp_eq x NaN"
  "\<not> fp_le NaN x" "\<not> fp_le x NaN"
  "fp_neg NaN = NaN" "fp_add f NaN x = NaN" "fp_add f x NaN = NaN"
  "fp_sub f NaN x = NaN" "fp_sub f x NaN = NaN" "fp_mul f NaN x = NaN" "fp_mul f x NaN = NaN"
  "fp_div f NaN x = NaN" "fp_div f x NaN = NaN" "fp_isnan NaN"
  by (simp_all add: fp_cmp fp_neg_def fp_add_def fp_sub_def fp_mul_def fp_div_def fp_isnan_def split: fp.splits)

lemma fp_round_not_nan [simp]: "fp_round f neg r \<noteq> NaN"
  by (simp add: fp_round_def Let_def)

lemma fp_round_zero [simp]: "fp_round f neg 0 = Finite neg 0"
  by (simp add: fp_round_def)

lemma fp_eq_sym: "fp_eq x y = fp_eq y x"
  by (auto simp: fp_eq_def split: fp.splits)

lemma fp_le_refl: "x \<noteq> NaN \<Longrightarrow> fp_le x x"
  by (cases x) (simp_all add: fp_cmp)

lemma fp_not_less: "\<not> fp_less x y \<Longrightarrow> x \<noteq> NaN \<Longrightarrow> y \<noteq> NaN \<Longrightarrow> fp_le y x"
  by (cases x; cases y) (auto simp: fp_cmp split: if_splits)

lemma clamp_f64_range:
  assumes "fp_le lo hi"
  shows "fp_le lo (clamp_f64 v lo hi)" "fp_le (clamp_f64 v lo hi) hi"
    and "fp_le lo v \<Longrightarrow> fp_le v hi \<Longrightarrow> fp_eq (clamp_f64 v lo hi) v"
    and "clamp_f64 NaN lo hi = lo"
  using assms by (cases lo; cases hi; cases v; auto simp: clamp_f64_def fp_cmp split: if_splits)+

lemma clamp_u32_range:
  assumes "lo \<le> hi"
  shows "lo \<le> clamp_u32 v lo hi" "clamp_u32 v lo hi \<le> hi"
    and "lo \<le> v \<Longrightarrow> v \<le> hi \<Longrightarrow> clamp_u32 v lo hi = v"
  using assms by (auto simp: clamp_u32_def)

lemma clamp_i32_range:
  assumes "sint lo \<le> sint hi"
  shows "sint lo \<le> sint (clamp_i32 v lo hi)" "sint (clamp_i32 v lo hi) \<le> sint hi"
    and "sint lo \<le> sint v \<Longrightarrow> sint v \<le> sint hi \<Longrightarrow> clamp_i32 v lo hi = v"
  using assms by (auto simp: clamp_i32_def dest!: signed_word_eqI)

text \<open>
  Clamping to a range that is not empty stays inside it and leaves what is inside unchanged,
  for each of the types of the generic macro; a NaN clamps to the lower end.
\<close>

theorem clamp_in_range:
  "(lu \<le> hu \<longrightarrow> lu \<le> clamp_u32 u lu hu \<and> clamp_u32 u lu hu \<le> hu \<and>
      (lu \<le> u \<and> u \<le> hu \<longrightarrow> clamp_u32 u lu hu = u)) \<and>
   (sint li \<le> sint hi \<longrightarrow> sint li \<le> sint (clamp_i32 i li hi) \<and> sint (clamp_i32 i li hi) \<le> sint hi \<and>
      (sint li \<le> sint i \<and> sint i \<le> sint hi \<longrightarrow> clamp_i32 i li hi = i)) \<and>
   (fp_le lf hf \<longrightarrow> fp_le lf (clamp_f64 f lf hf) \<and> fp_le (clamp_f64 f lf hf) hf \<and>
      (fp_le lf f \<and> fp_le f hf \<longrightarrow> fp_eq (clamp_f64 f lf hf) f) \<and> clamp_f64 NaN lf hf = lf)"
  by (simp add: clamp_u32_range clamp_i32_range clamp_f64_range)

theorem clamp_in_range_witness:
  "clamp_u32 9 2 5 \<le> 5 \<and> sint (clamp_i32 (- 9) (- 3) 5) \<le> 5 \<and>
   clamp_f64 NaN (Finite True 1) (Finite False 1) = Finite True 1"
  using clamp_in_range [of 2 5 9 "- 3" 5 "- 9" "Finite True 1" "Finite False 1" NaN]
  by (simp add: fp_cmp)

section \<open>Interpolation\<close>

text \<open>Numbers of the format are those that rounding leaves alone.\<close>

definition of_format :: "fp_format \<Rightarrow> fp \<Rightarrow> bool" where
  "of_format f x = (case x of Finite neg r \<Rightarrow> 0 \<le> r \<and> fp_round f neg r = x | _ \<Rightarrow> False)"

lemma fp_add_zero:
  assumes "of_format f (Finite a r)"
  shows "fp_eq (fp_add f (Finite a r) (Finite b 0)) (Finite a r)"
    and "fp_eq (fp_add f (Finite b 0) (Finite a r)) (Finite a r)"
proof -
  have "fp_round f neg r = Finite neg r" "0 \<le> r" for neg
    using assms fp_round_sign [of f a r r] fp_round_sign [of f neg r r] by (auto simp: of_format_def)
  then show "fp_eq (fp_add f (Finite a r) (Finite b 0)) (Finite a r)"
    "fp_eq (fp_add f (Finite b 0) (Finite a r)) (Finite a r)"
    by (auto simp: fp_add_def fp_eq_def signed_value_def)
qed

lemma lerp_ends:
  assumes "of_format f a" "of_format f b" "of_format f (Finite False 1)"
  shows "fp_eq (fp_add f (fp_mul f a (fp_sub f (Finite False 1) (Finite False 0))) (fp_mul f b (Finite False 0))) a"
    and "fp_eq (fp_add f (fp_mul f a (fp_sub f (Finite False 1) (Finite False 1))) (fp_mul f b (Finite False 1))) b"
proof -
  obtain na ra nb rb where ab: "a = Finite na ra" "b = Finite nb rb"
    using assms(1,2) by (cases a; cases b) (auto simp: of_format_def)
  have sub: "fp_sub f (Finite False 1) (Finite False 0) = Finite False 1"
    "fp_sub f (Finite False 1) (Finite False 1) = Finite False 0"
    using assms(3) by (simp_all add: fp_sub_def fp_add_def fp_neg_def signed_value_def of_format_def)
  have mul: "fp_mul f (Finite n r) (Finite False 0) = Finite n 0" for n r
    by (simp add: fp_mul_def fp_round_def)
  have one: "fp_mul f a (Finite False 1) = a" "fp_mul f b (Finite False 1) = b"
    using assms(1,2) by (simp_all add: ab fp_mul_def of_format_def)
  show "fp_eq (fp_add f (fp_mul f a (fp_sub f (Finite False 1) (Finite False 0))) (fp_mul f b (Finite False 0))) a"
    "fp_eq (fp_add f (fp_mul f a (fp_sub f (Finite False 1) (Finite False 1))) (fp_mul f b (Finite False 1))) b"
    using fp_add_zero assms(1,2) by (simp_all add: sub mul one) (simp_all add: ab mul)
qed

lemma of_format_nat:
  "n < 2 ^ 53 \<Longrightarrow> of_format binary64 (Finite neg (of_nat n))"
  "n < 2 ^ 24 \<Longrightarrow> of_format binary32 (Finite neg (of_nat n))"
  by (simp_all add: of_format_def fp_round_small fp_round_small32)

lemma of_format_one: "of_format binary64 (Finite neg 1)" "of_format binary32 (Finite neg 1)"
  using of_format_nat [of 1] by simp_all

lemma fp_of_int_small:
  "\<bar>n\<bar> < 2 ^ 24 \<Longrightarrow> fp_of_int binary32 n = Finite (n < 0) (of_int \<bar>n\<bar>)"
  "\<bar>n\<bar> < 2 ^ 24 \<Longrightarrow> of_format binary32 (fp_of_int binary32 n)"
proof -
  assume n: "\<bar>n\<bar> < 2 ^ 24"
  have r: "\<bar>of_int n\<bar> = (of_nat (nat \<bar>n\<bar>) :: rat)"
    by simp
  have "nat \<bar>n\<bar> < 2 ^ 24"
    using n by (simp add: nat_less_iff)
  note fp_round_small32 [OF this] of_format_nat(2) [OF this]
  then show "fp_of_int binary32 n = Finite (n < 0) (of_int \<bar>n\<bar>)"
    "of_format binary32 (fp_of_int binary32 n)"
    unfolding fp_of_int_def r by simp_all
qed

lemma lerp_f32_int_ends:
  assumes "\<bar>i\<bar> < 2 ^ 24" "\<bar>j\<bar> < 2 ^ 24"
  shows "fp_eq (lerp_f32 (fp_of_int binary32 i) (fp_of_int binary32 j) (Finite False 0)) (Finite (i < 0) (of_int \<bar>i\<bar>))"
    and "fp_eq (lerp_f32 (fp_of_int binary32 i) (fp_of_int binary32 j) (Finite False 1)) (Finite (j < 0) (of_int \<bar>j\<bar>))"
  using lerp_ends [OF fp_of_int_small(2) [OF assms(1)] fp_of_int_small(2) [OF assms(2)] of_format_one(2)]
  unfolding lerp_f32_def fp_of_int_small(1) [OF assms(1)] fp_of_int_small(1) [OF assms(2)] .

lemma fp_truncate_eq:
  assumes "fp_eq x (Finite (n < 0) (of_int \<bar>n\<bar>))" "lo \<le> n" "n < hi"
  shows "fp_truncate x lo hi = Inr n"
proof -
  obtain neg r where x: "x = Finite neg r"
    using assms(1) by (cases x) (simp_all add: fp_eq_def)
  have "signed_value neg r = of_int n"
    using assms(1) by (auto simp: x fp_eq_def signed_value_def split: if_splits)
  then have "r = of_int (if neg then - n else n)"
    by (auto simp: signed_value_def split: if_splits)
  then show ?thesis
    using assms(2,3) by (simp add: x fp_truncate_def)
qed


text \<open>
  Interpolating between two numbers of the format gives back the ends exactly (up to the sign
  of a zero) at 0 and 1; on integers this holds while they are below 2^24, the integers a
  \<^verbatim>\<open>float\<close> can hold.
\<close>

theorem lerp_is_exact_at_ends:
  "(of_format binary64 a \<and> of_format binary64 b \<longrightarrow>
      fp_eq (lerp_f64 a b (Finite False 0)) a \<and> fp_eq (lerp_f64 a b (Finite False 1)) b) \<and>
   (u < 2 ^ 24 \<and> v < 2 ^ 24 \<longrightarrow>
      lerp_u32 u v (Finite False 0) = Inr u \<and> lerp_u32 u v (Finite False 1) = Inr v) \<and>
   (\<bar>sint i\<bar> < 2 ^ 24 \<and> \<bar>sint j\<bar> < 2 ^ 24 \<longrightarrow>
      lerp_i32 i j (Finite False 0) = Inr i \<and> lerp_i32 i j (Finite False 1) = Inr j)"
proof (intro conjI impI)
  assume "of_format binary64 a \<and> of_format binary64 b"
  then show "fp_eq (lerp_f64 a b (Finite False 0)) a" "fp_eq (lerp_f64 a b (Finite False 1)) b"
    by (simp_all add: lerp_f64_def lerp_ends of_format_one)
next
  assume "u < 2 ^ 24 \<and> v < 2 ^ 24"
  then have uv: "\<bar>uint u\<bar> < 2 ^ 24" "\<bar>uint v\<bar> < 2 ^ 24"
    by (simp_all add: word_less_def)
  note ends = lerp_f32_int_ends [OF uv]
  show "lerp_u32 u v (Finite False 0) = Inr u" "lerp_u32 u v (Finite False 1) = Inr v"
    using fp_truncate_eq [OF ends(1), of 0 "2 ^ 32"] fp_truncate_eq [OF ends(2), of 0 "2 ^ 32"] uv
    by (simp_all add: lerp_u32_def)
next
  assume "\<bar>sint i\<bar> < 2 ^ 24 \<and> \<bar>sint j\<bar> < 2 ^ 24"
  then have ij: "\<bar>sint i\<bar> < 2 ^ 24" "\<bar>sint j\<bar> < 2 ^ 24"
    by simp_all
  note ends = lerp_f32_int_ends [OF ij]
  show "lerp_i32 i j (Finite False 0) = Inr i" "lerp_i32 i j (Finite False 1) = Inr j"
    using fp_truncate_eq [OF ends(1), of "- (2 ^ 31)" "2 ^ 31"] fp_truncate_eq [OF ends(2), of "- (2 ^ 31)" "2 ^ 31"] ij
    by (simp_all add: lerp_i32_def)
qed

theorem lerp_is_exact_at_ends_witness:
  "lerp_u32 3 7 (Finite False 1) = Inr 7 \<and> lerp_i32 (- 3) 7 (Finite False 0) = Inr (- 3) \<and>
   fp_eq (lerp_f64 (Finite True 1) (Finite False 1) (Finite False 1)) (Finite False 1)"
  using lerp_is_exact_at_ends [of "Finite True 1" "Finite False 1" 3 7 "- 3" 7]
  by (simp add: of_format_one)

lemma fp_of_int_top:
  assumes "2 ^ 32 - 128 \<le> n" "n < 2 ^ 32"
  shows "fp_of_int binary32 n = Finite False (2 ^ 32)"
proof -
  have len: "bitlen n = 32"
  proof (rule antisym)
    show "bitlen n \<le> 32"
      using assms(2) by (simp add: bitlen_le_iff_power)
    have "\<not> bitlen n \<le> 31"
      using assms(1) by (simp add: bitlen_le_iff_power)
    then show "32 \<le> bitlen n" by simp
  qed
  have r: "\<bar>of_int n\<bar> = (of_nat (nat n) :: rat)"
    using assms(1) by simp
  have "exponent (of_nat (nat n)) = 31"
    using exponent_of_nat [of "nat n"] assms(1) len by simp
  then have u: "ulp_exponent binary32 (of_nat (nat n)) = 8"
    by (simp add: ulp_exponent_def binary32_def)
  have q: "of_nat (nat n) / power_int 2 8 = (of_int n / 256 :: rat)"
    using assms(1) by (simp add: power_int_def)
  have lo: "(2 ^ 24 - 1 / 2 :: rat) \<le> of_int n / 256" and hi: "of_int n / 256 < (2 ^ 24 :: rat)"
  proof -
    have "of_int (2 ^ 32 - 128) \<le> (of_int n :: rat)" "(of_int n :: rat) < of_int (2 ^ 32)"
      using assms by (simp_all only: of_int_le_iff of_int_less_iff)
    then show "(2 ^ 24 - 1 / 2 :: rat) \<le> of_int n / 256" "of_int n / 256 < (2 ^ 24 :: rat)"
      by simp_all
  qed
  then have "floor (of_int n / 256 :: rat) = 2 ^ 24 - 1"
    by (intro floor_unique) simp_all
  then have "rne (of_int n / 256) = 2 ^ 24"
    using lo by (simp add: rne_def)
  then show ?thesis
    using assms(1) unfolding fp_of_int_def r fp_round_def u q Let_def
    by (simp add: power_int_def binary32_def)
qed

lemma round_top: "fp_round binary32 False 4294967296 = Finite False 4294967296"
  by code_simp

lemma fp_of_int_finite:
  assumes "\<bar>n\<bar> < 2 ^ 32"
  shows "\<exists>r. fp_of_int binary32 n = Finite (n < 0) r"
proof (cases "n = 0")
  case False
  define x where "x = (\<bar>of_int n\<bar> :: rat)"
  have x: "0 < x" "x < 2 ^ 32"
  proof -
    have "of_int \<bar>n\<bar> < (of_int (2 ^ 32) :: rat)"
      using assms by (simp only: of_int_less_iff)
    then show "0 < x" "x < 2 ^ 32"
      using False by (simp_all add: x_def)
  qed
  define u where "u = (power_int 2 (ulp_exponent binary32 x) :: rat)"
  have "power_int 2 (exponent x) < (power_int 2 32 :: rat)"
    using exponent_le [OF x(1)] x(2) by simp
  then have "ulp_exponent binary32 x \<le> 8"
    using power_int_le_imp_less_exp [of "2 :: rat" "exponent x" 32] by (simp add: ulp_exponent_def binary32_def)
  then have "u \<le> power_int 2 8"
    unfolding u_def by (intro power_int_increasing) auto
  then have u: "0 < u" "u \<le> 256"
    by (simp_all add: u_def power_int_def)
  have "of_int (rne (x / u)) * u \<le> (x / u + 1 / 2) * u"
    using rne_bounds(1) [of "x / u"] u by (intro mult_right_mono) auto
  also have "\<dots> = x + u / 2"
    using u by (simp add: field_simps)
  also have "\<dots> < power_int 2 128"
    using x(2) u(2) by simp
  finally show ?thesis
    using x(1) by (auto simp: fp_of_int_def fp_round_def Let_def binary32_def u_def simp flip: x_def)
qed (simp add: fp_of_int_def fp_round_def)

text \<open>
  Above that, the way through \<^verbatim>\<open>float\<close> loses the ends: the topmost 128 unsigned
  integers become 2^32, whose conversion back is undefined.
\<close>

theorem lerp_u32_top_is_undefined:
  assumes "2 ^ 32 - 128 \<le> unat a"
  shows "lerp_u32 a b (Finite False 0) = Inl BadConversion"
proof -
  have "int (2 ^ 32 - 128) \<le> int (unat a)"
    using assms by (simp only: of_nat_le_iff)
  then have ua: "2 ^ 32 - 128 \<le> uint a"
    by simp
  have ub: "uint w < 2 ^ 32" "\<bar>uint w\<bar> < 2 ^ 32" for w :: uint32
    using unsigned_less [of w, where ?'a = int] unsigned_greater_eq [of w, where ?'a = int] by simp_all
  obtain nb rb where b: "fp_of_int binary32 (uint b) = Finite nb rb"
    using fp_of_int_finite [OF ub(2)] by blast
  have sub: "fp_sub binary32 (Finite False 1) (Finite False 0) = Finite False 1"
    using of_format_one(2) by (simp add: fp_sub_def fp_add_def fp_neg_def signed_value_def of_format_def)
  have "lerp_f32 (fp_of_int binary32 (uint a)) (fp_of_int binary32 (uint b)) (Finite False 0) = Finite False (2 ^ 32)"
    unfolding lerp_f32_def fp_of_int_top [OF ua ub(1)] b sub
    by (simp add: fp_mul_def fp_add_def signed_value_def round_top)
  then show ?thesis
    by (simp add: lerp_u32_def fp_truncate_def)
qed

theorem lerp_u32_top_is_undefined_witness:
  "lerp_u32 4294967295 5 (Finite False 0) = Inl BadConversion"
  by (rule lerp_u32_top_is_undefined) simp

section \<open>Intersections\<close>

text \<open>
  What the array holds after a search: the solutions found, in the order of their distances in
  \<^term>\<open>ds\<close>, then null vectors.
\<close>

definition solutions :: "vec3_t \<Rightarrow> vec3_t \<Rightarrow> fp list \<Rightarrow> vec3_t list" where
  "solutions pos u ds = map (\<lambda>d. vec3_add pos (vec3_mul u d)) ds"

lemma int_sph_roots_spec:
  assumes "length found + length ds \<le> 2"
  shows "int_sph_roots u pos conf len ds (length found, map_option (\<lambda>_. found @ replicate (2 - length found) z) out) =
    (let sol = found @ solutions pos u (filter (on_segment conf len) ds) in
     Inr (length sol, map_option (\<lambda>_. sol @ replicate (2 - length sol) z) out))"
  using assms
proof (induction ds arbitrary: found)
  case Nil
  then show ?case by (simp add: solutions_def)
next
  case (Cons d ds)
  let ?p = "vec3_add pos (vec3_mul u d)"
  have "(found @ replicate (2 - length found) z)[length found := ?p] = (found @ [?p]) @ replicate (2 - length (found @ [?p])) z"
  proof -
    obtain k where "2 - length found = Suc k"
      using Cons.prems by (cases "2 - length found") auto
    then show ?thesis by (simp add: list_update_append)
  qed
  moreover have "length found < 2"
    using Cons.prems by simp
  ultimately show ?case
    using Cons.IH [of "found @ [?p]"] Cons.IH [of found] Cons.prems
    by (cases out) (auto simp: out_write_def solutions_def Let_def)
qed

lemma out_cleared:
  assumes "case out of None \<Rightarrow> True | Some ps \<Rightarrow> length ps = 2"
  shows "bindE (out_write out 0 z) (\<lambda>out. bindE (out_write out 1 z) f) = f (map_option (\<lambda>_. [z, z]) out)"
proof (cases out)
  case (Some ps)
  with assms obtain p q where "ps = [p, q]"
    by (auto simp: length_Suc_conv numeral_2_eq_2)
  with Some show ?thesis by (simp add: out_write_def)
qed (simp add: out_write_def)

text \<open>The distances along the ray at which it meets the sphere, nearest first.\<close>

definition sphere_distances :: "vec3_t \<Rightarrow> vec3_t \<Rightarrow> vec3_t \<Rightarrow> fp \<Rightarrow> fp list" where
  "sphere_distances pos v c r =
     (let u = vec3_unit v; m = vec3_sub pos c; b = fp_neg (vec3_dot u m);
          delta = add64 (sub64 (pow2 (vec3_dot u m)) (vec3_sqmag m)) (pow2 r) in
      if fp_less delta zero64 then []
      else if fp_eq delta zero64 then [b]
      else [add64 b (mul64 (Finite True 1) (fp_sqrt binary64 delta)),
            add64 b (mul64 (Finite False 1) (fp_sqrt binary64 delta))])"

text \<open>
  C29: The intersection of a ray with a sphere never writes outside the two vectors of the caller
  and asks for none: it answers with the number of solutions, at most two, puts them first and
  leaves null vectors behind them.  The solutions are the points at the distances of the roots; a
  confined search keeps those on the segment.
\<close>

theorem sphere_intersections:
  assumes "case out of None \<Rightarrow> True | Some ps \<Rightarrow> length ps = 2"
  shows "\<exists>sol. vec3_int_sph pos v c r confined out =
      Inr (length sol, map_option (\<lambda>_. sol @ replicate (2 - length sol) CC_VEC3_NULL) out) \<and> length sol \<le> 2 \<and>
    sol = solutions pos (vec3_unit v) (filter (on_segment confined (vec3_mag v)) (sphere_distances pos v c r))"
proof -
  let ?sol = "solutions pos (vec3_unit v) (filter (on_segment confined (vec3_mag v)) (sphere_distances pos v c r))"
  let ?m = "vec3_sub pos c"
  let ?delta = "add64 (sub64 (pow2 (vec3_dot (vec3_unit v) ?m)) (vec3_sqmag ?m)) (pow2 r)"
  have "vec3_int_sph pos v c r confined out =
    Inr (length ?sol, map_option (\<lambda>_. ?sol @ replicate (2 - length ?sol) CC_VEC3_NULL) out)"
  proof -
    note body = vec3_int_sph_def [unfolded Let_def] out_cleared [OF assms] sphere_distances_def [unfolded Let_def]
    consider "fp_less ?delta zero64" | "\<not> fp_less ?delta zero64" "fp_eq ?delta zero64"
      | "\<not> fp_less ?delta zero64" "\<not> fp_eq ?delta zero64" by blast
    then show ?thesis
    proof cases
      case 3
      have "vec3_int_sph pos v c r confined out =
        int_sph_roots (vec3_unit v) pos confined (vec3_mag v) (sphere_distances pos v c r)
          (length ([] :: vec3_t list), map_option (\<lambda>_. [] @ replicate (2 - length ([] :: vec3_t list)) CC_VEC3_NULL) out)"
        unfolding body using 3 by (simp add: numeral_2_eq_2)
      also have "\<dots> = Inr (length ?sol, map_option (\<lambda>_. ?sol @ replicate (2 - length ?sol) CC_VEC3_NULL) out)"
        by (subst int_sph_roots_spec) (auto simp: sphere_distances_def Let_def)
      finally show ?thesis .
    next
      case 1
      then show ?thesis
        unfolding body by (simp add: solutions_def numeral_2_eq_2)
    next
      case 2
      then show ?thesis
        unfolding body by (cases out) (simp_all add: solutions_def out_write_def numeral_2_eq_2)
    qed
  qed
  moreover have "length ?sol \<le> 2"
    using length_filter_le [of "on_segment confined (vec3_mag v)" "sphere_distances pos v c r"]
    by (auto simp: solutions_def sphere_distances_def Let_def split: if_splits)
  ultimately show ?thesis by blast
qed

definition square :: "nat \<Rightarrow> vec3_t" where
  "square n = CC_VEC3 (Finite False (of_nat n)) zero64 zero64"

theorem sphere_intersections_witness:
  "\<exists>sol. vec3_int_sph (square 0) (square 10) (square 5) (Finite False 2) True (Some [square 1, square 1]) =
    Inr (length sol, Some (sol @ replicate (2 - length sol) CC_VEC3_NULL)) \<and> length sol \<le> 2"
  using sphere_intersections [of "Some [square 1, square 1]" "square 0" "square 10" "square 5" "Finite False 2" True] by auto

text \<open>
  Whether two segments cross does not depend on the order they are given in: if the segment
  along u from a meets the segment along v from b, the reverse question gets an answer too, at the
  other parameter of the same pair; both parameters lie in the unit interval.
\<close>

theorem segment_intersection_symmetric:
  assumes "vec2_int_vec2 a u b v = p" "p \<noteq> CC_VEC2_NULL"
  shows "(vec2_equal a b \<and> p = a \<and> vec2_int_vec2 b v a u = b) \<or>
    (\<exists>ta tb. p = vec2_add a (vec2_mul u ta) \<and> vec2_int_vec2 b v a u = vec2_add b (vec2_mul v tb) \<and>
       fp_le zero64 ta \<and> fp_le ta one64 \<and> \<not> fp_less tb zero64 \<and> \<not> fp_less one64 tb \<and>
       ta = div64 (vec2_pdot (vec2_sub b a) v) (vec2_pdot u v) \<and>
       tb = div64 (vec2_pdot (vec2_sub a b) u) (vec2_pdot v u))"
proof -
  have par: "vec2_parallel u v = vec2_parallel v u" "vec2_equal a b = vec2_equal b a"
    by (auto simp: vec2_parallel_def vec2_equal_def fp_eq_sym)
  have np: "\<not> vec2_parallel u v"
    using assms by (auto simp: vec2_int_vec2_def)
  show ?thesis
  proof (cases "vec2_equal a b")
    case True
    then show ?thesis
      using assms np par by (simp add: vec2_int_vec2_def)
  next
    case False
    let ?ta = "div64 (vec2_pdot (vec2_sub b a) v) (vec2_pdot u v)"
    let ?tb = "div64 (vec2_pdot (vec2_sub a b) u) (vec2_pdot v u)"
    have in_unit: "\<not> (fp_less ?ta zero64 \<or> fp_less one64 ?ta \<or> fp_less ?tb zero64 \<or> fp_less one64 ?tb)"
      and p: "p = vec2_add a (vec2_mul u ?ta)"
      using assms np False by (auto simp: vec2_int_vec2_def Let_def split: if_splits)
    have "?ta \<noteq> NaN"
    proof
      assume "?ta = NaN"
      with p assms(2) show False
        by (simp add: vec2_add_def vec2_mul_def CC_VEC2_def CC_VEC2_NULL_def)
    qed
    then have "fp_le zero64 ?ta" "fp_le ?ta one64"
      using in_unit by (auto intro: fp_not_less)
    moreover have "vec2_int_vec2 b v a u = vec2_add b (vec2_mul v ?tb)"
      using np False par in_unit by (auto simp: vec2_int_vec2_def Let_def)
    ultimately show ?thesis
      using in_unit p by blast
  qed
qed

definition point :: "int \<Rightarrow> int \<Rightarrow> vec2_t" where
  "point x y = CC_VEC2 (Finite (x < 0) (of_int \<bar>x\<bar>)) (Finite (y < 0) (of_int \<bar>y\<bar>))"

lemma small_rounds:
  "fp_round binary64 neg 1 = Finite neg 1" "fp_round binary64 neg 2 = Finite neg 2"
  "fp_round binary64 neg 4 = Finite neg 4" "fp_round binary64 neg (1 / 2) = Finite neg (1 / 2)"
proof -
  have "fp_round binary64 False (1 / 2) = Finite False (1 / 2)"
    by code_simp
  then show "fp_round binary64 neg 1 = Finite neg 1" "fp_round binary64 neg 2 = Finite neg 2"
    "fp_round binary64 neg 4 = Finite neg 4" "fp_round binary64 neg (1 / 2) = Finite neg (1 / 2)"
    using fp_round_small [of 1 neg] fp_round_small [of 2 neg] fp_round_small [of 4 neg]
      fp_round_sign [of binary64 neg "1 / 2" "1 / 2"] by simp_all
qed

lemma point_crossing:
  "vec2_int_vec2 (point 0 0) (point 2 0) (point 1 (- 1)) (point 0 2) = CC_VEC2 (Finite False 1) (Finite False 0)"
proof -
  note fp = vec2_pdot_def vec2_sub_def vec2_add_def vec2_mul_def point_def CC_VEC2_def fp_div_def fp_mul_def fp_sub_def
    fp_add_def fp_neg_def signed_value_def small_rounds
  have "\<not> vec2_parallel (point 2 0) (point 0 2)" "\<not> vec2_equal (point 0 0) (point 1 (- 1))"
    by (simp_all add: vec2_parallel_def vec2_equal_def fp_cmp fp)
  moreover have "vec2_pdot (vec2_sub (point 1 (- 1)) (point 0 0)) (point 0 2) = Finite False 2"
    "vec2_pdot (vec2_sub (point 0 0) (point 1 (- 1))) (point 2 0) = Finite True 2"
    "vec2_pdot (point 2 0) (point 0 2) = Finite False 4" "vec2_pdot (point 0 2) (point 2 0) = Finite True 4"
    by (simp_all add: fp)
  moreover have "div64 (Finite False 2) (Finite False 4) = Finite False (1 / 2)"
    "div64 (Finite True 2) (Finite True 4) = Finite False (1 / 2)"
    by (simp_all add: fp)
  moreover have "vec2_add (point 0 0) (vec2_mul (point 2 0) (Finite False (1 / 2))) = CC_VEC2 (Finite False 1) (Finite False 0)"
    by (simp add: fp)
  ultimately show ?thesis
    by (simp add: vec2_int_vec2_def Let_def fp_less_def signed_value_def)
qed

theorem segment_intersection_symmetric_witness:
  "vec2_int_vec2 (point 1 (- 1)) (point 0 2) (point 0 0) (point 2 0) = point 1 (- 1) \<or>
    (\<exists>tb. vec2_int_vec2 (point 1 (- 1)) (point 0 2) (point 0 0) (point 2 0) =
       vec2_add (point 1 (- 1)) (vec2_mul (point 0 2) tb) \<and> \<not> fp_less tb zero64 \<and> \<not> fp_less one64 tb)"
proof -
  have "CC_VEC2 (Finite False 1) (Finite False 0) \<noteq> CC_VEC2_NULL"
    by (simp add: CC_VEC2_def CC_VEC2_NULL_def)
  from segment_intersection_symmetric [OF point_crossing this] show ?thesis by blast
qed

end
