(* ===== verification/CC_Pid.thy ===== *)
theory CC_Pid
  imports CC_ConfigProps CC_MathProps
begin

text \<open>
  The PID controller (include/ccore/pid.h) over the \<^verbatim>\<open>double\<close> arithmetic of CC_Float, and
  the loading of its gains from a configuration file.
\<close>

section \<open>The controller\<close>

record cc_pid =
  pid_prev :: fp
  pid_error :: fp
  pid_deriv :: fp
  pid_integ :: fp
  pid_kp :: fp
  pid_ki :: fp
  pid_kd :: fp
  pid_integ_clamp :: fp
  pid_rise_tau :: fp

definition cc_pid_reset :: "cc_pid \<Rightarrow> cc_pid" where
  "cc_pid_reset pid = pid\<lparr>pid_prev := NaN, pid_error := NaN, pid_deriv := NaN, pid_integ := NaN\<rparr>"

definition cc_pid_init :: "cc_pid \<Rightarrow> fp \<Rightarrow> fp \<Rightarrow> fp \<Rightarrow> fp \<Rightarrow> fp \<Rightarrow> cc_pid" where
  "cc_pid_init pid kp ki kd integ_clamp rise =
     (cc_pid_reset pid)\<lparr>pid_kp := kp, pid_ki := ki, pid_kd := kd,
        pid_integ_clamp := integ_clamp, pid_rise_tau := rise\<rparr>"

definition cc_pid_update :: "cc_pid \<Rightarrow> fp \<Rightarrow> fp \<Rightarrow> fp \<Rightarrow> cc_pid" where
  "cc_pid_update pid v err dt =
     (let pid = (if fp_isnan (pid_integ pid) then pid\<lparr>pid_integ := Finite False 0\<rparr> else pid);
          pid = pid\<lparr>pid_integ :=
            clamp_f64 (add64 (pid_integ pid) (mul64 err dt)) (fp_neg (pid_integ_clamp pid)) (pid_integ_clamp pid)\<rparr>;
          pid =
            (if \<not> fp_isnan (pid_prev pid) then
               let dv = div64 (sub64 v (pid_prev pid)) dt in
               if fp_isnan (pid_deriv pid) then pid\<lparr>pid_deriv := dv\<rparr>
               else pid\<lparr>pid_deriv :=
                 add64 (pid_deriv pid) (mul64 (sub64 dv (pid_deriv pid)) (div64 dt (pid_rise_tau pid)))\<rparr>
             else pid) in
      pid\<lparr>pid_error := err, pid_prev := v\<rparr>)"

definition cc_pid_get_output :: "cc_pid \<Rightarrow> fp" where
  "cc_pid_get_output pid =
     (if fp_isnan (pid_prev pid) \<or> fp_isnan (pid_integ pid) then NaN
      else add64 (add64 (mul64 (pid_kp pid) (pid_error pid)) (mul64 (pid_ki pid) (pid_integ pid)))
        (mul64 (pid_kd pid) (pid_deriv pid)))"

text \<open>
  Each gain is written as soon as it is found; a missing one ends the loading with the answer
  false.  \<^verbatim>\<open>integ_clamp\<close> is not read from the file.
\<close>

definition cc_pid_load_cfg :: "cc_pid \<Rightarrow> cc_cfg \<Rightarrow> (cc_pid \<times> bool) res" where
  "cc_pid_load_cfg pid cfg =
     bindE (cc_cfg_get_double cfg (bytes ''pid_kp'')) (\<lambda>kp.
     case kp of None \<Rightarrow> Inr (pid, False) | Some x \<Rightarrow>
     let pid = pid\<lparr>pid_kp := x\<rparr> in
     bindE (cc_cfg_get_double cfg (bytes ''pid_ki'')) (\<lambda>ki.
     case ki of None \<Rightarrow> Inr (pid, False) | Some x \<Rightarrow>
     let pid = pid\<lparr>pid_ki := x\<rparr> in
     bindE (cc_cfg_get_double cfg (bytes ''pid_kd'')) (\<lambda>kd.
     case kd of None \<Rightarrow> Inr (pid, False) | Some x \<Rightarrow>
     let pid = pid\<lparr>pid_kd := x\<rparr> in
     bindE (cc_cfg_get_double cfg (bytes ''pid_rise'')) (\<lambda>rise.
     case rise of None \<Rightarrow> Inr (pid, False) | Some x \<Rightarrow>
     Inr (cc_pid_reset (pid\<lparr>pid_rise_tau := x\<rparr>), True)))))"

section \<open>The integral\<close>

text \<open>A sample is a value, its error and the time since the last one.\<close>

type_synonym sample = "fp \<times> fp \<times> fp"

definition updates :: "cc_pid \<Rightarrow> sample list \<Rightarrow> cc_pid" where
  "updates pid samples = fold (\<lambda>(v, err, dt) pid. cc_pid_update pid v err dt) samples pid"

lemma updates_simps [simp]:
  "updates pid [] = pid"
  "updates pid ((v, err, dt) # samples) = updates (cc_pid_update pid v err dt) samples"
  by (simp_all add: updates_def)

lemma updates_append: "updates pid (xs @ ys) = updates (updates pid xs) ys"
  by (simp add: updates_def)

lemma update_keeps [simp]:
  "pid_kp (cc_pid_update pid v err dt) = pid_kp pid"
  "pid_ki (cc_pid_update pid v err dt) = pid_ki pid"
  "pid_kd (cc_pid_update pid v err dt) = pid_kd pid"
  "pid_integ_clamp (cc_pid_update pid v err dt) = pid_integ_clamp pid"
  "pid_rise_tau (cc_pid_update pid v err dt) = pid_rise_tau pid"
  "pid_prev (cc_pid_update pid v err dt) = v"
  "pid_error (cc_pid_update pid v err dt) = err"
  by (simp_all add: cc_pid_update_def Let_def)

lemma updates_keep [simp]:
  "pid_kp (updates pid us) = pid_kp pid"
  "pid_ki (updates pid us) = pid_ki pid"
  "pid_kd (updates pid us) = pid_kd pid"
  "pid_integ_clamp (updates pid us) = pid_integ_clamp pid"
  "pid_rise_tau (updates pid us) = pid_rise_tau pid"
  by (induction us arbitrary: pid) auto

text \<open>The integral and the derivative as functions of the samples alone.\<close>

definition accumulate :: "fp \<Rightarrow> sample \<Rightarrow> fp \<Rightarrow> fp" where
  "accumulate c = (\<lambda>(v, err, dt) acc. clamp_f64 (add64 acc (mul64 err dt)) (fp_neg c) c)"

fun low_pass :: "fp \<Rightarrow> fp \<Rightarrow> fp \<Rightarrow> sample list \<Rightarrow> fp" where
  "low_pass tau prev d [] = d"
| "low_pass tau prev d ((v, err, dt) # us) =
     low_pass tau v (add64 d (mul64 (sub64 (div64 (sub64 v prev) dt) d) (div64 dt tau))) us"

lemma update_integ:
  "pid_integ (cc_pid_update pid v err dt) =
     accumulate (pid_integ_clamp pid) (v, err, dt) (if pid_integ pid = NaN then zero64 else pid_integ pid)"
  by (simp add: cc_pid_update_def accumulate_def Let_def fp_isnan_def)

lemma update_deriv:
  "pid_deriv (cc_pid_update pid v err dt) =
     (if pid_prev pid = NaN then pid_deriv pid
      else if pid_deriv pid = NaN then div64 (sub64 v (pid_prev pid)) dt
      else low_pass (pid_rise_tau pid) (pid_prev pid) (pid_deriv pid) [(v, err, dt)])"
  by (simp add: cc_pid_update_def Let_def fp_isnan_def)

lemma accumulate_range:
  assumes "fp_le (fp_neg c) c"
  shows "fp_le (fp_neg c) (accumulate c u acc)" "fp_le (accumulate c u acc) c" "accumulate c u acc \<noteq> NaN"
proof -
  show "fp_le (fp_neg c) (accumulate c u acc)" "fp_le (accumulate c u acc) c"
    by (simp_all add: accumulate_def clamp_f64_range [OF assms] split: prod.split)
  then show "accumulate c u acc \<noteq> NaN" by auto
qed

lemma updates_integ:
  assumes "fp_le (fp_neg (pid_integ_clamp pid)) (pid_integ_clamp pid)" "us \<noteq> []"
  shows "pid_integ (updates pid us) =
    fold (accumulate (pid_integ_clamp pid)) us (if pid_integ pid = NaN then zero64 else pid_integ pid)"
  using assms
proof (induction us arbitrary: pid)
  case (Cons u us)
  obtain v err dt where u: "u = (v, err, dt)" by (cases u)
  show ?case
  proof (cases "us = []")
    case False
    then show ?thesis
      using Cons.IH [of "cc_pid_update pid v err dt"] Cons.prems accumulate_range(3) [OF Cons.prems(1)]
      by (simp add: u update_integ)
  qed (simp add: u update_integ)
qed simp

text \<open>
  C27: Whatever the controller is fed, NaN and infinities included, after any update its integral is
  a number within the clamp.
\<close>

theorem pid_integral_stays_clamped:
  assumes "fp_le (fp_neg c) c" "us \<noteq> []"
  shows "fp_le (fp_neg c) (pid_integ (updates (cc_pid_init pid kp ki kd c tau) us)) \<and>
    fp_le (pid_integ (updates (cc_pid_init pid kp ki kd c tau) us)) c"
proof -
  obtain ws w where us: "us = ws @ [w]"
    using assms(2) by (cases us rule: rev_cases) auto
  show ?thesis
    using updates_integ [of "cc_pid_init pid kp ki kd c tau" us] assms accumulate_range [OF assms(1)]
    by (simp add: us cc_pid_init_def)
qed

definition blank :: cc_pid where
  "blank = \<lparr>pid_prev = NaN, pid_error = NaN, pid_deriv = NaN, pid_integ = NaN, pid_kp = NaN, pid_ki = NaN,
     pid_kd = NaN, pid_integ_clamp = NaN, pid_rise_tau = NaN\<rparr>"

theorem pid_integral_stays_clamped_witness:
  "fp_le (pid_integ (updates (cc_pid_init blank one64 one64 one64 (Finite False 3) one64)
     [(NaN, Infinite True, one64), (one64, NaN, one64)])) (Finite False 3)"
  by (rule pid_integral_stays_clamped [THEN conjunct2]) (simp_all add: fp_cmp fp_neg_def)

section \<open>The output\<close>

lemma updates_deriv:
  assumes "pid_prev pid \<noteq> NaN" "pid_deriv pid \<noteq> NaN" "\<forall>(v, err, dt) \<in> set us. v \<noteq> NaN"
    and "\<And>n. low_pass (pid_rise_tau pid) (pid_prev pid) (pid_deriv pid) (take n us) \<noteq> NaN"
  shows "pid_deriv (updates pid us) = low_pass (pid_rise_tau pid) (pid_prev pid) (pid_deriv pid) us"
  using assms
proof (induction us arbitrary: pid)
  case (Cons u us)
  obtain v err dt where u: "u = (v, err, dt)" by (cases u)
  let ?pid = "cc_pid_update pid v err dt"
  have d: "pid_deriv ?pid = low_pass (pid_rise_tau pid) (pid_prev pid) (pid_deriv pid) [(v, err, dt)]"
    using Cons.prems(1,2) by (simp add: update_deriv)
  have "low_pass (pid_rise_tau ?pid) (pid_prev ?pid) (pid_deriv ?pid) (take n us) \<noteq> NaN" for n
    using Cons.prems(4) [of "Suc n"] by (simp add: u d)
  then show ?case
    using Cons.IH [of ?pid] Cons.prems(3) Cons.prems(4) [of 1] by (simp add: u d)
qed simp



text \<open>
  After a reset the first sample leaves the derivative NaN, and the output is NaN for every
  choice of the gains, a derivative gain of 0 included; the integral is counted from that sample on.
\<close>

theorem pid_first_output_is_nan:
  "cc_pid_get_output (cc_pid_update (cc_pid_reset pid) v err dt) = NaN \<and>
   pid_integ (cc_pid_update (cc_pid_reset pid) v err dt) = accumulate (pid_integ_clamp pid) (v, err, dt) zero64"
proof -
  have "pid_deriv (cc_pid_update (cc_pid_reset pid) v err dt) = NaN"
    by (simp add: update_deriv cc_pid_reset_def)
  then show ?thesis
    by (simp add: cc_pid_get_output_def update_integ) (simp add: cc_pid_reset_def)
qed

section \<open>Loading\<close>

definition double_setting :: "setting option \<Rightarrow> fp option" where
  "double_setting v = (case v of Some (Num_setting neg ds) \<Rightarrow> Some (Finite neg (of_nat (digits_val 10 ds))) | _ \<Rightarrow> None)"

lemma get_double_settings:
  assumes "represents cfg (fold apply_setting kvs [])" "is_cstr k" "length k < 256"
  shows "cc_cfg_get_double cfg k = Inr (double_setting (map_of (rev kvs) k))"
  unfolding cc_cfg_get_double_def with_fields_settings [OF assms]
  by (auto simp: double_setting_def str_fields_def bool_fields_def Let_def split: option.split setting.split)

text \<open>
  Loading a controller from a file of settings: when the file has all four gains as numbers the
  controller gets them and is reset, its clamp left as it was; when one is missing (or is not a
  number) the answer is false.
\<close>

theorem pid_load_from_file:
  assumes "\<forall>kv \<in> set kvs. valid_key (fst kv) \<and> valid_setting (snd kv)" "length (config_text kvs) < 2 ^ 55"
  shows "\<exists>cfg. cc_cfg_load bd (Some (config_text kvs)) = Inr (Some cfg) \<and>
    (let gain = \<lambda>k. double_setting (map_of (rev kvs) (bytes k)) in
     case (gain ''pid_kp'', gain ''pid_ki'', gain ''pid_kd'', gain ''pid_rise'') of
       (Some kp, Some ki, Some kd, Some rise) \<Rightarrow>
         cc_pid_load_cfg pid cfg = Inr (cc_pid_init pid kp ki kd (pid_integ_clamp pid) rise, True)
     | _ \<Rightarrow> \<exists>pid'. cc_pid_load_cfg pid cfg = Inr (pid', False))"
proof -
  obtain cfg where cfg: "cc_cfg_load bd (Some (config_text kvs)) = Inr (Some cfg)"
    "represents cfg (fold apply_setting kvs [])"
    using load_settings [OF assms] by blast
  have keys: "is_cstr (bytes ''pid_kp'')" "is_cstr (bytes ''pid_ki'')" "is_cstr (bytes ''pid_kd'')" "is_cstr (bytes ''pid_rise'')"
    "length (bytes ''pid_kp'') < 256" "length (bytes ''pid_ki'') < 256" "length (bytes ''pid_kd'') < 256"
    "length (bytes ''pid_rise'') < 256"
    by (simp_all add: bytes_def is_cstr_def)
  note get = get_double_settings [OF cfg(2)]
  show ?thesis
    using cfg(1)
    by (intro exI [of _ cfg])
      (auto simp: cc_pid_load_cfg_def get keys cc_pid_init_def cc_pid_reset_def Let_def split: option.splits)
qed

definition gains :: "(byte list \<times> setting) list" where
  "gains = [(bytes ''pid_kp'', Num_setting False (bytes ''4'')), (bytes ''pid_ki'', Num_setting False (bytes ''0'')),
     (bytes ''pid_kd'', Num_setting True (bytes ''2'')), (bytes ''pid_rise'', Num_setting False (bytes ''1''))]"

theorem pid_load_from_file_witness:
  "\<exists>cfg. cc_cfg_load Debug (Some (config_text gains)) = Inr (Some cfg) \<and>
     cc_pid_load_cfg blank cfg = Inr (cc_pid_init blank (Finite False 4) (Finite False 0) (Finite True 2) NaN (Finite False 1), True)"
proof -
  have "\<forall>kv \<in> set gains. valid_key (fst kv) \<and> valid_setting (snd kv)"
    by (simp add: gains_def valid_key_def bytes_def is_cstr_def is_comment_def isdigit_def isspace_def digits_val_def digit_val_def)
  moreover have "length (config_text gains) < 2 ^ 55"
    by (simp add: gains_def config_text_def setting_line_def bytes_def)
  ultimately show ?thesis
    using pid_load_from_file [of gains Debug blank]
    by (simp add: gains_def double_setting_def bytes_def digits_val_def digit_val_def isdigit_def blank_def)
qed

end
