(* ===== verification/CC_Angles.thy ===== *)
theory CC_Angles
  imports CC_MathProps
begin

text \<open>
  The functions of include/ccore/math.h that call \<^verbatim>\<open>acos\<close>, \<^verbatim>\<open>sin\<close> and
  \<^verbatim>\<open>cos\<close>.  The C standard does not fix the values of these, so they are arguments;
  what is asked of them is what it does fix.
\<close>

section \<open>Operations\<close>

definition vec3_angle :: "(fp \<Rightarrow> fp) \<Rightarrow> vec3_t \<Rightarrow> vec3_t \<Rightarrow> fp" where
  "vec3_angle acos a b = acos (div64 (vec3_dot a b) (mul64 (vec3_mag a) (vec3_mag b)))"

definition vec2_angle :: "(fp \<Rightarrow> fp) \<Rightarrow> vec2_t \<Rightarrow> vec2_t \<Rightarrow> fp" where
  "vec2_angle acos a b = acos (div64 (vec2_dot a b) (mul64 (vec2_mag a) (vec2_mag b)))"

definition vec2_hdg_mag :: "(fp \<Rightarrow> fp) \<Rightarrow> (fp \<Rightarrow> fp) \<Rightarrow> fp \<Rightarrow> fp \<Rightarrow> vec2_t" where
  "vec2_hdg_mag sine cosine hdg mag = CC_VEC2 (mul64 mag (sine hdg)) (mul64 mag (cosine hdg))"

section \<open>Properties\<close>

text \<open>Outside of the domain from -1 to 1, NaN included, the answer is NaN.\<close>

definition acos_domain :: "(fp \<Rightarrow> fp) \<Rightarrow> bool" where
  "acos_domain acos \<longleftrightarrow> (\<forall>x. \<not> fp_le (fp_abs x) (Finite False 1) \<longrightarrow> acos x = NaN)"

lemma mul64_commute: "mul64 x y = mul64 y x"
proof (cases x; cases y)
  fix a r b q
  assume "x = Finite a r" "y = Finite b q"
  moreover have "(a \<noteq> b) = (b \<noteq> a)"
    by blast
  ultimately show ?thesis
    by (simp only: fp_mul_def fp.case prod.case mult.commute [of r])
qed (auto simp: fp_mul_def)

lemma dot_commute: "vec2_dot a b = vec2_dot b a" "vec3_dot u v = vec3_dot v u"
  by (simp_all only: vec2_dot_def vec3_dot_def mul64_commute)

definition null_number :: "fp \<Rightarrow> bool" where
  "null_number x \<longleftrightarrow> x = NaN \<or> (\<exists>neg. x = Finite neg 0)"

lemma null_numbers:
  "null_number (mul64 x zero64)" "null_number zero64"
  "null_number x \<Longrightarrow> null_number y \<Longrightarrow> null_number (add64 x y)"
  "null_number x \<Longrightarrow> null_number (mul64 y x)"
  "null_number x \<Longrightarrow> null_number (fp_sqrt binary64 x)"
  "null_number x \<Longrightarrow> null_number y \<Longrightarrow> div64 x y = NaN"
  by (auto simp: null_number_def fp_mul_def fp_add_def fp_sqrt_def fp_div_def signed_value_def split: fp.split)

lemma div_by_zero_vector:
  "div64 (vec2_dot a (CC_VEC2 zero64 zero64)) (mul64 m (vec2_mag (CC_VEC2 zero64 zero64))) = NaN"
  "div64 (vec3_dot u (CC_VEC3 zero64 zero64 zero64)) (mul64 m (vec3_mag (CC_VEC3 zero64 zero64 zero64))) = NaN"
  unfolding vec2_dot_def vec3_dot_def vec2_mag_def vec3_mag_def vec2_sqmag_def vec3_sqmag_def CC_VEC2_def CC_VEC3_def
  by (intro null_numbers; simp only: vec2_t.select_convs vec3_t.select_convs null_numbers)+

text \<open>
  The angle between two vectors does not depend on their order, and there is none (NaN) when one of
  them is zero.
\<close>

theorem angle_symmetric:
  assumes "acos_domain acos"
  shows "vec2_angle acos a b = vec2_angle acos b a \<and> vec3_angle acos u v = vec3_angle acos v u \<and>
    vec2_angle acos a (CC_VEC2 zero64 zero64) = NaN \<and> vec3_angle acos u (CC_VEC3 zero64 zero64 zero64) = NaN"
proof (intro conjI)
  show "vec2_angle acos a b = vec2_angle acos b a"
    unfolding vec2_angle_def dot_commute(1) [of a] by (simp only: mul64_commute)
  show "vec3_angle acos u v = vec3_angle acos v u"
    unfolding vec3_angle_def dot_commute(2) [of u] by (simp only: mul64_commute)
  have "acos NaN = NaN"
    using assms by (simp add: acos_domain_def fp_abs_def)
  then show "vec2_angle acos a (CC_VEC2 zero64 zero64) = NaN" "vec3_angle acos u (CC_VEC3 zero64 zero64 zero64) = NaN"
    by (simp_all only: vec2_angle_def vec3_angle_def div_by_zero_vector)
qed

text \<open>An \<^verbatim>\<open>acos\<close> with the domain of the real one.\<close>

definition some_acos :: "fp \<Rightarrow> fp" where
  "some_acos x = (if fp_le (fp_abs x) (Finite False 1) then Finite False 0 else NaN)"

lemma some_acos_domain: "acos_domain some_acos"
  by (simp add: acos_domain_def some_acos_def)

theorem angle_symmetric_witness:
  "vec2_angle some_acos (CC_VEC2 (Finite False 1) (Finite False 2)) (CC_VEC2 zero64 zero64) = NaN"
  using angle_symmetric [OF some_acos_domain] by blast

text \<open>
  The quotient of a vector's dot product with itself and its squared magnitude can be rounded above
  one: the angle between (2, 3) and itself is NaN, not zero.
\<close>

text \<open>The steps of the computation; the exponent and the quotient are given, the rest is evaluated.\<close>

lemma sqrt_13: "fp_sqrt binary64 (Finite False 13) = Finite False (8118979690322419 / 2251799813685248)"
proof -
  have e: "exponent 13 = 3"
    by (rule exponent_unique) (simp_all add: power_int_def)
  have q: "13 / power_int 2 (- 102) = (65917831211867928877828566679552 :: rat)"
    by (simp add: power_int_def power_one_over)
  have "isqrt 65917831211867928877828566679552 = 8118979690322419"
    by (rule isqrt_unique) simp_all
  then show ?thesis
    by (simp add: fp_sqrt_def binary64_def e q Let_def)
qed

lemma rne_at: "of_int n - 1 / 2 < q \<Longrightarrow> q < of_int n + 1 / 2 \<Longrightarrow> rne q = n"
proof (cases "of_int n \<le> q")
  case True
  moreover assume "q < of_int n + 1 / 2"
  ultimately have "floor q = n"
    by (intro floor_unique) linarith+
  then show ?thesis
    using \<open>q < of_int n + 1 / 2\<close> by (simp add: rne_def)
next
  case False
  moreover assume "of_int n - 1 / 2 < q"
  ultimately have "floor q = n - 1"
    by (intro floor_unique) simp_all
  then show ?thesis
    using \<open>of_int n - 1 / 2 < q\<close> by (simp add: rne_def)
qed

lemma round_at:
  assumes "exponent r = e" "0 < r" "- 1022 \<le> e" "r / power_int 2 (e - 52) = q" "of_int n - 1 / 2 < q" "q < of_int n + 1 / 2"
    and "of_int n * power_int 2 (e - 52) = v" "v < power_int 2 1024"
  shows "fp_round binary64 neg r = Finite neg v"
  using assms rne_at [OF assms(5,6)] by (simp add: fp_round_def ulp_exponent_def binary64_def Let_def)

theorem angle_with_itself_is_nan:
  assumes "acos_domain acos" "a = CC_VEC2 (Finite False 2) (Finite False 3)"
  shows "vec2_angle acos a a = NaN"
proof -
  have "vec2_dot a a = Finite False 13" "vec2_sqmag a = Finite False 13"
    using fp_round_small [of 4 False] fp_round_small [of 9 False] fp_round_small [of 13 False]
    by (simp_all add: assms(2) vec2_dot_def vec2_sqmag_def CC_VEC2_def fp_mul_def fp_add_def signed_value_def)
  moreover have "mul64 (Finite False (8118979690322419 / 2251799813685248)) (Finite False (8118979690322419 / 2251799813685248)) =
      Finite False (7318349394477055 / 562949953421312)"
  proof -
    let ?r = "8118979690322419 / 2251799813685248 * (8118979690322419 / 2251799813685248) :: rat"
    have "exponent ?r = 3"
      by (rule exponent_unique) (simp_all add: power_int_def)
    then have "fp_round binary64 False ?r = Finite False (7318349394477055 / 562949953421312)"
      by (rule round_at [where n = 7318349394477055 and q = "?r * 562949953421312"])
        (simp_all add: power_int_def power_one_over)
    then show ?thesis
      by (simp add: fp_mul_def)
  qed
  moreover have "div64 (Finite False 13) (Finite False (7318349394477055 / 562949953421312)) = Finite False (4503599627370497 / 4503599627370496)"
  proof -
    let ?r = "13 / (7318349394477055 / 562949953421312) :: rat"
    have "exponent ?r = 0"
      by (rule exponent_unique) (simp_all add: power_int_def)
    then have "fp_round binary64 False ?r = Finite False (4503599627370497 / 4503599627370496)"
      by (rule round_at [where n = 4503599627370497 and q = "?r * 4503599627370496"])
        (simp_all add: power_int_def power_one_over)
    then show ?thesis
      by (simp add: fp_div_def)
  qed
  ultimately have "vec2_angle acos a a = acos (Finite False (4503599627370497 / 4503599627370496))"
    by (simp only: vec2_angle_def vec2_mag_def sqrt_13)
  then show ?thesis
    using assms(1) by (simp add: acos_domain_def fp_abs_def fp_cmp)
qed

theorem angle_with_itself_is_nan_witness:
  "vec2_angle some_acos (CC_VEC2 (Finite False 2) (Finite False 3)) (CC_VEC2 (Finite False 2) (Finite False 3)) = NaN"
  by (rule angle_with_itself_is_nan [OF some_acos_domain refl])

text \<open>Heading 0 is along y, and a heading keeps the magnitude of the vector up to rounding at the axes.\<close>

theorem heading_zero:
  assumes "sine zero64 = zero64" "cosine zero64 = Finite False 1" "fp_convert binary64 (Finite neg m) = Finite neg m"
  shows "vec2_hdg_mag sine cosine zero64 (Finite neg m) = CC_VEC2 (Finite neg 0) (Finite neg m)"
  using assms by (simp add: vec2_hdg_mag_def fp_mul_def fp_convert_def)

theorem heading_zero_witness:
  "vec2_hdg_mag (\<lambda>x. zero64) (\<lambda>x. Finite False 1) zero64 (Finite False 4) = CC_VEC2 zero64 (Finite False 4)"
proof -
  have "fp_convert binary64 (Finite False 4) = Finite False 4"
    by code_simp
  then show ?thesis
    by (intro heading_zero [of "\<lambda>x. zero64" "\<lambda>x. Finite False 1" False 4]) simp_all
qed

end
