(* ===== verification/CC_Transitions.thy ===== *)
theory CC_Transitions
  imports CC_Prelude "HOL-Library.Multiset"
begin

text \<open>
  Threads as a transition system: \<^verbatim>\<open>exec a s\<close> is the state after the action a, or
  \<^const>\<open>None\<close> where a is not enabled (a lock that is held, a thread that waits).  Here are the
  states a system reaches, the contract of an invariant, what signalling a condition variable does
  to the threads that wait on it, and sums over the threads.
\<close>

section \<open>Reachable states\<close>

inductive reach :: "('a \<Rightarrow> 's \<Rightarrow> 's option) \<Rightarrow> 's \<Rightarrow> 's \<Rightarrow> bool" for exec s0 where
  start: "reach exec s0 s0"
| step: "reach exec s0 s \<Longrightarrow> exec a s = Some s' \<Longrightarrow> reach exec s0 s'"

inductive_cases reach_cases: "reach exec s0 s"

fun exec_all :: "('a \<Rightarrow> 's \<Rightarrow> 's option) \<Rightarrow> 'a list \<Rightarrow> 's \<Rightarrow> 's option" where
  "exec_all exec [] s = Some s"
| "exec_all exec (a # as) s = Option.bind (exec a s) (exec_all exec as)"

lemma exec_all_reach: "reach exec s0 s \<Longrightarrow> exec_all exec as s = Some s' \<Longrightarrow> reach exec s0 s'"
  by (induction as arbitrary: s) (auto simp: Option.bind_eq_Some_conv intro: reach.step)

locale invariant =
  fixes exec :: "'a \<Rightarrow> 's \<Rightarrow> 's option" and s0 :: 's and I :: "'s \<Rightarrow> bool"
  assumes initially: "I s0"
    and preserved: "reach exec s0 s \<Longrightarrow> I s \<Longrightarrow> exec a s = Some s' \<Longrightarrow> I s'"
begin

lemma holds: "reach exec s0 s \<Longrightarrow> I s"
  by (induction rule: reach.induct) (auto intro: initially preserved)

end

section \<open>Condition variables\<close>

text \<open>
  \<^verbatim>\<open>pthread_cond_signal\<close> wakes a waiting thread when there is one; \<^term>\<open>c\<close> is the
  choice.  A woken thread has to take the mutex again.
\<close>

definition signal :: "'p \<Rightarrow> 'p \<Rightarrow> nat option \<Rightarrow> 'p list \<Rightarrow> 'p list option" where
  "signal waiting woken c ps =
     (case c of
        None \<Rightarrow> if waiting \<in> set ps then None else Some ps
      | Some k \<Rightarrow> if k < length ps \<and> ps ! k = waiting then Some (ps[k := woken]) else None)"

definition broadcast :: "'p \<Rightarrow> 'p \<Rightarrow> 'p list \<Rightarrow> 'p list" where
  "broadcast waiting woken ps = map (\<lambda>p. if p = waiting then woken else p) ps"

lemma signal_enabled: "\<exists>c ps'. signal waiting woken c ps = Some ps'"
proof (cases "waiting \<in> set ps")
  case True
  then obtain k where "k < length ps" "ps ! k = waiting"
    by (auto simp: in_set_conv_nth)
  then have "signal waiting woken (Some k) ps = Some (ps[k := woken])"
    by (simp add: signal_def)
  then show ?thesis by blast
next
  case False
  then have "signal waiting woken None ps = Some ps"
    by (simp add: signal_def)
  then show ?thesis by blast
qed

lemma signal_length: "signal waiting woken c ps = Some ps' \<Longrightarrow> length ps' = length ps"
  by (auto simp: signal_def split: option.splits if_splits)

text \<open>Afterwards somebody is awake, if there is a thread at all.\<close>

lemma signal_wakes:
  "signal waiting woken c ps = Some ps' \<Longrightarrow> ps \<noteq> [] \<Longrightarrow> waiting \<noteq> woken \<Longrightarrow> \<exists>p \<in> set ps'. p \<noteq> waiting"
  by (cases c) (auto simp: signal_def split: if_splits intro: list.set_sel(1) bexI [OF _ set_update_memI])

section \<open>Sums over the threads\<close>

definition sum_over :: "('p \<Rightarrow> 'm :: comm_monoid_add) \<Rightarrow> 'p list \<Rightarrow> 'm" where
  "sum_over f ps = sum_list (map f ps)"

lemma sum_over_simps [simp]:
  "sum_over f [] = 0" "sum_over f (p # ps) = f p + sum_over f ps" "sum_over f (ps @ qs) = sum_over f ps + sum_over f qs"
  by (simp_all add: sum_over_def)

lemma sum_over_update: "i < length ps \<Longrightarrow> sum_over f (ps[i := p]) + f (ps ! i) = sum_over f ps + f p"
  by (induction ps arbitrary: i) (auto simp: nth_Cons ac_simps split: nat.split)

lemma sum_over_same:
  fixes f :: "'p \<Rightarrow> 'm :: cancel_comm_monoid_add"
  assumes "i < length ps" "f p = f (ps ! i)"
  shows "sum_over f (ps[i := p]) = sum_over f ps"
  using sum_over_update [OF assms(1), of f p] assms(2) by simp

lemma sum_over_replicate: "f p = 0 \<Longrightarrow> sum_over f (replicate n p) = 0"
  by (induction n) auto

lemma sum_over_signal:
  assumes "signal waiting woken c ps = Some ps'" "f waiting = 0" "f woken = (0 :: 'm :: comm_monoid_add)"
  shows "sum_over f ps' = sum_over f ps"
  using assms sum_over_update [of _ ps f woken] by (fastforce simp: signal_def split: option.splits if_splits)

lemma sum_over_broadcast:
  "f waiting = 0 \<Longrightarrow> f woken = (0 :: 'm :: comm_monoid_add) \<Longrightarrow> sum_over f (broadcast waiting woken ps) = sum_over f ps"
  by (induction ps) (auto simp: broadcast_def)

end
