(* ===== verification/CC_Pool.thy ===== *)
theory CC_Pool
  imports CC_Transitions
begin

text \<open>
  The thread pool (src/tpool.c, src/tpool.h) as a transition system.  Workers run
  \<^verbatim>\<open>pool_worker\<close>; any number of client threads call \<^verbatim>\<open>ccpool_submit\<close>,
  \<^verbatim>\<open>ccpool_wait\<close> and \<^verbatim>\<open>ccpool_stop\<close>.  A thread's program counter is the place it
  has reached; a step is what it does up to the next mutex operation, condition wait, call of a
  task or join, so that a critical section of \<^verbatim>\<open>pool->mt\<close> is one step of the thread
  that holds it.  The queue of tasks is the sequence the intrusive list holds
  (\<^verbatim>\<open>cclist_insert_last\<close> and \<^verbatim>\<open>cclist_remove_first\<close>, the queue of CC_ListOps).
  A task is a name; what it does does not touch the pool.
\<close>

section \<open>State\<close>

type_synonym task = nat

text \<open>
  Where a worker is: about to lock (line 21), holding the mutex at the loop of line 22, waiting on
  \<^verbatim>\<open>cv\<close>, woken and about to lock again, running a task (line 37), about to lock (line
  40), holding the mutex at line 41, or ended.
\<close>

datatype worker =
    WLock
  | WCheck
  | WWait
  | WRelock
  | WRun task
  | WDoneLock
  | WDone
  | WExit

datatype client =
    CIdle
  | CSubmitLock task | CSubmit task
  | CWaitLock | CWaitCheck | CWaitWait | CWaitRelock
  | CStopSingle | CStopLock | CStop | CJoin byte

datatype thread = Worker nat | Client nat

text \<open>
  \<^term>\<open>p_live\<close> says whether the static pointer \<^verbatim>\<open>pool\<close> is set.  The last four fields
  are the history of the run: the tasks submitted, taken by a worker, run to their end, and
  thrown away by a stop.
\<close>

record pool =
  p_live :: bool
  p_single_mt :: "nat option"
  p_mt :: "thread option"
  p_tasks :: "task list"
  p_stop :: bool
  p_in_work :: byte
  p_thread_count :: byte
  p_workers :: "worker list"
  p_clients :: "client list"
  h_submitted :: "task list"
  h_started :: "task list"
  h_finished :: "task list"
  h_dropped :: "task list"

text \<open>
  \<^term>\<open>no_pool k\<close> is the state before any pool was made, with k client threads.
  \<^verbatim>\<open>ccpool_start\<close> does nothing when there is a pool.  It runs under \<^verbatim>\<open>single_mt\<close>
  from beginning to end and nobody else knows the new pool before it returns, so it is one step; the
  runs studied are those of a started pool, \<^term>\<open>started n k\<close>.
\<close>

definition no_pool :: "nat \<Rightarrow> pool" where
  "no_pool k =
     \<lparr>p_live = False, p_single_mt = None, p_mt = None, p_tasks = [], p_stop = False,
      p_in_work = 0, p_thread_count = 0, p_workers = [], p_clients = replicate k CIdle,
      h_submitted = [], h_started = [], h_finished = [], h_dropped = []\<rparr>"

definition ccpool_start :: "nat \<Rightarrow> pool \<Rightarrow> pool" where
  "ccpool_start n s =
     (if \<not> p_live s then
        s\<lparr>p_live := True, p_thread_count := of_nat n, p_stop := False, p_in_work := 0,
          p_tasks := [], p_mt := None, p_workers := replicate n WLock\<rparr>
      else s)"

definition started :: "nat \<Rightarrow> nat \<Rightarrow> pool" where
  "started n k = ccpool_start n (no_pool k)"

lemma started_eq:
  "started n k =
     \<lparr>p_live = True, p_single_mt = None, p_mt = None, p_tasks = [], p_stop = False,
      p_in_work = 0, p_thread_count = of_nat n,
      p_workers = replicate n WLock, p_clients = replicate k CIdle,
      h_submitted = [], h_started = [], h_finished = [], h_dropped = []\<rparr>"
  by (simp add: started_def ccpool_start_def no_pool_def)

section \<open>Steps\<close>

definition set_worker :: "nat \<Rightarrow> worker \<Rightarrow> pool \<Rightarrow> pool" where
  "set_worker i w s = s\<lparr>p_workers := (p_workers s)[i := w]\<rparr>"

definition set_client :: "nat \<Rightarrow> client \<Rightarrow> pool \<Rightarrow> pool" where
  "set_client i c s = s\<lparr>p_clients := (p_clients s)[i := c]\<rparr>"

definition lock :: "thread \<Rightarrow> pool \<Rightarrow> pool option" where
  "lock t s = (if p_mt s = None then Some (s\<lparr>p_mt := Some t\<rparr>) else None)"

definition unlock :: "pool \<Rightarrow> pool" where
  "unlock s = s\<lparr>p_mt := None\<rparr>"

text \<open>A step of \<^verbatim>\<open>pool_worker\<close>; \<^term>\<open>c\<close> is the choice of a signal.\<close>

definition pool_worker :: "nat \<Rightarrow> nat option \<Rightarrow> pool \<Rightarrow> pool option" where
  "pool_worker i c s =
     (if i < length (p_workers s) then
        case p_workers s ! i of
          WLock \<Rightarrow> map_option (set_worker i WCheck) (lock (Worker i) s)
        | WCheck \<Rightarrow>
            (if p_stop s then Some (unlock (set_worker i WExit s))
             else case p_tasks s of
               [] \<Rightarrow> Some (unlock (set_worker i WWait s))
             | t # ts \<Rightarrow>
                 Some (unlock (set_worker i (WRun t)
                   (s\<lparr>p_tasks := ts, p_in_work := p_in_work s + 1, h_started := h_started s @ [t]\<rparr>))))
        | WWait \<Rightarrow> None
        | WRelock \<Rightarrow> map_option (set_worker i WCheck) (lock (Worker i) s)
        | WRun t \<Rightarrow> Some (set_worker i WDoneLock (s\<lparr>h_finished := h_finished s @ [t]\<rparr>))
        | WDoneLock \<Rightarrow> map_option (set_worker i WDone) (lock (Worker i) s)
        | WDone \<Rightarrow>
            map_option (\<lambda>cs. unlock (set_worker i WLock (s\<lparr>p_in_work := p_in_work s - 1, p_clients := cs\<rparr>)))
              (signal CWaitWait CWaitRelock c (p_clients s))
        | WExit \<Rightarrow> None
      else None)"

text \<open>
  The calls of a client.  \<^verbatim>\<open>ccpool_submit\<close> and \<^verbatim>\<open>ccpool_wait\<close> need a pool:
  a debug build stops at their assertion without one.
\<close>

datatype call = Submit task | Wait | Stop

definition call_pool :: "nat \<Rightarrow> call \<Rightarrow> pool \<Rightarrow> pool option" where
  "call_pool i op s =
     (if i < length (p_clients s) \<and> p_clients s ! i = CIdle then
        (case op of
           Submit t \<Rightarrow> if p_live s then Some (set_client i (CSubmitLock t) s) else None
         | Wait \<Rightarrow> if p_live s then Some (set_client i CWaitLock s) else None
         | Stop \<Rightarrow> Some (set_client i CStopSingle s))
      else None)"

definition ccpool_submit :: "nat \<Rightarrow> nat option \<Rightarrow> task \<Rightarrow> pool \<Rightarrow> pool option" where
  "ccpool_submit i c t s =
     map_option
       (\<lambda>ws. unlock (set_client i CIdle
          (s\<lparr>p_tasks := p_tasks s @ [t], h_submitted := h_submitted s @ [t], p_workers := ws\<rparr>)))
       (signal WWait WRelock c (p_workers s))"

definition ccpool_wait :: "nat \<Rightarrow> pool \<Rightarrow> pool option" where
  "ccpool_wait i s =
     Some (unlock (set_client i (if p_in_work s \<noteq> 0 \<or> p_tasks s \<noteq> [] then CWaitWait else CIdle) s))"

definition ccpool_stop :: "nat \<Rightarrow> pool \<Rightarrow> pool option" where
  "ccpool_stop i s =
     Some (unlock (set_client i (CJoin 0)
       (s\<lparr>p_stop := True, p_tasks := [], h_dropped := h_dropped s @ p_tasks s,
          p_workers := broadcast WWait WRelock (p_workers s)\<rparr>)))"

text \<open>
  Joining the workers: the step for worker \<^term>\<open>j\<close> waits for its thread to end; after the
  last one the pool is freed.
\<close>

definition join_workers :: "nat \<Rightarrow> byte \<Rightarrow> pool \<Rightarrow> pool option" where
  "join_workers i j s =
     (if j < p_thread_count s then
        (if unat j < length (p_workers s) \<and> p_workers s ! unat j = WExit
         then Some (set_client i (CJoin (j + 1)) s) else None)
      else Some (set_client i CIdle (s\<lparr>p_live := False, p_single_mt := None\<rparr>)))"

definition client_step :: "nat \<Rightarrow> nat option \<Rightarrow> pool \<Rightarrow> pool option" where
  "client_step i c s =
     (if i < length (p_clients s) then
        case p_clients s ! i of
          CIdle \<Rightarrow> None
        | CSubmitLock t \<Rightarrow> map_option (set_client i (CSubmit t)) (lock (Client i) s)
        | CSubmit t \<Rightarrow> ccpool_submit i c t s
        | CWaitLock \<Rightarrow> map_option (set_client i CWaitCheck) (lock (Client i) s)
        | CWaitCheck \<Rightarrow> ccpool_wait i s
        | CWaitWait \<Rightarrow> None
        | CWaitRelock \<Rightarrow> map_option (set_client i CWaitCheck) (lock (Client i) s)
        | CStopSingle \<Rightarrow>
            (if p_single_mt s = None then
               (if p_live s then Some (set_client i CStopLock (s\<lparr>p_single_mt := Some i\<rparr>))
                else Some (set_client i CIdle s))
             else None)
        | CStopLock \<Rightarrow> map_option (set_client i CStop) (lock (Client i) s)
        | CStop \<Rightarrow> ccpool_stop i s
        | CJoin j \<Rightarrow> join_workers i j s
      else None)"

text \<open>A condition wait may also return although nobody signalled.\<close>

definition spurious_worker :: "nat \<Rightarrow> pool \<Rightarrow> pool option" where
  "spurious_worker i s =
     (if i < length (p_workers s) \<and> p_workers s ! i = WWait then Some (set_worker i WRelock s) else None)"

definition spurious_client :: "nat \<Rightarrow> pool \<Rightarrow> pool option" where
  "spurious_client i s =
     (if i < length (p_clients s) \<and> p_clients s ! i = CWaitWait then Some (set_client i CWaitRelock s)
      else None)"

datatype action =
    WorkerStep nat "nat option" | ClientStep nat "nat option" | Call nat call
  | SpuriousWorker nat | SpuriousClient nat

fun exec :: "action \<Rightarrow> pool \<Rightarrow> pool option" where
  "exec (WorkerStep i c) s = pool_worker i c s"
| "exec (ClientStep i c) s = client_step i c s"
| "exec (Call i op) s = call_pool i op s"
| "exec (SpuriousWorker i) s = spurious_worker i s"
| "exec (SpuriousClient i) s = spurious_client i s"

end
