(* ===== verification/CC_PoolProps.thy ===== *)
theory CC_PoolProps
  imports CC_Pool
begin

text \<open>
  The invariants of the thread pool over every interleaving of its workers and clients, and its
  properties: no task is lost or run twice, tasks start in the order they were submitted, waiting
  returns on an idle pool only, no worker sleeps while there is work; and what breaks: more than
  255 threads, and more than one waiting thread.
\<close>

section \<open>Counting threads\<close>

fun busy :: "worker \<Rightarrow> byte" where
  "busy (WRun t) = 1"
| "busy WDoneLock = 1"
| "busy WDone = 1"
| "busy w = 0"

fun running :: "worker \<Rightarrow> task multiset" where
  "running (WRun t) = {# t #}"
| "running w = {#}"

lemmas pool_defs =
  pool_worker_def call_pool_def ccpool_submit_def ccpool_wait_def ccpool_stop_def join_workers_def
  client_step_def spurious_worker_def spurious_client_def set_worker_def set_client_def
  lock_def unlock_def

text \<open>The threads of a run never change in number.\<close>

definition sizes :: "nat \<Rightarrow> nat \<Rightarrow> pool \<Rightarrow> bool" where
  "sizes n k s \<longleftrightarrow> length (p_workers s) = n \<and> length (p_clients s) = k \<and> p_thread_count s = of_nat n"

interpretation sizes_inv: invariant exec "started n k" "sizes n k" for n k
proof
  show "sizes n k (started n k)"
    by (simp add: sizes_def started_eq)
  fix s a s' assume "sizes n k s" "exec a s = Some s'"
  then show "sizes n k s'"
    by (cases a) (auto simp: sizes_def pool_defs broadcast_def signal_length split: if_splits worker.splits client.splits list.splits call.splits)
qed

text \<open>The counter of working threads is the number of them, as a byte.\<close>

definition counted :: "pool \<Rightarrow> bool" where
  "counted s \<longleftrightarrow> p_in_work s = sum_over busy (p_workers s)"

lemma sum_over_set:
  fixes f :: "'p \<Rightarrow> 'm :: ab_group_add"
  assumes "i < length ps"
  shows "sum_over f (ps[i := p]) = sum_over f ps + f p - f (ps ! i)"
  using sum_over_update [OF assms, of f p] by (simp add: algebra_simps)

lemmas pool_splits = if_splits worker.splits client.splits list.splits call.splits

interpretation counted_inv: invariant exec "started n k" counted for n k
proof
  show "counted (started n k)"
    by (simp add: counted_def started_eq sum_over_replicate)
  fix s a s' assume "counted s" "exec a s = Some s'"
  then show "counted s'"
    by (cases a)
      (auto simp: counted_def pool_defs sum_over_set sum_over_signal sum_over_broadcast split: pool_splits)
qed

text \<open>Tasks taken from the queue are running or finished.\<close>

definition ran :: "pool \<Rightarrow> bool" where
  "ran s \<longleftrightarrow> mset (h_started s) = mset (h_finished s) + sum_over running (p_workers s)"

lemma running_set:
  assumes "i < length ws"
  shows "running (ws ! i) = {#} \<Longrightarrow> sum_over running (ws[i := w]) = sum_over running ws + running w"
    and "running w = {#} \<Longrightarrow> sum_over running (ws[i := w]) + running (ws ! i) = sum_over running ws"
  using sum_over_update [OF assms, of running w] by simp_all

interpretation ran_inv: invariant exec "started n k" ran for n k
proof
  show "ran (started n k)"
    by (simp add: ran_def started_eq sum_over_replicate)
  fix s a s' assume inv: "ran s" and ex: "exec a s = Some s'"
  have finish: "add_mset t (sum_over running (ws[i := w])) = sum_over running ws"
    if "i < length ws" "ws ! i = WRun t" "running w = {#}" for ws i t w
    using running_set(2) [OF that(1,3)] that(2) by simp
  from inv ex show "ran s'"
    by (cases a)
      (auto simp: ran_def pool_defs running_set(1) sum_over_signal sum_over_broadcast finish split: pool_splits)
qed

text \<open>Submitted tasks are in the queue, were taken from it in order, or were thrown away by a stop.\<close>

definition queued :: "pool \<Rightarrow> bool" where
  "queued s \<longleftrightarrow> mset (h_submitted s) = mset (h_started s) + mset (h_dropped s) + mset (p_tasks s) \<and>
     (\<not> p_stop s \<longrightarrow> h_submitted s = h_started s @ p_tasks s \<and> h_dropped s = [])"

interpretation queued_inv: invariant exec "started n k" queued for n k
proof
  show "queued (started n k)"
    by (simp add: queued_def started_eq)
  fix s a s' assume "queued s" "exec a s = Some s'"
  then show "queued s'"
    by (cases a) (auto simp: queued_def pool_defs split: pool_splits)
qed

text \<open>No worker ends, and the pool is not freed, before a stop.\<close>

definition running_pool :: "pool \<Rightarrow> bool" where
  "running_pool s \<longleftrightarrow> (\<not> p_stop s \<longrightarrow> p_live s \<and> WExit \<notin> set (p_workers s) \<and>
     (\<forall>j. CJoin j \<notin> set (p_clients s)))"

lemma not_in_set_update: "x \<notin> set xs \<Longrightarrow> x \<noteq> y \<Longrightarrow> x \<notin> set (xs[i := y])"
  using set_update_subset_insert [of xs i y] by auto

lemma not_in_signal:
  "signal waiting woken c ps = Some ps' \<Longrightarrow> x \<notin> set ps \<Longrightarrow> x \<noteq> woken \<Longrightarrow> x \<notin> set ps'"
  by (auto simp: signal_def not_in_set_update split: option.splits if_splits)

lemma nth_not_in: "i < length xs \<Longrightarrow> xs ! i = x \<Longrightarrow> x \<notin> set xs \<Longrightarrow> False"
  by auto

interpretation running_inv: invariant exec "started n k" running_pool for n k
proof
  show "running_pool (started n k)"
    by (auto simp: running_pool_def started_eq)
  fix s a s' assume "running_pool s" "exec a s = Some s'"
  then show "running_pool s'"
    by (cases a)
      (auto simp: running_pool_def pool_defs not_in_set_update not_in_signal split: pool_splits dest: nth_not_in nth_mem)
qed

text \<open>While there is a task, some worker is not asleep.\<close>

definition all_asleep :: "worker list \<Rightarrow> bool" where
  "all_asleep ws \<longleftrightarrow> ws \<noteq> [] \<and> set ws \<subseteq> {WWait}"

definition awake :: "pool \<Rightarrow> bool" where
  "awake s \<longleftrightarrow> (p_tasks s \<noteq> [] \<longrightarrow> \<not> all_asleep (p_workers s))"

lemma update_not_asleep: "i < length ws \<Longrightarrow> w \<noteq> WWait \<Longrightarrow> \<not> all_asleep (ws[i := w])"
  using set_update_memI [of i ws w] by (auto simp: all_asleep_def)

lemma signal_not_asleep: "signal WWait WRelock c ws = Some ws' \<Longrightarrow> \<not> all_asleep ws'"
  using signal_wakes [of WWait WRelock c ws ws'] signal_length [of WWait WRelock c ws ws']
  by (cases "ws = []") (auto simp: all_asleep_def)

interpretation awake_inv: invariant exec "started n k" awake for n k
proof
  show "awake (started n k)"
    by (simp add: awake_def started_eq)
  fix s a s' assume "awake s" "exec a s = Some s'"
  then show "awake s'"
    by (cases a)
      (auto simp: awake_def pool_defs update_not_asleep signal_not_asleep split: pool_splits)
qed

text \<open>The mutex is held by the one thread that is inside a critical section.\<close>

fun w_inside :: "worker \<Rightarrow> bool" where
  "w_inside WCheck = True" | "w_inside WDone = True" | "w_inside w = False"

fun c_inside :: "client \<Rightarrow> bool" where
  "c_inside (CSubmit t) = True" | "c_inside CWaitCheck = True" | "c_inside CStop = True" | "c_inside c = False"

definition insiders :: "worker list \<Rightarrow> client list \<Rightarrow> thread set" where
  "insiders ws cs =
     Worker ` {i. i < length ws \<and> w_inside (ws ! i)} \<union> Client ` {i. i < length cs \<and> c_inside (cs ! i)}"

definition owns :: "worker list \<Rightarrow> client list \<Rightarrow> thread option \<Rightarrow> bool" where
  "owns ws cs m \<longleftrightarrow> insiders ws cs = set_option m"

definition exclusive :: "pool \<Rightarrow> bool" where
  "exclusive s \<longleftrightarrow> owns (p_workers s) (p_clients s) (p_mt s)"

lemma insiders_mem:
  "i < length ws \<Longrightarrow> Worker i \<in> insiders ws cs \<longleftrightarrow> w_inside (ws ! i)"
  "i < length cs \<Longrightarrow> Client i \<in> insiders ws cs \<longleftrightarrow> c_inside (cs ! i)"
  by (auto simp: insiders_def)

lemma insiders_update:
  "i < length ws \<Longrightarrow> insiders (ws[i := w]) cs =
    (if w_inside w then insert (Worker i) (insiders ws cs) else insiders ws cs - {Worker i})"
  "i < length cs \<Longrightarrow> insiders ws (cs[i := c]) =
    (if c_inside c then insert (Client i) (insiders ws cs) else insiders ws cs - {Client i})"
  by (auto simp: insiders_def nth_list_update split: if_splits)

lemma signal_nth:
  "signal waiting woken c ps = Some ps' \<Longrightarrow> f waiting = f woken \<Longrightarrow> i < length ps \<Longrightarrow> f (ps' ! i) = f (ps ! i)"
  by (auto simp: signal_def nth_list_update split: option.splits if_splits)

lemma insiders_signal:
  "signal WWait WRelock c ws = Some ws' \<Longrightarrow> insiders ws' cs = insiders ws cs"
  "signal CWaitWait CWaitRelock c cs = Some cs' \<Longrightarrow> insiders ws cs' = insiders ws cs"
  using signal_nth [of WWait WRelock c ws ws' w_inside] signal_nth [of CWaitWait CWaitRelock c cs cs' c_inside]
    signal_length [of WWait WRelock c ws ws'] signal_length [of CWaitWait CWaitRelock c cs cs']
  by (auto simp: insiders_def)

lemma insiders_broadcast: "insiders (broadcast WWait WRelock ws) cs = insiders ws cs"
proof -
  have "w_inside (broadcast WWait WRelock ws ! i) = w_inside (ws ! i)" if "i < length ws" for i
    using that by (simp add: broadcast_def)
  moreover have "length (broadcast WWait WRelock ws) = length ws"
    by (simp add: broadcast_def)
  ultimately show ?thesis
    by (auto simp: insiders_def)
qed

lemma owns_worker:
  assumes "i < length ws"
  shows "owns ws cs None \<Longrightarrow> w_inside w \<Longrightarrow> owns (ws[i := w]) cs (Some (Worker i))"
    and "owns ws cs m \<Longrightarrow> w_inside (ws ! i) \<Longrightarrow> \<not> w_inside w \<Longrightarrow> owns (ws[i := w]) cs None"
    and "owns ws cs m \<Longrightarrow> \<not> w_inside (ws ! i) \<Longrightarrow> \<not> w_inside w \<Longrightarrow> owns (ws[i := w]) cs m"
  using insiders_mem(1) [OF assms, of cs] by (cases m; auto simp: owns_def insiders_update(1) [OF assms])+

lemma owns_client:
  assumes "i < length cs"
  shows "owns ws cs None \<Longrightarrow> c_inside c \<Longrightarrow> owns ws (cs[i := c]) (Some (Client i))"
    and "owns ws cs m \<Longrightarrow> c_inside (cs ! i) \<Longrightarrow> \<not> c_inside c \<Longrightarrow> owns ws (cs[i := c]) None"
    and "owns ws cs m \<Longrightarrow> \<not> c_inside (cs ! i) \<Longrightarrow> \<not> c_inside c \<Longrightarrow> owns ws (cs[i := c]) m"
  using insiders_mem(2) [OF assms, of ws] by (cases m; auto simp: owns_def insiders_update(2) [OF assms])+

lemma owns_signal:
  "signal WWait WRelock c ws = Some ws' \<Longrightarrow> owns ws' cs m = owns ws cs m"
  "signal CWaitWait CWaitRelock c cs = Some cs' \<Longrightarrow> owns ws cs' m = owns ws cs m"
  "owns (broadcast WWait WRelock ws) cs m = owns ws cs m"
  by (simp_all add: owns_def insiders_signal insiders_broadcast)

interpretation exclusive_inv: invariant exec "started n k" exclusive for n k
proof
  show "exclusive (started n k)"
    by (simp add: exclusive_def owns_def insiders_def started_eq)
  fix s a s' assume "exclusive s" "exec a s = Some s'"
  then show "exclusive s'"
    by (cases a)
      (auto simp: exclusive_def pool_defs owns_signal owns_worker owns_client split: pool_splits)
qed

text \<open>A client that has joined j workers has seen them end; ended workers stay so.\<close>

definition exits :: "worker list \<Rightarrow> nat set" where
  "exits ws = {m. m < length ws \<and> ws ! m = WExit}"

lemma exits_update:
  "i < length ws \<Longrightarrow> ws ! i \<noteq> WExit \<Longrightarrow>
    m \<in> exits (ws[i := w]) \<longleftrightarrow> m \<in> exits ws \<or> (m = i \<and> w = WExit)"
  by (auto simp: exits_def nth_list_update)

lemma exits_broadcast: "exits (broadcast WWait WRelock ws) = exits ws"
  by (auto simp: exits_def broadcast_def split: if_splits)

lemma exits_signal: "signal WWait WRelock c ws = Some ws' \<Longrightarrow> exits ws' = exits ws"
  using signal_nth [of WWait WRelock c ws ws' "\<lambda>w. w = WExit"] signal_length [of WWait WRelock c ws ws']
  by (auto simp: exits_def)

lemma exits_mono: "exec a s = Some s' \<Longrightarrow> exits (p_workers s) \<subseteq> exits (p_workers s')"
  by (cases a) (auto simp: pool_defs exits_broadcast exits_signal exits_update split: pool_splits)

definition joined :: "pool \<Rightarrow> bool" where
  "joined s \<longleftrightarrow>
     (\<forall>j. CJoin j \<in> set (p_clients s) \<longrightarrow> {..<unat j} \<subseteq> exits (p_workers s)) \<and>
     (\<not> p_live s \<longrightarrow> {..<unat (p_thread_count s)} \<subseteq> exits (p_workers s))"

text \<open>Where a join comes from, and when the pool is freed.\<close>

lemma set_update_cases: "x \<in> set (xs[i := y]) \<Longrightarrow> x = y \<or> x \<in> set xs"
  using set_update_subset_insert [of xs i y] by auto

lemma signal_set: "signal waiting woken c ps = Some ps' \<Longrightarrow> x \<in> set ps' \<Longrightarrow> x = woken \<or> x \<in> set ps"
  by (auto simp: signal_def dest: set_update_cases split: option.splits if_splits)

lemma join_step:
  assumes "exec a s = Some s'"
  shows "CJoin j \<in> set (p_clients s') \<Longrightarrow> CJoin j \<in> set (p_clients s) \<or> j = 0 \<or>
      (\<exists>j0. j = j0 + 1 \<and> CJoin j0 \<in> set (p_clients s) \<and> j0 < p_thread_count s \<and> unat j0 \<in> exits (p_workers s))"
    and "\<not> p_live s' \<Longrightarrow> \<not> p_live s \<or> (\<exists>j. CJoin j \<in> set (p_clients s) \<and> \<not> j < p_thread_count s)"
    and "p_thread_count s' = p_thread_count s"
proof -
  have mem: "CJoin j \<in> set (p_clients s)" if "i < length (p_clients s)" "p_clients s ! i = CJoin j" for i j
    using that by (metis nth_mem)
  show "p_thread_count s' = p_thread_count s"
    using assms by (cases a) (auto simp: pool_defs split: pool_splits)
  show "\<not> p_live s' \<Longrightarrow> \<not> p_live s \<or> (\<exists>j. CJoin j \<in> set (p_clients s) \<and> \<not> j < p_thread_count s)"
    using assms by (cases a) (auto simp: pool_defs split: pool_splits dest: mem)
  show "CJoin j \<in> set (p_clients s') \<Longrightarrow> CJoin j \<in> set (p_clients s) \<or> j = 0 \<or>
      (\<exists>j0. j = j0 + 1 \<and> CJoin j0 \<in> set (p_clients s) \<and> j0 < p_thread_count s \<and> unat j0 \<in> exits (p_workers s))"
    using assms
    by (cases a) (auto simp: pool_defs exits_def split: pool_splits dest!: set_update_cases dest: mem signal_set)
qed

interpretation joined_inv: invariant exec "started n k" joined for n k
proof
  show "joined (started n k)"
    by (auto simp: joined_def started_eq)
  fix s a s' assume inv: "joined s" and ex: "exec a s = Some s'"
  note mono = exits_mono [OF ex]
  show "joined s'"
    unfolding joined_def
  proof (intro conjI allI impI)
    fix j assume "CJoin j \<in> set (p_clients s')"
    then consider "CJoin j \<in> set (p_clients s)" | "j = 0"
      | j0 where "j = j0 + 1" "CJoin j0 \<in> set (p_clients s)" "j0 < p_thread_count s" "unat j0 \<in> exits (p_workers s)"
      using join_step(1) [OF ex] by blast
    then show "{..<unat j} \<subseteq> exits (p_workers s')"
    proof cases
      case 3
      have "{..<unat j} = insert (unat j0) {..<unat j0}"
        by (simp add: 3(1) unat_step [OF 3(3)] lessThan_Suc)
      with 3 inv mono show ?thesis by (auto simp: joined_def)
    qed (use inv mono in \<open>auto simp: joined_def\<close>)
  next
    assume "\<not> p_live s'"
    then consider "\<not> p_live s" | j where "CJoin j \<in> set (p_clients s)" "\<not> j < p_thread_count s"
      using join_step(2) [OF ex] by blast
    then show "{..<unat (p_thread_count s')} \<subseteq> exits (p_workers s')"
    proof cases
      case 2
      then have "{..<unat (p_thread_count s)} \<subseteq> {..<unat j}"
        by (auto simp: word_less_nat_alt)
      moreover have "{..<unat j} \<subseteq> exits (p_workers s)"
        using inv 2(1) unfolding joined_def by blast
      ultimately have "{..<unat (p_thread_count s)} \<subseteq> exits (p_workers s)"
        by (rule order_trans)
      then show ?thesis
        using mono unfolding join_step(3) [OF ex] by (rule order_trans)
    qed (use inv mono join_step(3) [OF ex] in \<open>auto simp: joined_def\<close>)
  qed
qed

section \<open>Concrete runs\<close>

text \<open>One worker and one client: a task is submitted, waited for before and after its run, and the pool stopped.\<close>

definition ex_submit :: "action list" where
  "ex_submit = [Call 0 (Submit 7), ClientStep 0 None, ClientStep 0 None]"

definition ex_wait :: "action list" where
  "ex_wait = ex_submit @ [Call 0 Wait, ClientStep 0 None, ClientStep 0 None]"

definition ex_idle :: "action list" where
  "ex_idle = ex_submit @ [WorkerStep 0 None, WorkerStep 0 None, WorkerStep 0 None, WorkerStep 0 None,
     WorkerStep 0 None, Call 0 Wait, ClientStep 0 None]"

definition ex_stop :: "action list" where
  "ex_stop = [Call 0 Stop, ClientStep 0 None, ClientStep 0 None, ClientStep 0 None, WorkerStep 0 None,
     WorkerStep 0 None, ClientStep 0 None, ClientStep 0 None]"

lemmas ex_run = ex_submit_def ex_wait_def ex_idle_def ex_stop_def started_eq signal_def broadcast_def

text \<open>Running the actions from the start, in a form the simplifier evaluates.\<close>

lemma ex_reaches: "exec_all exec as (started n k) = Some s \<Longrightarrow> reach exec (started n k) s"
  by (rule exec_all_reach [OF reach.start])

section \<open>Properties\<close>

lemma total_busy_zero:
  assumes "sum_over busy ws = 0" "length ws < 256"
  shows "\<forall>w \<in> set ws. busy w = 0"
proof -
  have "unat (sum_over busy ws) = length (filter (\<lambda>w. busy w \<noteq> 0) ws)" if "length ws < 256" for ws
    using that
  proof (induction ws)
    case (Cons w ws)
    have le: "length (filter (\<lambda>w. busy w \<noteq> 0) ws) \<le> length ws"
      by (rule length_filter_le)
    have "busy w = 0 \<or> busy w = 1"
      by (cases w) auto
    moreover have "unat (1 + sum_over busy ws) = Suc (unat (sum_over busy ws))"
    proof -
      have "unat (1 :: byte) + unat (sum_over busy ws) < 2 ^ LENGTH(8)"
        using Cons le order_le_less_trans [OF le, of 255] by simp
      then show ?thesis
        by (subst (asm) unat_add_lem) simp
    qed
    ultimately show ?case
      using Cons by auto
  qed simp
  then have "filter (\<lambda>w. busy w \<noteq> 0) ws = []"
    using assms by (metis length_0_conv unat_0)
  then show ?thesis
    by (simp add: filter_empty_conv)
qed

lemma running_busy: "\<forall>w \<in> set ws. busy w = 0 \<Longrightarrow> sum_over running ws = {#}"
proof (induction ws)
  case (Cons w ws)
  then show ?case by (cases w) auto
qed simp

lemma pool_balance:
  assumes "reach exec (started n k) s"
  shows "mset (h_submitted s) =
    mset (h_finished s) + sum_over running (p_workers s) + mset (p_tasks s) + mset (h_dropped s)"
  using ran_inv.holds [OF assms] queued_inv.holds [OF assms] by (simp add: ran_def queued_def)

text \<open>
  C1: No task is lost, run twice or invented: at every moment of every interleaving, the tasks
  submitted are those whose run ended, those a worker is running, those in the queue and those a
  stop threw away.
\<close>

theorem pool_conserves_tasks:
  assumes "reach exec (started n k) s"
  shows "mset (h_submitted s) =
    mset (h_finished s) + sum_over running (p_workers s) + mset (p_tasks s) + mset (h_dropped s)"
  using ran_inv.holds [OF assms] queued_inv.holds [OF assms] by (simp add: ran_def queued_def)

theorem pool_conserves_tasks_witness:
  "\<exists>s. exec_all exec ex_idle (started 1 1) = Some s \<and> mset (h_submitted s) =
    mset (h_finished s) + sum_over running (p_workers s) + mset (p_tasks s) + mset (h_dropped s)"
proof -
  let ?s = "\<lparr>p_live = True, p_single_mt = None, p_mt = Some (Client 0), p_tasks = [], p_stop = False,
      p_in_work = 0, p_thread_count = 1, p_workers = [WLock], p_clients = [CWaitCheck],
      h_submitted = [7], h_started = [7], h_finished = [7], h_dropped = []\<rparr>"
  have run: "exec_all exec ex_idle (started 1 1) = Some ?s"
    by (simp add: ex_run pool_defs)
  show ?thesis
    using run pool_conserves_tasks [OF ex_reaches [OF run]] by blast
qed

text \<open>
  C13: Until a stop, workers start the tasks in the order they were submitted: what was started,
  followed by the queue, is what was submitted.
\<close>

theorem pool_is_fifo:
  assumes "reach exec (started n k) s" "\<not> p_stop s"
  shows "h_submitted s = h_started s @ p_tasks s"
  using queued_inv.holds [OF assms(1)] assms(2) by (simp add: queued_def)

theorem pool_is_fifo_witness:
  "\<exists>s. exec_all exec ex_idle (started 1 1) = Some s \<and> h_submitted s = h_started s @ p_tasks s"
proof -
  let ?s = "\<lparr>p_live = True, p_single_mt = None, p_mt = Some (Client 0), p_tasks = [], p_stop = False,
      p_in_work = 0, p_thread_count = 1, p_workers = [WLock], p_clients = [CWaitCheck],
      h_submitted = [7], h_started = [7], h_finished = [7], h_dropped = []\<rparr>"
  have run: "exec_all exec ex_idle (started 1 1) = Some ?s"
    by (simp add: ex_run pool_defs)
  show ?thesis
    using run pool_is_fifo [OF ex_reaches [OF run]] by auto
qed

text \<open>
  C12: With at most 255 workers, when \<^verbatim>\<open>ccpool_wait\<close> returns the pool is idle: the
  queue is empty, no worker runs a task or is about to report one, and every task submitted so far
  has run to its end (or was thrown away by a stop).
\<close>

theorem pool_wait_returns_idle:
  assumes "reach exec (started n k) s" "n < 256"
    and "i < k" "p_clients s ! i = CWaitCheck" "exec (ClientStep i None) s = Some s'" "p_clients s' ! i = CIdle"
  shows "p_tasks s' = [] \<and> (\<forall>w \<in> set (p_workers s'). busy w = 0) \<and>
    mset (h_submitted s') = mset (h_finished s') + mset (h_dropped s')"
proof -
  have size: "length (p_workers s) = n" "length (p_clients s) = k"
    using sizes_inv.holds [OF assms(1)] by (simp_all add: sizes_def)
  have s': "s' = unlock (set_client i (if p_in_work s \<noteq> 0 \<or> p_tasks s \<noteq> [] then CWaitWait else CIdle) s)"
    using assms(3-5) size by (simp add: client_step_def ccpool_wait_def)
  have idle: "p_in_work s = 0" "p_tasks s = []"
    using assms(3,6) size by (auto simp: s' unlock_def set_client_def split: if_splits)
  then have "sum_over busy (p_workers s) = 0"
    using counted_inv.holds [OF assms(1)] by (simp add: counted_def)
  then have calm: "\<forall>w \<in> set (p_workers s). busy w = 0"
    using total_busy_zero size assms(2) by simp
  then have "sum_over running (p_workers s) = {#}"
    by (rule running_busy)
  then show ?thesis
    using pool_balance [OF assms(1)] idle calm by (simp add: s' unlock_def set_client_def)
qed

theorem pool_wait_returns_idle_witness:
  "\<exists>s. exec_all exec ex_idle (started 1 1) = Some s \<and> (\<exists>s'. exec (ClientStep 0 None) s = Some s' \<and>
    p_tasks s' = [] \<and> mset (h_submitted s') = mset (h_finished s') + mset (h_dropped s'))"
proof -
  let ?s = "\<lparr>p_live = True, p_single_mt = None, p_mt = Some (Client 0), p_tasks = [], p_stop = False,
      p_in_work = 0, p_thread_count = 1, p_workers = [WLock], p_clients = [CWaitCheck],
      h_submitted = [7], h_started = [7], h_finished = [7], h_dropped = []\<rparr>"
  have run: "exec_all exec ex_idle (started 1 1) = Some ?s"
    by (simp add: ex_run pool_defs)
  let ?s' = "?s\<lparr>p_mt := None, p_clients := [CIdle]\<rparr>"
  have "exec (ClientStep 0 None) ?s = Some ?s'"
    by (simp add: pool_defs)
  then show ?thesis
    using run pool_wait_returns_idle [OF ex_reaches [OF run], of 0 ?s'] by auto
qed

text \<open>
  The pool's mutex excludes: at every moment the threads inside a critical section are exactly
  its owner, so never two.
\<close>

theorem pool_mutual_exclusion:
  assumes "reach exec (started n k) s"
  shows "insiders (p_workers s) (p_clients s) = set_option (p_mt s)"
  using exclusive_inv.holds [OF assms] by (simp add: exclusive_def owns_def)

theorem pool_mutual_exclusion_witness:
  "\<exists>s. exec_all exec ex_idle (started 1 1) = Some s \<and> insiders (p_workers s) (p_clients s) = {Client 0}"
proof -
  let ?s = "\<lparr>p_live = True, p_single_mt = None, p_mt = Some (Client 0), p_tasks = [], p_stop = False,
      p_in_work = 0, p_thread_count = 1, p_workers = [WLock], p_clients = [CWaitCheck],
      h_submitted = [7], h_started = [7], h_finished = [7], h_dropped = []\<rparr>"
  have run: "exec_all exec ex_idle (started 1 1) = Some ?s"
    by (simp add: ex_run pool_defs)
  show ?thesis
    using run pool_mutual_exclusion [OF ex_reaches [OF run]] by auto
qed

text \<open>The thread that holds the mutex can go on.\<close>

lemma owner_steps:
  assumes "reach exec (started n k) s" "p_mt s = Some t"
  shows "\<exists>i c s'. exec (WorkerStep i c) s = Some s' \<or> exec (ClientStep i c) s = Some s'"
proof (cases t)
  have own: "insiders (p_workers s) (p_clients s) = set_option (p_mt s)"
    using exclusive_inv.holds [OF assms(1)] by (simp add: exclusive_def owns_def)
  {
    case (Worker i)
    then have i: "i < length (p_workers s)" "w_inside (p_workers s ! i)"
      using own assms(2) by (auto simp: insiders_def set_eq_iff)
    obtain c cs where "signal CWaitWait CWaitRelock c (p_clients s) = Some cs"
      using signal_enabled [of CWaitWait CWaitRelock "p_clients s"] by blast
    then have "\<exists>c s'. exec (WorkerStep i c) s = Some s'"
      using i by (cases "p_workers s ! i") (auto simp: pool_worker_def split: list.split)
    then show ?thesis by blast
  next
    case (Client i)
    then have i: "i < length (p_clients s)" "c_inside (p_clients s ! i)"
      using own assms(2) by (auto simp: insiders_def set_eq_iff)
    obtain c ws where "signal WWait WRelock c (p_workers s) = Some ws"
      using signal_enabled [of WWait WRelock "p_workers s"] by blast
    then have "\<exists>c s'. exec (ClientStep i c) s = Some s'"
      using i by (cases "p_clients s ! i") (auto simp: client_step_def ccpool_submit_def ccpool_wait_def ccpool_stop_def)
    then show ?thesis by blast
  }
qed

text \<open>
  No wake-up of a worker is lost and the pool never blocks on its own lock: while there is a
  task and no stop, some worker, or the thread that holds the mutex, can take a step, without a
  spurious wake-up and without a new call.
\<close>

theorem pool_progress:
  assumes "reach exec (started n k) s" "0 < n" "p_tasks s \<noteq> []" "\<not> p_stop s"
  shows "\<exists>i c s'. exec (WorkerStep i c) s = Some s' \<or> exec (ClientStep i c) s = Some s'"
proof -
  have size: "length (p_workers s) = n" "length (p_clients s) = k"
    using sizes_inv.holds [OF assms(1)] by (simp_all add: sizes_def)
  have own: "insiders (p_workers s) (p_clients s) = set_option (p_mt s)"
    using exclusive_inv.holds [OF assms(1)] by (simp add: exclusive_def owns_def)
  show ?thesis
  proof (cases "p_mt s")
    case None
    have "\<not> set (p_workers s) \<subseteq> {WWait}"
      using awake_inv.holds [OF assms(1)] assms(2,3) size by (auto simp: awake_def all_asleep_def)
    then obtain i where i: "i < n" "p_workers s ! i \<noteq> WWait"
      using size by (auto simp: in_set_conv_nth subset_iff)
    moreover have "p_workers s ! i \<noteq> WExit"
      using running_inv.holds [OF assms(1)] assms(4) i(1) size by (auto simp: running_pool_def dest: nth_mem)
    moreover have "\<not> w_inside (p_workers s ! i)"
      using own None insiders_mem(1) [of i "p_workers s" "p_clients s"] i(1) size by simp
    ultimately have "\<exists>s'. exec (WorkerStep i None) s = Some s'"
      using None size by (cases "p_workers s ! i") (auto simp: pool_worker_def lock_def)
    then show ?thesis by blast
  next
    case (Some t)
    then show ?thesis
      using owner_steps [OF assms(1)] by blast
  qed
qed

theorem pool_progress_witness:
  "\<exists>s. exec_all exec ex_submit (started 1 1) = Some s \<and> (\<exists>i c s'. exec (WorkerStep i c) s = Some s' \<or> exec (ClientStep i c) s = Some s')"
proof -
  let ?s = "\<lparr>p_live = True, p_single_mt = None, p_mt = None, p_tasks = [7], p_stop = False,
      p_in_work = 0, p_thread_count = 1, p_workers = [WLock], p_clients = [CIdle],
      h_submitted = [7], h_started = [], h_finished = [], h_dropped = []\<rparr>"
  have run: "exec_all exec ex_submit (started 1 1) = Some ?s"
    by (simp add: ex_run pool_defs)
  show ?thesis
    using run pool_progress [OF ex_reaches [OF run]] by auto
qed

lemma freed_workers:
  assumes "reach exec (started n k) a" "n < 256" "\<not> p_live a"
  shows "set (p_workers a) \<subseteq> {WExit}"
proof -
  have "length (p_workers a) = n" "unat (p_thread_count a) = n"
    using sizes_inv.holds [OF assms(1)] assms(2) by (simp_all add: sizes_def unat_of_nat take_bit_eq_mod)
  then show ?thesis
    using joined_inv.holds [OF assms(1)] assms(3) by (auto simp: joined_def exits_def in_set_conv_nth)
qed

text \<open>
  C16: With at most 255 workers, \<^verbatim>\<open>ccpool_stop\<close> frees the pool only after every worker
  has ended.
\<close>

theorem pool_stop_joins_workers:
  assumes "reach exec (started n k) s" "n < 256" "\<not> p_live s"
  shows "\<forall>w \<in> set (p_workers s). w = WExit"
  using freed_workers [OF assms] by blast

theorem pool_stop_joins_workers_witness:
  "\<exists>s. exec_all exec ex_stop (started 1 1) = Some s \<and> (\<forall>w \<in> set (p_workers s). w = WExit)"
proof -
  let ?s = "\<lparr>p_live = False, p_single_mt = None, p_mt = None, p_tasks = [], p_stop = True,
      p_in_work = 0, p_thread_count = 1, p_workers = [WExit], p_clients = [CIdle],
      h_submitted = [], h_started = [], h_finished = [], h_dropped = []\<rparr>"
  have run: "exec_all exec ex_stop (started 1 1) = Some ?s"
    by (simp add: ex_run pool_defs)
  show ?thesis
    using run pool_stop_joins_workers [OF ex_reaches [OF run]] by auto
qed

text \<open>A client that waits alone.\<close>

definition one_waiter :: "pool \<Rightarrow> bool" where
  "one_waiter s \<longleftrightarrow> (p_clients s = [CWaitWait] \<longrightarrow> p_in_work s \<noteq> 0 \<or> p_tasks s \<noteq> [])"

lemma busy_counted:
  assumes "counted s" "length (p_workers s) < 256" "i < length (p_workers s)" "busy (p_workers s ! i) \<noteq> 0"
  shows "p_in_work s \<noteq> 0"
  using assms total_busy_zero [of "p_workers s"] by (auto simp: counted_def)

lemma signal_single: "signal CWaitWait CWaitRelock c [CWaitWait] = Some cs \<Longrightarrow> cs = [CWaitRelock]"
  by (auto simp: signal_def split: option.splits if_splits)

lemma signal_awoken: "signal CWaitWait CWaitRelock c [c0] = Some cs \<Longrightarrow> cs \<noteq> [CWaitWait]"
  by (auto simp: signal_def split: option.splits if_splits)

lemma one_waiter_inv:
  assumes "n < 256"
  shows "invariant exec (started n 1) one_waiter"
proof
  show "one_waiter (started n 1)"
    by (simp add: one_waiter_def started_eq)
  fix s a s' assume r: "reach exec (started n 1) s" and inv: "one_waiter s" and ex: "exec a s = Some s'"
  have size: "length (p_workers s) = n" "length (p_clients s) = 1"
    using sizes_inv.holds [OF r] by (simp_all add: sizes_def)
  then obtain c0 where c0: "p_clients s = [c0]"
    by (cases "p_clients s") auto
  have r': "reach exec (started n 1) s'"
    using r ex by (rule reach.step)
  have size': "length (p_workers s') < 256"
    using sizes_inv.holds [OF r'] assms by (simp add: sizes_def)
  note busy' = busy_counted [OF counted_inv.holds [OF r'] size']
  show "one_waiter s'"
  proof (cases a)
    case (WorkerStep i c)
    have take: "p_in_work s' \<noteq> 0" if "i < length (p_workers s')" "p_workers s' ! i = WRun t" for t
      using busy' [OF that(1)] that(2) by simp
    from ex WorkerStep inv take c0 show ?thesis
      by (auto simp: one_waiter_def pool_defs dest: signal_awoken split: pool_splits)
  next
    case (ClientStep i c)
    from ex ClientStep inv c0 show ?thesis
      by (auto simp: one_waiter_def pool_defs split: pool_splits)
  qed (use ex inv c0 in \<open>auto simp: one_waiter_def pool_defs split: pool_splits\<close>)
qed

text \<open>
  With a single client thread and at most 255 workers the wait is not stranded: while the
  client sleeps in \<^verbatim>\<open>ccpool_wait\<close> there is a task in the queue, or one whose end will
  wake it.
\<close>

theorem pool_single_waiter:
  assumes "reach exec (started n 1) s" "n < 256" "p_clients s = [CWaitWait]"
  shows "p_tasks s \<noteq> [] \<or> (\<exists>w \<in> set (p_workers s). busy w \<noteq> 0)"
proof -
  have "p_in_work s \<noteq> 0 \<or> p_tasks s \<noteq> []"
    using invariant.holds [OF one_waiter_inv [OF assms(2)] assms(1)] assms(3) by (simp add: one_waiter_def)
  moreover have "p_in_work s = 0" if "\<forall>w \<in> set (p_workers s). busy w = 0"
  proof -
    have "sum_over busy ws = 0" if "\<forall>w \<in> set ws. busy w = 0" for ws
      using that by (induction ws) auto
    then show ?thesis
      using that counted_inv.holds [OF assms(1)] by (simp add: counted_def)
  qed
  ultimately show ?thesis by blast
qed

theorem pool_single_waiter_witness:
  "\<exists>s. exec_all exec ex_wait (started 1 1) = Some s \<and> (p_tasks s \<noteq> [] \<or> (\<exists>w \<in> set (p_workers s). busy w \<noteq> 0))"
proof -
  let ?s = "\<lparr>p_live = True, p_single_mt = None, p_mt = None, p_tasks = [7], p_stop = False,
      p_in_work = 0, p_thread_count = 1, p_workers = [WLock], p_clients = [CWaitWait],
      h_submitted = [7], h_started = [], h_finished = [], h_dropped = []\<rparr>"
  have run: "exec_all exec ex_wait (started 1 1) = Some ?s"
    by (simp add: ex_run pool_defs)
  show ?thesis
    using run pool_single_waiter [OF ex_reaches [OF run]] by auto
qed

section \<open>What the pool does not do\<close>

text \<open>The schedule of the next property.\<close>

definition stranding :: "action list" where
  "stranding =
     [Call 0 (Submit 7), ClientStep 0 None, ClientStep 0 None,
      Call 0 Wait, ClientStep 0 None, ClientStep 0 None,
      Call 1 Wait, ClientStep 1 None, ClientStep 1 None,
      WorkerStep 0 None, WorkerStep 0 None, WorkerStep 0 None, WorkerStep 0 None, WorkerStep 0 (Some 0),
      ClientStep 0 None, ClientStep 0 None, WorkerStep 0 None, WorkerStep 0 None]"

text \<open>
  Two clients that wait at once can leave one asleep for ever: a finished task wakes one of
  them only.  From this state of a pool with one worker and two clients, which it reaches without a
  spurious wake-up, nobody can step although the pool is idle and one client still waits.
\<close>

theorem pool_second_waiter_stranded:
  "\<exists>s. reach exec (started 1 2) s \<and> p_tasks s = [] \<and> p_in_work s = 0 \<and> h_finished s = [7] \<and>
     p_clients s ! 1 = CWaitWait \<and> (\<forall>i c. exec (WorkerStep i c) s = None \<and> exec (ClientStep i c) s = None)"
proof -
  let ?s = "\<lparr>p_live = True, p_single_mt = None, p_mt = None, p_tasks = [], p_stop = False,
      p_in_work = 0, p_thread_count = 1, p_workers = [WWait], p_clients = [CIdle, CWaitWait],
      h_submitted = [7], h_started = [7], h_finished = [7], h_dropped = []\<rparr>"
  have "exec_all exec stranding (started 1 2) = Some ?s"
    by (simp add: stranding_def started_eq pool_defs signal_def numeral_2_eq_2)
  then have "reach exec (started 1 2) ?s"
    by (rule exec_all_reach [OF reach.start])
  moreover have "exec (WorkerStep i c) ?s = None" "exec (ClientStep i c) ?s = None" for i c
    by (cases i; simp add: pool_worker_def client_step_def)+
  ultimately show ?thesis by (intro exI [of _ ?s]) simp
qed

text \<open>A pool of 256 workers of which the first j have taken a task each.\<close>

definition loaded :: "nat \<Rightarrow> pool" where
  "loaded j = (started 256 1)\<lparr>p_in_work := of_nat j,
     p_workers := replicate j (WRun 0) @ replicate (256 - j) WLock,
     h_submitted := replicate j 0, h_started := replicate j 0\<rparr>"

lemma load_one:
  assumes "j < 256"
  shows "exec_all exec [Call 0 (Submit 0), ClientStep 0 None, ClientStep 0 None, WorkerStep j None, WorkerStep j None]
    (loaded j) = Some (loaded (Suc j))"
proof -
  have split: "replicate (256 - j) WLock = WLock # replicate (255 - j) WLock"
    using assms by (simp flip: replicate_Suc add: Suc_diff_le)
  show ?thesis
    using assms
    by (simp add: loaded_def started_eq pool_defs signal_def split list_update_append nth_append
        add.commute) (simp add: replicate_append_same)
qed

lemma loaded_reached: "j \<le> 256 \<Longrightarrow> reach exec (started 256 1) (loaded j)"
proof (induction j)
  case 0
  have "loaded 0 = started 256 1"
    by (simp add: loaded_def started_eq)
  then show ?case by (metis reach.start)
next
  case (Suc j)
  then show ?case
    using exec_all_reach [OF Suc.IH load_one] by simp
qed

text \<open>
  The number of threads is not checked against the one-byte counters.  In a pool of 256 workers
  that all run a task the counter of working threads is 0, and \<^verbatim>\<open>ccpool_wait\<close> returns
  at once.
\<close>

theorem pool_wait_early_at_256:
  "\<exists>s s'. reach exec (started 256 1) s \<and> p_clients s = [CWaitCheck] \<and>
     exec (ClientStep 0 None) s = Some s' \<and> p_clients s' = [CIdle] \<and>
     p_workers s' = replicate 256 (WRun 0) \<and> h_finished s' = []"
proof -
  have "exec_all exec [Call 0 Wait, ClientStep 0 None] (loaded 256) =
      Some ((loaded 256)\<lparr>p_mt := Some (Client 0), p_clients := [CWaitCheck]\<rparr>)" (is "_ = Some ?s")
    by (simp add: loaded_def started_eq pool_defs)
  then have "reach exec (started 256 1) ?s"
    by (rule exec_all_reach [OF loaded_reached [OF order_refl]])
  moreover have "exec (ClientStep 0 None) ?s = Some ((loaded 256)\<lparr>p_clients := [CIdle]\<rparr>)"
    by (simp add: loaded_def started_eq pool_defs)
  ultimately show ?thesis
    by (intro exI [of _ ?s] exI [of _ "(loaded 256)\<lparr>p_clients := [CIdle]\<rparr>"]) (simp add: loaded_def started_eq)
qed

text \<open>
  With 256 workers the thread count is 0 too: \<^verbatim>\<open>ccpool_stop\<close> joins nobody and frees
  the pool while all its workers still use it.
\<close>

theorem pool_freed_early_at_256:
  "\<exists>s. reach exec (started 256 1) s \<and> \<not> p_live s \<and> p_workers s = replicate 256 WLock \<and>
     (\<exists>s'. exec (WorkerStep 0 None) s = Some s')"
proof -
  let ?s = "(started 256 1)\<lparr>p_live := False, p_stop := True\<rparr>"
  have "exec_all exec [Call 0 Stop, ClientStep 0 None, ClientStep 0 None, ClientStep 0 None, ClientStep 0 None]
      (started 256 1) = Some ?s"
    by (simp add: started_eq pool_defs broadcast_def)
  then have "reach exec (started 256 1) ?s"
    by (rule ex_reaches)
  then show ?thesis
    by (intro exI [of _ ?s]) (simp add: started_eq pool_worker_def lock_def)
qed

end
