(* ===== verification/CC_PoolLive.thy ===== *)
theory CC_PoolLive
  imports CC_PoolProps
begin

text \<open>
  The pool comes to rest: left alone (no new calls, no spurious wake-ups) every run of its threads
  ends, after a number of steps bounded by the work that is left, and where it ends all tasks have
  been run, or, after a stop, all workers have ended and the pool is freed.
\<close>

section \<open>The work that is left\<close>

fun internal :: "action \<Rightarrow> bool" where
  "internal (WorkerStep i c) = True"
| "internal (ClientStep i c) = True"
| "internal a = False"

fun w_work :: "worker \<Rightarrow> nat" where
  "w_work WLock = 4" | "w_work WRelock = 4" | "w_work WCheck = 3" | "w_work WWait = 0"
| "w_work (WRun t) = 14" | "w_work WDoneLock = 13" | "w_work WDone = 12" | "w_work WExit = 0"

text \<open>A stop wakes all workers, n of them.\<close>

fun c_work :: "nat \<Rightarrow> client \<Rightarrow> nat" where
  "c_work n CIdle = 0"
| "c_work n (CSubmitLock t) = 30" | "c_work n (CSubmit t) = 29"
| "c_work n CWaitLock = 3" | "c_work n CWaitRelock = 3" | "c_work n CWaitCheck = 2" | "c_work n CWaitWait = 0"
| "c_work n CStopSingle = 4 * n + 260" | "c_work n CStopLock = 4 * n + 259" | "c_work n CStop = 4 * n + 258"
| "c_work n (CJoin j) = 257 - unat j"

definition work :: "pool \<Rightarrow> nat" where
  "work s = sum_over w_work (p_workers s) + sum_over (c_work (length (p_workers s))) (p_clients s) + 20 * length (p_tasks s)"

lemma sum_over_nat:
  fixes f :: "'p \<Rightarrow> nat"
  assumes "i < length ps"
  shows "sum_over f (ps[i := p]) = sum_over f ps + f p - f (ps ! i)" "f (ps ! i) \<le> sum_over f ps"
proof -
  show "sum_over f (ps[i := p]) = sum_over f ps + f p - f (ps ! i)"
    using sum_over_update [OF assms, of f p] by linarith
  have "f (ps ! i) \<le> sum_list (map f ps)"
    using assms by (intro member_le_sum_list) auto
  then show "f (ps ! i) \<le> sum_over f ps"
    by (simp add: sum_over_def)
qed

lemma signal_work:
  "signal WWait WRelock c ws = Some ws' \<Longrightarrow> sum_over w_work ws' \<le> sum_over w_work ws + 4"
  "signal CWaitWait CWaitRelock c cs = Some cs' \<Longrightarrow> sum_over (c_work n) cs' \<le> sum_over (c_work n) cs + 3"
  by (auto simp: signal_def sum_over_nat(1) split: option.splits if_splits)

lemma broadcast_work: "sum_over w_work (broadcast WWait WRelock ws) \<le> sum_over w_work ws + 4 * length ws"
  by (induction ws) (auto simp: broadcast_def)

lemma join_work: "j < (m :: byte) \<Longrightarrow> 257 - unat (j + 1) < 257 - unat j" "257 - unat (j :: byte) > 0"
  using unat_step [of j m] unsigned_less [of j, where 'a = nat] by auto

lemma worker_work:
  assumes "pool_worker i c s = Some s'"
  shows "work s' < work s"
proof -
  have i: "i < length (p_workers s)"
    using assms by (auto simp: pool_worker_def split: if_splits)
  note sums = sum_over_nat [OF i, of w_work]
  show ?thesis
    using assms i sums
    by (cases "p_workers s ! i")
      (auto simp: work_def pool_defs split: if_splits list.splits dest!: signal_work(2) [where n = "length (p_workers s)"])
qed

lemma client_work:
  assumes "client_step i c s = Some s'"
  shows "work s' < work s"
proof -
  have i: "i < length (p_clients s)"
    using assms by (auto simp: client_step_def split: if_splits)
  note sums = sum_over_nat [OF i, of "c_work (length (p_workers s))"]
  show ?thesis
  proof (cases "p_clients s ! i")
    case (CJoin j)
    then show ?thesis
      using assms i sums join_work(1) [of j "p_thread_count s"] join_work(2) [of j]
      by (auto simp: work_def pool_defs split: if_splits)
  next
    case (CSubmit t)
    then obtain ws where ws: "signal WWait WRelock c (p_workers s) = Some ws"
      "s' = unlock (set_client i CIdle (s\<lparr>p_tasks := p_tasks s @ [t], h_submitted := h_submitted s @ [t], p_workers := ws\<rparr>))"
      using assms i by (auto simp: client_step_def ccpool_submit_def)
    then show ?thesis
      using CSubmit i sums signal_work(1) [OF ws(1)] signal_length [OF ws(1)] by (auto simp: work_def pool_defs)
  next
    case CStop
    then show ?thesis
      using assms i sums broadcast_work [of "p_workers s"] by (auto simp: work_def pool_defs broadcast_def)
  qed (use assms i sums in \<open>auto simp: work_def pool_defs split: if_splits\<close>)
qed

lemma internal_work: "exec a s = Some s' \<Longrightarrow> internal a \<Longrightarrow> work s' < work s"
  using worker_work client_work by (cases a) auto

lemma run_work: "exec_all exec as s = Some s' \<Longrightarrow> list_all internal as \<Longrightarrow> length as + work s' \<le> work s"
proof (induction as arbitrary: s)
  case (Cons a as)
  then obtain s1 where "exec a s = Some s1" "exec_all exec as s1 = Some s'"
    by (auto simp: Option.bind_eq_Some_conv)
  then show ?case
    using Cons internal_work [of a s s1] by fastforce
qed simp

section \<open>Rest\<close>

definition at_rest :: "pool \<Rightarrow> bool" where
  "at_rest s \<longleftrightarrow> (\<forall>a. internal a \<longrightarrow> exec a s = None)"

lemma at_rest_iff: "at_rest s \<longleftrightarrow> (\<forall>i c. pool_worker i c s = None \<and> client_step i c s = None)"
  unfolding at_rest_def
proof (intro iffI allI impI conjI)
  fix a assume "\<forall>i c. pool_worker i c s = None \<and> client_step i c s = None" "internal a"
  then show "exec a s = None"
    by (cases a) auto
qed (metis exec.simps(1,2) internal.simps(1,2))+

lemma comes_to_rest: "\<exists>as s'. list_all internal as \<and> exec_all exec as s = Some s' \<and> at_rest s'"
proof (induction "work s" arbitrary: s rule: less_induct)
  case less
  show ?case
  proof (cases "at_rest s")
    case True
    then show ?thesis
      by (intro exI [of _ "[]"]) simp
  next
    case False
    then obtain a s1 where a: "internal a" "exec a s = Some s1"
      by (auto simp: at_rest_def)
    then obtain as s' where "list_all internal as" "exec_all exec as s1 = Some s'" "at_rest s'"
      using less internal_work by blast
    then show ?thesis
      using a by (intro exI [of _ "a # as"]) simp
  qed
qed

text \<open>
  After a stop no worker waits, and somebody joins until the pool is freed.  The lock of the static
  pointer is held while a client stops the pool.
\<close>

fun c_joins :: "client \<Rightarrow> nat" where
  "c_joins (CJoin j) = 1" | "c_joins c = 0"

fun c_stops :: "client \<Rightarrow> nat" where
  "c_stops CStopLock = 1" | "c_stops CStop = 1" | "c_stops (CJoin j) = 1" | "c_stops c = 0"

definition stopping :: "pool \<Rightarrow> bool" where
  "stopping s \<longleftrightarrow> (p_stop s \<longrightarrow> WWait \<notin> set (p_workers s) \<and> (p_live s \<longrightarrow> 0 < sum_over c_joins (p_clients s)))"

definition single :: "pool \<Rightarrow> bool" where
  "single s \<longleftrightarrow> sum_over c_stops (p_clients s) = (if p_single_mt s = None then 0 else 1)"

lemma broadcast_awake: "WWait \<notin> set (broadcast WWait WRelock ws)"
  by (auto simp: broadcast_def)

interpretation stopping_inv: invariant exec "started n k" stopping for n k
proof
  show "stopping (started n k)"
    by (simp add: stopping_def started_eq)
  fix s a s' assume inv: "stopping s" and ex: "exec a s = Some s'"
  show "stopping s'"
  proof (cases a)
    case (WorkerStep i c)
    with inv ex show ?thesis
      by (auto simp: stopping_def pool_defs not_in_set_update sum_over_signal split: pool_splits)
  next
    case (ClientStep i c)
    with inv ex show ?thesis
      by (auto simp: stopping_def pool_defs broadcast_awake sum_over_nat dest: not_in_signal split: pool_splits)
  qed (use inv ex in \<open>auto simp: stopping_def pool_defs not_in_set_update sum_over_nat split: pool_splits\<close>)
qed

interpretation single_inv: invariant exec "started n k" single for n k
proof
  show "single (started n k)"
    by (simp add: single_def started_eq sum_over_replicate)
  fix s a s' assume inv: "single s" and ex: "exec a s = Some s'"
  have pos: "c_stops (p_clients s ! i) \<le> sum_over c_stops (p_clients s)" if "i < length (p_clients s)" for i
    using sum_over_nat(2) [OF that] .
  from inv ex show "single s'"
    by (cases a) (auto simp: single_def pool_defs sum_over_signal sum_over_nat(1) split: pool_splits dest: pos)
qed

text \<open>Where the threads are when nobody can go on.\<close>

lemma sum_over_pos:
  fixes f :: "'p \<Rightarrow> nat"
  assumes "0 < sum_over f ps"
  shows "\<exists>i < length ps. f (ps ! i) \<noteq> 0"
  using assms by (induction ps) (auto simp: nth_Cons split: nat.splits)

lemma rest_worker:
  assumes "at_rest s" "i < length (p_workers s)" "p_mt s = None" "\<not> w_inside (p_workers s ! i)"
  shows "p_workers s ! i = WWait \<or> p_workers s ! i = WExit"
proof -
  have "pool_worker i None s = None"
    using assms(1) by (simp add: at_rest_iff)
  then show ?thesis
    using assms(2-) by (cases "p_workers s ! i") (auto simp: pool_worker_def lock_def)
qed

lemma rest_client:
  assumes "at_rest s" "i < length (p_clients s)" "p_mt s = None" "\<not> c_inside (p_clients s ! i)"
  shows "p_clients s ! i \<in> {CIdle, CWaitWait} \<or> (p_clients s ! i = CStopSingle \<and> p_single_mt s \<noteq> None) \<or>
    (\<exists>j. p_clients s ! i = CJoin j \<and> j < p_thread_count s \<and> \<not> (unat j < length (p_workers s) \<and> p_workers s ! unat j = WExit))"
proof -
  have "client_step i None s = None"
    using assms(1) by (simp add: at_rest_iff)
  then show ?thesis
    using assms(2-) by (cases "p_clients s ! i") (auto simp: client_step_def lock_def join_workers_def split: if_splits)
qed

lemma rest_state:
  assumes "reach exec (started n k) s" "at_rest s"
  shows "p_mt s = None" "set (p_workers s) \<subseteq> {WWait, WExit}" "set (p_clients s) \<subseteq> {CIdle, CWaitWait}"
    and "\<not> p_stop s \<Longrightarrow> set (p_workers s) \<subseteq> {WWait}"
    and "p_stop s \<Longrightarrow> set (p_workers s) \<subseteq> {WExit} \<and> \<not> p_live s"
proof -
  show mt: "p_mt s = None"
    using owner_steps [OF assms(1)] assms(2) by (cases "p_mt s") (auto simp: at_rest_iff)
  have outside: "\<not> w_inside (p_workers s ! i)" if "i < length (p_workers s)" for i
    using exclusive_inv.holds [OF assms(1)] mt that insiders_mem(1) by (fastforce simp: exclusive_def owns_def)
  have outside': "\<not> c_inside (p_clients s ! i)" if "i < length (p_clients s)" for i
    using exclusive_inv.holds [OF assms(1)] mt that insiders_mem(2) by (fastforce simp: exclusive_def owns_def)
  show ws: "set (p_workers s) \<subseteq> {WWait, WExit}"
    using rest_worker [OF assms(2) _ mt outside] by (fastforce simp: in_set_conv_nth)
  show "\<not> p_stop s \<Longrightarrow> set (p_workers s) \<subseteq> {WWait}"
    using running_inv.holds [OF assms(1)] ws by (auto simp: running_pool_def)
  have exited: "p_workers s ! j = WExit" if "p_stop s" "j < length (p_workers s)" for j
    using stopping_inv.holds [OF assms(1)] ws that unfolding stopping_def by (metis empty_iff insert_iff nth_mem subset_iff)
  have size: "length (p_workers s) = n" "p_thread_count s = of_nat n"
    using sizes_inv.holds [OF assms(1)] by (simp_all add: sizes_def)
  have count: "j < p_thread_count s \<Longrightarrow> unat j < length (p_workers s)" for j
    using size by (auto simp: word_less_nat_alt unat_of_nat take_bit_eq_mod intro: less_le_trans)
  have no_join: "CJoin j \<notin> set (p_clients s)" for j
  proof
    assume "CJoin j \<in> set (p_clients s)"
    moreover from this have "p_stop s"
      using running_inv.holds [OF assms(1)] by (auto simp: running_pool_def)
    ultimately show False
      using rest_client [OF assms(2) _ mt outside'] exited count by (fastforce simp: in_set_conv_nth)
  qed
  have "c_stops (p_clients s ! i) = 0" if "i < length (p_clients s)" for i
    using rest_client [OF assms(2) that mt outside' [OF that]] no_join nth_mem [OF that] by auto
  then have "p_single_mt s = None"
    using single_inv.holds [OF assms(1)] sum_over_pos [of c_stops "p_clients s"] by (fastforce simp: single_def split: if_splits)
  then show "set (p_clients s) \<subseteq> {CIdle, CWaitWait}"
    using rest_client [OF assms(2) _ mt outside'] no_join by (fastforce simp: in_set_conv_nth)
  have "c_joins (p_clients s ! i) = 0" if "i < length (p_clients s)" for i
    using no_join nth_mem [OF that] by (cases "p_clients s ! i") auto
  then have "sum_over c_joins (p_clients s) = 0"
    using sum_over_pos [of c_joins "p_clients s"] by fastforce
  then show "p_stop s \<Longrightarrow> set (p_workers s) \<subseteq> {WExit} \<and> \<not> p_live s"
    using stopping_inv.holds [OF assms(1)] ws by (auto simp: stopping_def)
qed

lemma stop_stays: "exec_all exec as s = Some s' \<Longrightarrow> p_stop s \<Longrightarrow> p_stop s'"
proof (induction as arbitrary: s)
  case (Cons a as)
  then obtain s1 where s1: "exec a s = Some s1" "exec_all exec as s1 = Some s'"
    by (auto simp: Option.bind_eq_Some_conv)
  have "p_stop s1"
    using s1(1) Cons.prems(2) by (cases a) (auto simp: pool_defs split: pool_splits)
  with s1 Cons.IH show ?case by blast
qed simp

section \<open>Properties\<close>

text \<open>
  C14: Every submitted task is run: from any state the pool reaches, however its threads are
  scheduled, they take at most as many steps as there is work left (while no new calls are made and
  no thread wakes up by itself), there is such a run to rest, and wherever a run comes to rest
  without a stop, the queue of a pool with workers is empty, every task submitted has been run to
  its end exactly once, and all workers wait for more.
\<close>

theorem pool_runs_all_tasks:
  assumes "reach exec (started n k) s" "0 < n"
  shows "(\<exists>as s'. list_all internal as \<and> exec_all exec as s = Some s' \<and> at_rest s') \<and>
    (\<forall>as s'. list_all internal as \<longrightarrow> exec_all exec as s = Some s' \<longrightarrow> length as \<le> work s \<and>
      (at_rest s' \<longrightarrow> \<not> p_stop s' \<longrightarrow> p_tasks s' = [] \<and> mset (h_finished s') = mset (h_submitted s') \<and>
        p_workers s' = replicate n WWait))"
proof (intro conjI allI impI)
  show "\<exists>as s'. list_all internal as \<and> exec_all exec as s = Some s' \<and> at_rest s'"
    by (rule comes_to_rest)
  fix as s' assume as: "list_all internal as" and ex: "exec_all exec as s = Some s'"
  show "length as \<le> work s"
    using run_work [OF ex as] by simp
  assume rest: "at_rest s'" and go: "\<not> p_stop s'"
  have r: "reach exec (started n k) s'"
    by (rule exec_all_reach [OF assms(1) ex])
  have ws: "set (p_workers s') \<subseteq> {WWait}"
    by (rule rest_state(4) [OF r rest go])
  then show workers: "p_workers s' = replicate n WWait"
    using sizes_inv.holds [OF r] by (auto simp: sizes_def intro!: replicate_eqI)
  then show "p_tasks s' = []"
    using awake_inv.holds [OF r] assms(2) by (auto simp: awake_def all_asleep_def)
  then show "mset (h_finished s') = mset (h_submitted s')"
    using queued_inv.holds [OF r] ran_inv.holds [OF r] go workers by (simp add: queued_def ran_def sum_over_replicate)
qed

definition ex_work :: "action list" where
  "ex_work = [WorkerStep 0 None, WorkerStep 0 None, WorkerStep 0 None, WorkerStep 0 None, WorkerStep 0 None,
     WorkerStep 0 None, WorkerStep 0 None]"

theorem pool_runs_all_tasks_witness:
  "\<exists>s s'. exec_all exec ex_submit (started 1 1) = Some s \<and> exec_all exec ex_work s = Some s' \<and> at_rest s' \<and>
     length ex_work \<le> work s \<and> mset (h_finished s') = {# 7 #}"
proof -
  let ?s = "\<lparr>p_live = True, p_single_mt = None, p_mt = None, p_tasks = [7], p_stop = False,
      p_in_work = 0, p_thread_count = 1, p_workers = [WLock], p_clients = [CIdle],
      h_submitted = [7], h_started = [], h_finished = [], h_dropped = []\<rparr>"
  let ?s' = "\<lparr>p_live = True, p_single_mt = None, p_mt = None, p_tasks = [], p_stop = False,
      p_in_work = 0, p_thread_count = 1, p_workers = [WWait], p_clients = [CIdle],
      h_submitted = [7], h_started = [7], h_finished = [7], h_dropped = []\<rparr>"
  have s: "exec_all exec ex_submit (started 1 1) = Some ?s"
    by (simp add: ex_run pool_defs)
  have s': "exec_all exec ex_work ?s = Some ?s'"
    by (simp add: ex_work_def signal_def pool_defs)
  have "at_rest ?s'"
    by (simp add: at_rest_iff pool_worker_def client_step_def)
  moreover have "list_all internal ex_work"
    by (simp add: ex_work_def)
  moreover have "(0 :: nat) < 1"
    by simp
  note pool_runs_all_tasks [OF ex_reaches [OF s] this]
  ultimately have "length ex_work \<le> work ?s" "mset (h_finished ?s') = mset (h_submitted ?s')"
    using s' by fastforce+
  with s s' \<open>at_rest ?s'\<close> show ?thesis
    by (intro exI [of _ ?s] exI [of _ ?s']) simp
qed


definition ex_stopping :: "action list" where
  "ex_stopping = [Call 0 Stop, ClientStep 0 None, ClientStep 0 None, ClientStep 0 None]"


end
