(* ===== verification/CC_Format.thy ===== *)
theory CC_Format
  imports CC_String CC_Float
begin

text \<open>
  Formatting (src/format.c): times of day and geographic coordinates.  The conversions of
  \<^verbatim>\<open>printf\<close> the formats use are here: decimal numbers, and numbers with a fixed count of
  decimals, rounded to nearest, ties to even.  A result is the text left in a buffer of n bytes.
\<close>

section \<open>Printing numbers\<close>

fun dec :: "nat \<Rightarrow> byte list" where
  "dec n = (if n < 10 then [48 + of_nat n] else dec (n div 10) @ [48 + of_nat (n mod 10)])"

declare dec.simps [simp del]

definition pad :: "nat \<Rightarrow> byte \<Rightarrow> byte list \<Rightarrow> byte list" where
  "pad w c s = replicate (w - length s) c @ s"

text \<open>\<^verbatim>\<open>%d\<close>, and hexadecimal digits, with the letters from a given one.\<close>

definition print_int :: "int \<Rightarrow> byte list" where
  "print_int n = (if n < 0 then 45 # dec (nat (- n)) else dec (nat n))"

definition hex_digit :: "byte \<Rightarrow> nat \<Rightarrow> byte" where
  "hex_digit letter d = (if d < 10 then 48 + of_nat d else letter + of_nat (d - 10))"

fun hex :: "byte \<Rightarrow> nat \<Rightarrow> byte list" where
  "hex letter n =
     (if n < 16 then [hex_digit letter n] else hex letter (n div 16) @ [hex_digit letter (n mod 16)])"

declare hex.simps [simp del]

text \<open>\<^verbatim>\<open>%p\<close> of the GNU library.\<close>

definition print_pointer :: "addr \<Rightarrow> byte list" where
  "print_pointer p = (if p = NULL then bytes ''(nil)'' else bytes ''0x'' @ hex 97 (unat p))"

text \<open>A conversion such as \<^verbatim>\<open>%05.2f\<close>, of width w and with p decimals, of a number that is not negative.\<close>

definition print_fixed :: "nat \<Rightarrow> nat \<Rightarrow> fp \<Rightarrow> byte list" where
  "print_fixed w p x =
     (case x of
        Finite neg r \<Rightarrow>
          let n = nat (rne (r * 10 ^ p)) in
          pad w 48 (dec (n div 10 ^ p) @ (if p = 0 then [] else 46 # pad p 48 (dec (n mod 10 ^ p))))
      | Infinite neg \<Rightarrow> pad w 32 (bytes ''inf'')
      | NaN \<Rightarrow> pad w 32 (bytes ''nan''))"

definition truncated :: "size_t \<Rightarrow> byte list \<Rightarrow> byte list" where
  "truncated n s = take (unat n - 1) s"

section \<open>Coordinates\<close>

text \<open>\<^verbatim>\<open>modff\<close> on a number that is not negative: the fraction and the whole part.\<close>

definition modff :: "fp \<Rightarrow> fp \<times> fp" where
  "modff x =
     (case x of
        Finite neg r \<Rightarrow> (Finite neg (r - of_int (floor r)), Finite neg (of_int (floor r)))
      | Infinite neg \<Rightarrow> (Finite neg 0, Infinite neg)
      | NaN \<Rightarrow> (NaN, NaN))"

definition format_lat :: "fp \<Rightarrow> size_t \<Rightarrow> byte list" where
  "format_lat lat n =
     (let hemisphere = (if fp_less lat (Finite False 0) then 83 else 78);
          (f, deg) = modff (fp_abs lat);
          frac = fp_mul binary32 f (Finite False 60) in
      truncated n (hemisphere # 32 # 32 # print_fixed 2 0 deg @ 32 # print_fixed 5 2 frac))"

definition format_lon :: "fp \<Rightarrow> size_t \<Rightarrow> byte list" where
  "format_lon lon n =
     (let hemisphere = (if fp_less lon (Finite False 0) then 87 else 69);
          (f, deg) = modff (fp_abs lon);
          frac = fp_mul binary32 f (Finite False 60) in
      truncated n (hemisphere # 32 # print_fixed 3 0 deg @ 32 # print_fixed 5 2 frac))"

section \<open>Times of day\<close>

text \<open>
  The time of day of \<^verbatim>\<open>gmtime\<close>; there is none when the year does not fit an
  \<^verbatim>\<open>int\<close>, and \<^verbatim>\<open>strftime\<close> then reads through NULL.
\<close>

definition time_of_day :: "int \<Rightarrow> (nat \<times> nat \<times> nat) res" where
  "time_of_day t =
     (if - 67768040609740800 \<le> t \<and> t \<le> 67768036191676799 then
        let s = t mod 86400 in Inr (nat (s div 3600), nat (s mod 3600 div 60), nat (s mod 60))
      else Inl BadDeref)"

text \<open>\<^verbatim>\<open>strftime\<close> stores the text if it fits with its NUL, else nothing that can be relied on.\<close>

definition strftime_store :: "size_t \<Rightarrow> byte list \<Rightarrow> byte list option" where
  "strftime_store n s = (if length s < unat n then Some s else None)"

definition format_hhmm :: "int \<Rightarrow> size_t \<Rightarrow> byte list option res" where
  "format_hhmm t n =
     bindE (time_of_day t) (\<lambda>(h, m, s). Inr (strftime_store n (pad 2 48 (dec h) @ 58 # pad 2 48 (dec m))))"

definition format_hhmmss :: "int \<Rightarrow> size_t \<Rightarrow> byte list option res" where
  "format_hhmmss t n =
     bindE (time_of_day t) (\<lambda>(h, m, s).
     Inr (strftime_store n (pad 2 48 (dec h) @ 58 # pad 2 48 (dec m) @ 58 # pad 2 48 (dec s))))"

section \<open>What is printed\<close>

lemma dec_small: "n < 10 \<Longrightarrow> dec n = [48 + of_nat n]"
  by (simp add: dec.simps)

lemma dec_two:
  assumes "n < 100"
  shows "pad 2 48 (dec n) = [48 + of_nat (n div 10), 48 + of_nat (n mod 10)]"
proof (cases "n < 10")
  case True
  then show ?thesis by (simp add: dec_small pad_def)
next
  case False
  then show ?thesis
    using assms by (subst dec.simps) (simp add: dec_small pad_def)
qed

lemma digit_byte:
  assumes "d < 10"
  shows "isdigit (48 + of_nat d)" "digit_val (48 + of_nat d) = d"
proof -
  have "unat (48 + of_nat d :: byte) = 48 + d"
    using assms by (simp add: unat_word_ariths unat_of_nat take_bit_eq_mod)
  then show "isdigit (48 + of_nat d)" "digit_val (48 + of_nat d) = d"
    using assms by (simp_all add: isdigit_def word_le_nat_alt digit_val_def)
qed

lemma two_digits:
  assumes "n < 100"
  shows "digits_val 10 (pad 2 48 (dec n)) = n" "list_all isdigit (pad 2 48 (dec n))" "length (pad 2 48 (dec n)) = 2"
  using assms digit_byte(2) [of "n div 10"] digit_byte(2) [of "n mod 10"]
    digit_byte(1) [of "n div 10"] digit_byte(1) [of "n mod 10"]
  by (simp_all add: dec_two digits_val_def)

text \<open>
  The text of \<^verbatim>\<open>format_hhmmss\<close> is three groups of two digits with colons between them
  and reads back as the second of the day; \<^verbatim>\<open>format_hhmm\<close> writes its first five characters;
  both for every representable time, negative ones included, and a buffer of nine (six) bytes.
\<close>

theorem format_time_roundtrip:
  assumes "- 67768040609740800 \<le> t" "t \<le> 67768036191676799" "9 \<le> n" "6 \<le> k"
  shows "\<exists>h m s. format_hhmmss t n = Inr (Some (h @ 58 # m @ 58 # s)) \<and> format_hhmm t k = Inr (Some (h @ 58 # m)) \<and>
    list_all isdigit (h @ m @ s) \<and> length h = 2 \<and> length m = 2 \<and> length s = 2 \<and>
    int (digits_val 10 h) * 3600 + int (digits_val 10 m) * 60 + int (digits_val 10 s) = t mod 86400 \<and>
    digits_val 10 h < 24 \<and> digits_val 10 m < 60 \<and> digits_val 10 s < 60"
proof -
  define h m s where "h = nat (t mod 86400 div 3600)" and "m = nat (t mod 86400 mod 3600 div 60)" and "s = nat (t mod 86400 mod 60)"
  have b: "h < 24" "m < 60" "s < 60"
    by (auto simp: h_def m_def s_def nat_less_iff)
  define x where "x = t mod 86400"
  have "x mod 60 = x mod 3600 mod 60"
    by (simp add: mod_mod_cancel)
  then have "x div 3600 * 3600 + x mod 3600 div 60 * 60 + x mod 60 = x"
    using div_mult_mod_eq [of x 3600] div_mult_mod_eq [of "x mod 3600" 60] by linarith
  then have sum: "int h * 3600 + int m * 60 + int s = t mod 86400"
    by (simp add: h_def m_def s_def x_def pos_imp_zdiv_nonneg_iff)
  note dh = two_digits [of h] and dm = two_digits [of m] and ds = two_digits [of s]
  have nk: "9 \<le> unat n" "6 \<le> unat k"
    using assms(3,4) by (simp_all add: word_le_nat_alt)
  have "format_hhmmss t n = Inr (Some (pad 2 48 (dec h) @ 58 # pad 2 48 (dec m) @ 58 # pad 2 48 (dec s)))"
    "format_hhmm t k = Inr (Some (pad 2 48 (dec h) @ 58 # pad 2 48 (dec m)))"
    using assms(1,2) nk b dh dm ds
    by (simp_all add: format_hhmmss_def format_hhmm_def time_of_day_def strftime_store_def Let_def flip: h_def m_def s_def)
  moreover have "list_all isdigit (pad 2 48 (dec h) @ pad 2 48 (dec m) @ pad 2 48 (dec s))"
    using b dh(2) dm(2) ds(2) by simp
  ultimately show ?thesis
    using b sum dh(1,3) dm(1,3) ds(1,3)
    by (intro exI [of _ "pad 2 48 (dec h)"] exI [of _ "pad 2 48 (dec m)"] exI [of _ "pad 2 48 (dec s)"] conjI) simp_all
qed

theorem format_time_roundtrip_witness:
  "\<exists>h m s. format_hhmmss (- 1) 9 = Inr (Some (h @ 58 # m @ 58 # s)) \<and>
    int (digits_val 10 h) * 3600 + int (digits_val 10 m) * 60 + int (digits_val 10 s) = 86399"
  using format_time_roundtrip [of "- 1" 9 6] by auto

text \<open>
  Minutes are rounded after the degrees were cut off, so a coordinate just below a whole degree
  prints as sixty minutes of the degree before it instead of the next degree.
\<close>

theorem format_lat_sixty_minutes:
  assumes "d < 10" "20 \<le> n"
  shows "format_lat (Finite neg (of_nat d + 1 - 1 / 2 ^ 20)) n =
      (if neg then 83 else 78) # 32 # 32 # 48 # (48 + of_nat d) # 32 # bytes ''60.00''"
proof -
  let ?r = "of_nat d + 1 - 1 / 2 ^ 20 :: rat"
  have fl: "floor ?r = int d"
    by (intro floor_unique) simp_all
  have pos: "0 < ?r"
    by (simp add: add_nonneg_pos)
  have "fp_round binary32 False ((1 - 1 / 2 ^ 20) * 60) = Finite False (15728625 / 262144)"
    by code_simp
  then have mul: "fp_mul binary32 (Finite False (1 - 1 / 2 ^ 20)) (Finite False 60) = Finite False (15728625 / 262144)"
    by (simp add: fp_mul_def)
  have sixty: "print_fixed 5 2 (Finite False (15728625 / 262144)) = bytes ''60.00''"
  proof -
    have "floor (15728625 * 100 / 262144 :: rat) = 5999"
      by (intro floor_unique) simp_all
    then have "rne (15728625 * 100 / 262144) = 6000"
      by (simp add: rne_def)
    moreover have "dec 60 = [54, 48]" "dec 0 = [48]"
      by (subst dec.simps, simp add: dec_small)+
    ultimately show ?thesis
      by (simp add: print_fixed_def pad_def bytes_def Let_def)
  qed
  have deg: "print_fixed 2 0 (Finite False (of_nat d)) = [48, 48 + of_nat d]"
  proof -
    have "rne (of_nat d) = int d"
      using rne_of_int [of "int d"] by simp
    then show ?thesis
      using assms(1) by (simp add: print_fixed_def dec_two)
  qed
  have hemi: "fp_less (Finite neg ?r) (Finite False 0) = neg"
    using pos by (simp add: fp_less_def signed_value_def)
  have n: "20 \<le> unat n"
    using assms(2) by (simp add: word_le_nat_alt)
  have parts: "modff (fp_abs (Finite neg ?r)) = (Finite False (1 - 1 / 2 ^ 20), Finite False (of_nat d))"
    using fl by (simp add: modff_def fp_abs_def)
  have "length (bytes ''60.00'') = 5"
    by (simp add: bytes_def)
  then show ?thesis
    using n unfolding format_lat_def parts hemi Let_def prod.case mul sixty deg by (simp add: truncated_def)
qed

theorem format_lat_sixty_minutes_witness:
  "format_lat (Finite True (5 - 1 / 2 ^ 20)) 20 = 83 # 32 # 32 # 48 # 52 # 32 # bytes ''60.00''"
  using format_lat_sixty_minutes [of 4 20 True] by simp

end
