(* ===== verification/CC_Demo.thy ===== *)
theory CC_Demo
  imports CC_PoolLive CC_MathProps CC_Format
begin

text \<open>
  The demo (src/demo/main.c): it starts a pool of four threads, prints where two segments cross, and
  stops the pool.  The threads of the pool and the main thread run as in CC_Pool; the main thread is
  client 0.
\<close>

section \<open>The program\<close>

text \<open>\<^verbatim>\<open>%f\<close> of a number whose sign is known (a NaN made by the macro \<^verbatim>\<open>NAN\<close> has none).\<close>

definition print_f :: "fp \<Rightarrow> byte list" where
  "print_f x =
     (case x of Finite neg r \<Rightarrow> if neg then [45] else [] | Infinite neg \<Rightarrow> if neg then [45] else [] | NaN \<Rightarrow> []) @
     print_fixed 0 6 x"

definition DBG_VEC2 :: "byte list \<Rightarrow> vec2_t \<Rightarrow> byte list" where
  "DBG_VEC2 name v = name @ bytes '' = {'' @ print_f (x2 v) @ bytes ''. '' @ print_f (y2 v) @ bytes ''}'' @ [10]"

definition demo_start :: pool where
  "demo_start = started 4 1"

definition demo_printed :: "byte list" where
  "demo_printed =
     (let a = point 0 0; b = point 10 0; u = point 10 10; v = point 10 (- 10) in
      DBG_VEC2 (bytes ''i'') (vec2_int_vec2 a u b v))"

text \<open>The last statement.\<close>

definition demo_stop :: action where
  "demo_stop = Call 0 Stop"

section \<open>What it does\<close>

lemma rounds:
  "fp_round binary64 neg 10 = Finite neg 10" "fp_round binary64 neg 100 = Finite neg 100"
  "fp_round binary64 neg 200 = Finite neg 200" "fp_round binary64 neg 1 = Finite neg 1"
  "fp_round binary64 neg (1 / 2) = Finite neg (1 / 2)"
  using fp_round_small [of 10 neg] fp_round_small [of 100 neg] fp_round_small [of 200 neg] small_rounds [of neg] by simp_all

lemma demo_crossing: "vec2_int_vec2 (point 0 0) (point 10 10) (point 10 0) (point 10 (- 10)) = CC_VEC2_NULL"
proof -
  note fp = vec2_pdot_def vec2_sub_def point_def CC_VEC2_def fp_div_def fp_mul_def fp_sub_def fp_add_def fp_neg_def
    signed_value_def rounds
  have "\<not> vec2_parallel (point 10 10) (point 10 (- 10))"
    by (simp add: vec2_parallel_def fp_cmp fp)
  moreover have "\<not> vec2_equal (point 0 0) (point 10 0)"
    by (simp add: vec2_equal_def fp_cmp fp)
  moreover have "vec2_pdot (vec2_sub (point 0 0) (point 10 0)) (point 10 10) = Finite True 100"
    by (simp add: fp)
  moreover have "vec2_pdot (point 10 (- 10)) (point 10 10) = Finite False 200"
    by (simp add: fp)
  moreover have "div64 (Finite True 100) (Finite False 200) = Finite True (1 / 2)"
    by (simp add: fp)
  ultimately show ?thesis
    by (simp add: vec2_int_vec2_def Let_def fp_less_def signed_value_def)
qed

text \<open>From the call of \<^verbatim>\<open>ccpool_stop\<close> on, the main thread is inside it, or the stop is set and it
  joins the workers or is done.\<close>

definition main_stops :: "pool \<Rightarrow> bool" where
  "main_stops s \<longleftrightarrow> p_clients s \<in> {[CStopSingle], [CStopLock], [CStop]} \<or>
     p_stop s \<and> (p_clients s = [CIdle] \<or> (\<exists>j. p_clients s = [CJoin j]))"

lemma signal_nobody: "waiting \<notin> set ps \<Longrightarrow> signal waiting woken c ps = Some ps' \<Longrightarrow> ps' = ps"
  by (auto simp: signal_def split: option.splits if_splits)

lemma main_stops_worker:
  assumes "pool_worker i c s = Some s'" "main_stops s"
  shows "main_stops s'"
proof -
  have "CWaitWait \<notin> set (p_clients s)"
    using assms(2) by (auto simp: main_stops_def)
  then have "p_clients s' = p_clients s \<and> p_stop s' = p_stop s"
    using assms(1) by (auto simp: pool_defs split: if_splits worker.splits list.splits dest: signal_nobody)
  then show ?thesis
    using assms(2) by (simp add: main_stops_def)
qed

lemma main_stops_client:
  assumes "client_step i c s = Some s'" "main_stops s" "p_live s \<or> p_stop s"
  shows "main_stops s'"
proof -
  have i: "i = 0"
    using assms(1,2) by (auto simp: client_step_def main_stops_def split: if_splits)
  consider "p_clients s = [CStopSingle]" | "p_clients s = [CStopLock]" | "p_clients s = [CStop]"
    | "p_stop s" "p_clients s = [CIdle]" | j where "p_stop s" "p_clients s = [CJoin j]"
    using assms(2) by (auto simp: main_stops_def)
  then show ?thesis
    using assms(1,3) by cases (auto simp: i main_stops_def pool_defs split: if_splits)
qed

lemma main_stops_step: "exec a s = Some s' \<Longrightarrow> internal a \<Longrightarrow> p_live s \<or> p_stop s \<Longrightarrow> main_stops s \<Longrightarrow> main_stops s'"
  using main_stops_worker main_stops_client by (cases a) auto

lemma main_stops_run:
  assumes "exec_all exec as s = Some s'" "list_all internal as" "reach exec demo_start s" "main_stops s"
  shows "main_stops s'"
  using assms
proof (induction as arbitrary: s)
  case (Cons a as)
  then obtain s1 where s1: "exec a s = Some s1" "exec_all exec as s1 = Some s'"
    by (auto simp: Option.bind_eq_Some_conv)
  have "p_live s \<or> p_stop s"
    using running_inv.holds [of 4 1 s] Cons.prems(3) by (auto simp: running_pool_def demo_start_def)
  then have "main_stops s1"
    using main_stops_step [OF s1(1)] Cons.prems by simp
  then show ?case
    using Cons s1 reach.step [OF Cons.prems(3) s1(1)] by simp
qed simp

section \<open>Properties\<close>

text \<open>
  The demo prints that its two segments do not cross, and ends: wherever the four workers are
  when the main thread calls \<^verbatim>\<open>ccpool_stop\<close>, every run of the threads from there is bounded
  in length, and where it ends the main thread has left the call, all four workers have ended and
  the pool is freed.
\<close>

theorem demo_ends:
  assumes "reach exec demo_start s" "p_clients s = [CIdle]" "\<not> p_stop s"
  shows "demo_printed = bytes ''i = {nan. nan}'' @ [10] \<and>
    (\<exists>s1. exec demo_stop s = Some s1 \<and>
      (\<forall>as s'. list_all internal as \<longrightarrow> exec_all exec as s1 = Some s' \<longrightarrow> length as \<le> work s1 \<and>
        (at_rest s' \<longrightarrow> p_clients s' = [CIdle] \<and> p_workers s' = replicate 4 WExit \<and> \<not> p_live s')))"
proof -
  let ?s1 = "set_client 0 CStopSingle s"
  have call: "exec demo_stop s = Some ?s1"
    using assms(2) by (simp add: demo_stop_def call_pool_def)
  have r1: "reach exec demo_start ?s1"
    by (rule reach.step [OF assms(1) call])
  have stops: "main_stops ?s1"
    using assms(2) by (simp add: main_stops_def set_client_def)
  have "length as \<le> work ?s1 \<and> (at_rest s' \<longrightarrow> p_clients s' = [CIdle] \<and> p_workers s' = replicate 4 WExit \<and> \<not> p_live s')"
    if as: "list_all internal as" "exec_all exec as ?s1 = Some s'" for as s'
  proof (intro conjI impI)
    show "length as \<le> work ?s1"
      using run_work [OF as(2,1)] by simp
    assume rest: "at_rest s'"
    have r: "reach exec (started 4 1) s'"
      using exec_all_reach [OF r1 as(2)] by (simp add: demo_start_def)
    have clients: "set (p_clients s') \<subseteq> {CIdle, CWaitWait}"
      by (rule rest_state(3) [OF r rest])
    then have "p_stop s'" and "p_clients s' = [CIdle]"
      using main_stops_run [OF as(2,1) r1 stops] by (auto simp: main_stops_def)
    then show "p_clients s' = [CIdle]" "p_workers s' = replicate 4 WExit" "\<not> p_live s'"
      using rest_state(5) [OF r rest] sizes_inv.holds [OF r] by (auto simp: sizes_def intro!: replicate_eqI)
  qed
  moreover have "demo_printed = bytes ''i = {nan. nan}'' @ [10]"
    by (simp add: demo_printed_def demo_crossing DBG_VEC2_def CC_VEC2_NULL_def CC_VEC2_def print_f_def print_fixed_def pad_def bytes_def)
  ultimately show ?thesis
    using call by blast
qed

theorem demo_ends_witness:
  "\<exists>s1. exec demo_stop demo_start = Some s1 \<and> (\<exists>as s'. list_all internal as \<and> exec_all exec as s1 = Some s' \<and>
     p_clients s' = [CIdle] \<and> p_workers s' = replicate 4 WExit \<and> \<not> p_live s')"
proof -
  have "p_clients demo_start = [CIdle]" "\<not> p_stop demo_start"
    by (simp_all add: demo_start_def started_eq)
  from demo_ends [OF reach.start this] obtain s1 where s1: "exec demo_stop demo_start = Some s1"
    and ends: "\<And>as s'. list_all internal as \<Longrightarrow> exec_all exec as s1 = Some s' \<Longrightarrow> at_rest s' \<Longrightarrow>
      p_clients s' = [CIdle] \<and> p_workers s' = replicate 4 WExit \<and> \<not> p_live s'"
    by blast
  obtain as s' where "list_all internal as" "exec_all exec as s1 = Some s'" "at_rest s'"
    using comes_to_rest by blast
  with s1 ends show ?thesis by blast
qed

end
