(* ===== verification/CC_RunLoop.thy ===== *)
theory CC_RunLoop
  imports CC_ListOps CC_String CC_Float
begin

text \<open>
  The run loop (src/run_loop.c): programs that a thread calls at their own intervals.  A program's
  entry carries its own \<^verbatim>\<open>next\<close> and \<^verbatim>\<open>prev\<close> pointers; the entries form a ring
  through the loop's \<^verbatim>\<open>programs\<close> field, kept in the memory of nodes of CC_List, while
  their other fields are in a map of their own.  Times are 64-bit microsecond counts.  The clock
  (\<^verbatim>\<open>cc_microtime\<close>), \<^verbatim>\<open>rand\<close> and the address \<^verbatim>\<open>cc_alloc\<close> returned are
  arguments; a callback is represented by the call it receives.
\<close>

section \<open>State\<close>

type_synonym time = "64 word"

record rl_entry =
  re_main :: addr
  re_data :: addr
  re_acc :: time
  re_interval :: int

record run_loop =
  rl_is_running :: bool
  rl_stop :: bool
  rl_name :: buf
  rl_programs :: addr
  rl_mem :: lmem
  rl_entries :: "addr \<rightharpoonup> rl_entry"

text \<open>A call of a program: its function, the time it is told and its data.\<close>

type_synonym tick_call = "addr \<times> time \<times> addr"

definition MAX_RLOOP_WAIT :: time where
  "MAX_RLOOP_WAIT = 1000000"

section \<open>The thread\<close>

text \<open>The absolute time of a wait, as seconds and nanoseconds.\<close>

definition cond_wait_until :: "time \<Rightarrow> time \<times> time" where
  "cond_wait_until t = (t div 1000000, (t mod 1000000) * 1000)"

text \<open>One program: the comparison \<^verbatim>\<open>acc <= 0\<close> is between unsigned numbers.\<close>

definition tick_program :: "time \<Rightarrow> time \<Rightarrow> rl_entry \<Rightarrow> rl_entry \<times> tick_call list" where
  "tick_program delta new_t e =
     (let acc = re_acc e - delta in
      if acc \<le> 0 then
        (e\<lparr>re_acc := acc + word_of_int (re_interval e)\<rparr>, [(re_main e, new_t, re_data e)])
      else (e\<lparr>re_acc := acc\<rparr>, []))"

text \<open>The loop over the programs; \<^const>\<open>None\<close> is a loop that never ends.\<close>

partial_function (option) tick_loop ::
  "time \<Rightarrow> time \<Rightarrow> addr \<Rightarrow> run_loop \<times> time \<times> tick_call list \<Rightarrow> (run_loop \<times> time \<times> tick_call list) res option"
where
  "tick_loop delta new_t prog st =
     (case st of (rl, interval, calls) \<Rightarrow>
        if prog = rl_programs rl then Some (Inr st)
        else case rl_entries rl prog of
          None \<Rightarrow> Some (Inl BadDeref)
        | Some e \<Rightarrow>
            (case tick_program delta new_t e of (e, cs) \<Rightarrow>
               (case rd_next (rl_mem rl) prog of
                  Inl err \<Rightarrow> Some (Inl err)
                | Inr next \<Rightarrow>
                    tick_loop delta new_t next
                      (rl\<lparr>rl_entries := (rl_entries rl)(prog \<mapsto> e)\<rparr>,
                       if re_acc e < interval then re_acc e else interval,
                       calls @ cs))))"

text \<open>
  One turn of the thread after its wait, at the time \<^term>\<open>new_t\<close>: the calls made, and the
  time and interval of the next wait.
\<close>

definition loop_turn :: "run_loop \<Rightarrow> time \<Rightarrow> time \<Rightarrow> (run_loop \<times> time \<times> time \<times> tick_call list) res option" where
  "loop_turn rl t new_t =
     (case rd_next (rl_mem rl) (rl_programs rl) of
        Inl err \<Rightarrow> Some (Inl err)
      | Inr first \<Rightarrow>
          map_option
            (\<lambda>r. bindE r (\<lambda>(rl, interval, calls).
               Inr (rl, new_t, if interval < MAX_RLOOP_WAIT then interval else MAX_RLOOP_WAIT, calls)))
            (tick_loop (new_t - t) new_t first (rl, - 1, [])))"

text \<open>
  The thread over a list of its wake-ups: each with the time it reads, and whether somebody set
  \<^verbatim>\<open>stop\<close> during the wait and during the turn (while the mutex is free).  The result is
  the calls made and the times it waited for.
\<close>

fun loop_turns :: "run_loop \<Rightarrow> time \<Rightarrow> time \<Rightarrow> (time \<times> bool \<times> bool) list \<Rightarrow>
    (run_loop \<times> tick_call list \<times> time list) res option" where
  "loop_turns rl t interval [] = Some (Inr (rl, [], []))"
| "loop_turns rl t interval ((new_t, stop_waiting, stop_ticking) # wakes) =
     (if rl_stop rl then Some (Inr (rl, [], []))
      else if stop_waiting then Some (Inr (rl\<lparr>rl_stop := True\<rparr>, [], [t + interval]))
      else
        case loop_turn rl t new_t of
          None \<Rightarrow> None
        | Some (Inl err) \<Rightarrow> Some (Inl err)
        | Some (Inr (rl, t', interval', calls)) \<Rightarrow>
            map_option
              (\<lambda>r. bindE r (\<lambda>(rl, more, waits). Inr (rl, calls @ more, (t + interval) # waits)))
              (loop_turns (rl\<lparr>rl_stop := stop_ticking\<rparr>) t' interval' wakes))"

definition loop_thread :: "run_loop \<Rightarrow> time \<Rightarrow> (time \<times> bool \<times> bool) list \<Rightarrow>
    (run_loop \<times> tick_call list \<times> time list) res option" where
  "loop_thread rl t wakes =
     map_option
       (\<lambda>r. bindE r (\<lambda>(rl, calls, waits). Inr (rl\<lparr>rl_is_running := False\<rparr>, calls, waits)))
       (loop_turns (rl\<lparr>rl_is_running := True\<rparr>) t 0 wakes)"

section \<open>The operations\<close>

text \<open>
  \<^verbatim>\<open>sizeof(name)\<close> is the size of the parameter, a pointer.  The thread that is created
  cannot run before the last line: the mutex is held.
\<close>

definition sizeof_ptr :: size_t where
  "sizeof_ptr = 8"

definition cc_run_loop_new :: "build \<Rightarrow> addr \<Rightarrow> lmem \<Rightarrow> buf \<Rightarrow> run_loop res" where
  "cc_run_loop_new bd programs m name =
     bindE (string_copy bd (replicate 20 None) name sizeof_ptr) (\<lambda>rl_name.
     bindE (wr_next m programs programs) (\<lambda>m.
     bindE (wr_prev m programs programs) (\<lambda>m.
     Inr \<lparr>rl_is_running = False, rl_stop = False, rl_name = rl_name, rl_programs = programs,
          rl_mem = m, rl_entries = Map.empty\<rparr>)))"

text \<open>Freeing the entries of a loop whose thread has ended, in order.\<close>

partial_function (option) free_programs ::
  "addr \<Rightarrow> run_loop \<times> addr list \<Rightarrow> (run_loop \<times> addr list) res option"
where
  "free_programs rl_entry st =
     (case st of (rl, freed) \<Rightarrow>
        if rl_entry = rl_programs rl then Some (Inr st)
        else case rl_entries rl rl_entry of
          None \<Rightarrow> Some (Inl BadDeref)
        | Some e \<Rightarrow>
            (case rd_next (rl_mem rl) rl_entry of
               Inl err \<Rightarrow> Some (Inl err)
             | Inr next \<Rightarrow>
                 free_programs next
                   (rl\<lparr>rl_entries := (rl_entries rl)(rl_entry := None)\<rparr>, freed @ [rl_entry])))"

definition cc_run_loop_delete :: "build \<Rightarrow> run_loop \<Rightarrow> (run_loop \<times> addr list) res option" where
  "cc_run_loop_delete bd rl =
     (case ccassert bd (\<not> rl_stop rl) of
        Inl err \<Rightarrow> Some (Inl err)
      | Inr _ \<Rightarrow>
          let rl = rl\<lparr>rl_stop := True\<rparr> in
          case rd_next (rl_mem rl) (rl_programs rl) of
            Inl err \<Rightarrow> Some (Inl err)
          | Inr first \<Rightarrow> free_programs first (rl, []))"

text \<open>The remainder of C takes the sign of the dividend.\<close>

definition c_rem :: "int \<Rightarrow> int \<Rightarrow> int res" where
  "c_rem a b = (if b = 0 then Inl DivByZero else Inr (sgn a * (\<bar>a\<bar> mod \<bar>b\<bar>)))"

definition cc_run_loop_register ::
  "build \<Rightarrow> run_loop \<Rightarrow> addr \<Rightarrow> addr \<Rightarrow> fp \<Rightarrow> addr \<Rightarrow> int \<Rightarrow> run_loop res"
where
  "cc_run_loop_register bd rl entry ticker freq user rand =
     bindE (ccassert bd (ticker \<noteq> NULL)) (\<lambda>_.
     bindE (ccassert bd (fp_less (Finite False 0) freq)) (\<lambda>_.
     bindE (fp_to_int64 (fp_div binary64 (Finite False 1000000) freq)) (\<lambda>interval.
     bindE (c_rem rand interval) (\<lambda>acc.
     let e = \<lparr>re_main = ticker, re_data = user, re_acc = word_of_int acc, re_interval = interval\<rparr>;
         h = rl_programs rl; m = rl_mem rl in
     bindE (rd_prev m h) (\<lambda>last.
     bindE (wr_prev m entry last) (\<lambda>m.
     bindE (wr_next m entry h) (\<lambda>m.
     bindE (rd_next m entry) (\<lambda>next.
     bindE (wr_prev m next entry) (\<lambda>m.
     bindE (rd_prev m entry) (\<lambda>prev.
     bindE (wr_next m prev entry) (\<lambda>m.
     Inr (rl\<lparr>rl_mem := m, rl_entries := (rl_entries rl)(entry \<mapsto> e)\<rparr>))))))))))))"

definition cc_run_loop_unregister :: "build \<Rightarrow> run_loop \<Rightarrow> addr \<Rightarrow> run_loop res" where
  "cc_run_loop_unregister bd rl entry =
     (let m = rl_mem rl in
      bindE (ccassert bd (entry \<noteq> NULL)) (\<lambda>_.
      bindE (rd_next m entry) (\<lambda>next.
      bindE (rd_prev m entry) (\<lambda>prev.
      bindE (ccassert bd (next \<noteq> NULL \<or> prev \<noteq> NULL)) (\<lambda>_.
      bindE (wr_next m prev next) (\<lambda>m.
      bindE (rd_next m entry) (\<lambda>next.
      bindE (rd_prev m entry) (\<lambda>prev.
      bindE (wr_prev m next prev) (\<lambda>m.
      bindE (wr_next m entry NULL) (\<lambda>m.
      bindE (wr_prev m entry NULL) (\<lambda>m.
      Inr (rl\<lparr>rl_mem := m, rl_entries := (rl_entries rl)(entry := None)\<rparr>))))))))))))"

end
