(* ===== verification/CC_RunLoopProps.thy ===== *)
theory CC_RunLoopProps
  imports CC_RunLoop
begin

text \<open>
  The properties of the run loop: registration keeps the ring of programs, a turn of the thread
  calls each due program and sleeps no longer than the next one needs; and where the unsigned
  countdown makes it miss programs for good.
\<close>

section \<open>The ring of programs\<close>

definition wf_loop :: "run_loop \<Rightarrow> addr list \<Rightarrow> bool" where
  "wf_loop rl xs \<longleftrightarrow> ring (rl_mem rl) (rl_programs rl) xs \<and> set xs \<subseteq> dom (rl_entries rl) \<and>
     NULL \<notin> set xs \<and> rl_programs rl \<noteq> NULL"

lemma ring_next: "ring m h (us @ y # ys) \<Longrightarrow> rd_next m y = Inr (hd (ys @ [h]))"
  using ring_neighbours [of m h "us @ [y]" ys] by (auto simp: link_def intro: rd_next_nxt)

lemma ring_first: "ring m h xs \<Longrightarrow> rd_next m h = Inr (hd (xs @ [h]))"
  using ring_neighbours [of m h "[]" xs] by (auto simp: link_def intro: rd_next_nxt)

lemma ring_last: "ring m h xs \<Longrightarrow> rd_prev m h = Inr (last (h # xs))"
  using ring_neighbours [of m h xs "[]"] by (auto simp: link_def intro: rd_prev_prv)

lemma ring_distinct: "ring m h xs \<Longrightarrow> distinct (h # xs)"
  by (simp add: ring_def)

lemma if_less_min: "(if a < b then a else b) = min a (b :: time)"
  by (auto simp: min_def)

text \<open>The entries after a turn, the calls it makes and the next interval.\<close>

definition entry_after :: "time \<Rightarrow> time \<Rightarrow> rl_entry \<Rightarrow> rl_entry" where
  "entry_after delta now e = fst (tick_program delta now e)"

definition ticked :: "time \<Rightarrow> time \<Rightarrow> addr list \<Rightarrow> (addr \<rightharpoonup> rl_entry) \<Rightarrow> (addr \<rightharpoonup> rl_entry)" where
  "ticked delta now xs es = (\<lambda>a. if a \<in> set xs then map_option (entry_after delta now) (es a) else es a)"

definition calls_of :: "time \<Rightarrow> time \<Rightarrow> addr list \<Rightarrow> (addr \<rightharpoonup> rl_entry) \<Rightarrow> tick_call list" where
  "calls_of delta now xs es = concat (map (\<lambda>x. snd (tick_program delta now (the (es x)))) xs)"

definition shortest :: "time \<Rightarrow> time \<Rightarrow> addr list \<Rightarrow> (addr \<rightharpoonup> rl_entry) \<Rightarrow> time \<Rightarrow> time" where
  "shortest delta now xs es i = fold (\<lambda>x i. min (re_acc (entry_after delta now (the (es x)))) i) xs i"

lemma tick_loop_spec:
  assumes "ring (rl_mem rl) (rl_programs rl) (us @ ys)" "set ys \<subseteq> dom (rl_entries rl)"
  shows "tick_loop delta now (hd (ys @ [rl_programs rl])) (rl, interval, calls) =
    Some (Inr (rl\<lparr>rl_entries := ticked delta now ys (rl_entries rl)\<rparr>,
               shortest delta now ys (rl_entries rl) interval, calls @ calls_of delta now ys (rl_entries rl)))"
  using assms
proof (induction ys arbitrary: us rl interval calls)
  case Nil
  then show ?case
    by (subst tick_loop.simps) (simp add: ticked_def shortest_def calls_of_def)
next
  case (Cons y ys)
  obtain e where e: "rl_entries rl y = Some e"
    using Cons.prems(2) by auto
  obtain e' cs where t: "tick_program delta now e = (e', cs)"
    by (cases "tick_program delta now e")
  let ?rl = "rl\<lparr>rl_entries := (rl_entries rl)(y \<mapsto> e')\<rparr>"
  have d: "y \<noteq> rl_programs rl" "y \<notin> set ys"
    using ring_distinct [OF Cons.prems(1)] by auto
  have es: "((rl_entries rl)(y \<mapsto> e')) x = rl_entries rl x" if "x \<in> set ys" for x
    using d that by auto
  then have rest: "calls_of delta now ys ((rl_entries rl)(y \<mapsto> e')) = calls_of delta now ys (rl_entries rl)"
    "shortest delta now ys ((rl_entries rl)(y \<mapsto> e')) i = shortest delta now ys (rl_entries rl) i" for i
    by (auto simp: calls_of_def shortest_def intro!: arg_cong [where f = concat] fold_cong simp del: fun_upd_apply)
  have ents: "ticked delta now ys ((rl_entries rl)(y \<mapsto> e')) = ticked delta now (y # ys) (rl_entries rl)"
    using e t d by (auto simp: ticked_def entry_after_def fun_eq_iff)
  have IH: "tick_loop delta now (hd (ys @ [rl_programs rl])) (?rl, i, c) =
      Some (Inr (?rl\<lparr>rl_entries := ticked delta now ys (rl_entries ?rl)\<rparr>,
               shortest delta now ys (rl_entries ?rl) i, c @ calls_of delta now ys (rl_entries ?rl)))" for i c
    using Cons.IH [of ?rl "us @ [y]" i c] Cons.prems by (auto simp del: fun_upd_apply)
  show ?case
    using d e t IH ring_next [OF Cons.prems(1)]
    by (subst tick_loop.simps)
      (simp add: rest ents if_less_min, simp add: shortest_def calls_of_def entry_after_def)
qed

lemma loop_turn_spec:
  assumes "wf_loop rl xs"
  shows "loop_turn rl t now =
    Some (Inr (rl\<lparr>rl_entries := ticked (now - t) now xs (rl_entries rl)\<rparr>, now,
      min (shortest (now - t) now xs (rl_entries rl) (- 1)) MAX_RLOOP_WAIT,
      calls_of (now - t) now xs (rl_entries rl)))"
  using assms tick_loop_spec [of rl "[]" xs "now - t" now "- 1" "[]"]
    ring_first [of "rl_mem rl" "rl_programs rl" xs]
  by (simp add: loop_turn_def wf_loop_def if_less_min)

lemma ring_mem_mapped: "ring m h xs \<Longrightarrow> nodes m h \<noteq> None" "ring m h xs \<Longrightarrow> nodes m (last (h # xs)) \<noteq> None"
  using ring_mapped [of m h xs h] ring_mapped [of m h xs "last (h # xs)"] last_in_set [of "h # xs"]
  by (simp_all del: last.simps)

text \<open>The writes of a registration, and of its undoing.\<close>

lemma append_entry:
  assumes ring: "ring m h xs" and e: "nodes m e \<noteq> None" "e \<notin> set (h # xs)"
  obtains m1 m2 m3 m4 where "rd_prev m h = Inr (last (h # xs))"
    "wr_prev m e (last (h # xs)) = Inr m1" "wr_next m1 e h = Inr m2" "rd_next m2 e = Inr h"
    "wr_prev m2 h e = Inr m3" "rd_prev m3 e = Inr (last (h # xs))" "wr_next m3 (last (h # xs)) e = Inr m4"
    "ring m4 h (xs @ [e])"
proof -
  let ?a = "last (h # xs)"
  have a: "?a \<noteq> e" "h \<noteq> e"
    using e(2) last_in_set [of "h # xs"] by (auto simp del: last.simps)
  obtain m1 m2 where m2: "wr_prev m e ?a = Inr m1" "wr_next m1 e h = Inr m2"
    "nxt m2 = (nxt m)(e \<mapsto> h)" "prv m2 = (prv m)(e \<mapsto> ?a)" "only_touches m h {e, e} m2"
    using relink_prev_next [OF e(1) e(1)] by metis
  have mapped: "nodes m2 ?a \<noteq> None" "nodes m2 h \<noteq> None"
    using ring_mem_mapped [OF ring] only_touches_mapped [OF m2(5)] by blast+
  obtain m3 m4 where m4: "wr_prev m2 h e = Inr m3" "wr_next m3 ?a e = Inr m4"
    "prv m3 = (prv m2)(h \<mapsto> e)" "nxt m4 = (nxt m2)(?a \<mapsto> e)" "prv m4 = (prv m2)(h \<mapsto> e)"
    using relink_prev_next [OF mapped] by metis
  have "rd_next m2 e = Inr h" "rd_prev m3 e = Inr ?a"
    using a by (auto simp: m2 m4 intro!: rd_next_nxt rd_prev_prv)
  moreover have "ring m4 h (xs @ e # [])"
  proof (rule ring_insert [of m])
    show "nxt m4 = (nxt m)(?a \<mapsto> e, e \<mapsto> hd ([] @ [h]))"
      using a by (simp add: m2 m4 fun_upd_twist)
    show "prv m4 = (prv m)(e \<mapsto> ?a, hd ([] @ [h]) \<mapsto> e)"
      by (simp add: m2 m4)
  qed (use ring e(2) in simp_all)
  ultimately show thesis
    using that [OF ring_last [OF ring] m2(1,2) _ m4(1) _ m4(2)] by simp
qed

lemma register_spec:
  assumes wf: "wf_loop rl xs" and e: "nodes (rl_mem rl) entry \<noteq> None" "entry \<notin> set (rl_programs rl # xs)" "entry \<noteq> NULL"
    and ok: "ticker \<noteq> NULL" "fp_less (Finite False 0) freq"
      "fp_to_int64 (fp_div binary64 (Finite False 1000000) freq) = Inr interval" "c_rem rand interval = Inr acc"
  shows "\<exists>rl'. cc_run_loop_register bd rl entry ticker freq user rand = Inr rl' \<and> wf_loop rl' (xs @ [entry]) \<and>
    rl_programs rl' = rl_programs rl \<and>
    rl_entries rl' = (rl_entries rl)(entry \<mapsto>
      \<lparr>re_main = ticker, re_data = user, re_acc = word_of_int acc, re_interval = interval\<rparr>)"
proof -
  obtain m1 m2 m3 m4 where m: "rd_prev (rl_mem rl) (rl_programs rl) = Inr (last (rl_programs rl # xs))"
    "wr_prev (rl_mem rl) entry (last (rl_programs rl # xs)) = Inr m1" "wr_next m1 entry (rl_programs rl) = Inr m2"
    "rd_next m2 entry = Inr (rl_programs rl)" "wr_prev m2 (rl_programs rl) entry = Inr m3"
    "rd_prev m3 entry = Inr (last (rl_programs rl # xs))" "wr_next m3 (last (rl_programs rl # xs)) entry = Inr m4"
    "ring m4 (rl_programs rl) (xs @ [entry])"
    using append_entry [of "rl_mem rl" "rl_programs rl" xs entry] wf e(1,2) unfolding wf_loop_def by metis
  show ?thesis
    using m ok wf e(3)
    by (auto simp: cc_run_loop_register_def Let_def wf_loop_def simp del: last.simps)
qed

lemma unlink_entry:
  assumes ring: "ring m h (us @ e # ys)"
  obtains m1 m2 m3 m4 a b where "rd_next m e = Inr b" "rd_prev m e = Inr a" "wr_next m a b = Inr m1"
    "rd_next m1 e = Inr b" "rd_prev m1 e = Inr a" "wr_prev m1 b a = Inr m2"
    "wr_next m2 e NULL = Inr m3" "wr_prev m3 e NULL = Inr m4" "ring m4 h (us @ ys)" "b \<in> set (h # us @ ys)"
proof -
  define a where "a = last (h # us)"
  define b where "b = hd (ys @ [h])"
  have l: "link m a e" "link m e b"
    using ring_neighbours [of m h us "e # ys"] ring_neighbours [of m h "us @ [e]" ys] ring
    by (simp_all add: a_def b_def)
  have mem: "a \<in> set (h # us)" "b \<in> set (ys @ [h])"
    using last_in_set [of "h # us"] hd_in_set [of "ys @ [h]"] by (simp_all add: a_def b_def del: last.simps)
  then have ne: "a \<noteq> e" "b \<noteq> e"
    using ring_distinct [OF ring] by auto
  have mapped: "nodes m a \<noteq> None" "nodes m b \<noteq> None" "nodes m e \<noteq> None"
    using l by (auto simp: link_def nxt_def prv_def)
  obtain m1 m2 where m2: "wr_next m a b = Inr m1" "wr_prev m1 b a = Inr m2"
    "nxt m1 = (nxt m)(a \<mapsto> b)" "prv m1 = prv m" "nxt m2 = (nxt m)(a \<mapsto> b)" "prv m2 = (prv m)(b \<mapsto> a)"
    "only_touches m h {a, b} m2"
    using relink_next_prev [OF mapped(1,2)] by metis
  have e2: "nodes m2 e \<noteq> None"
    using only_touches_mapped [OF m2(7)] mapped(3) by blast
  obtain m3 m4 where m4: "wr_next m2 e NULL = Inr m3" "wr_prev m3 e NULL = Inr m4"
    "nxt m4 = (nxt m2)(e \<mapsto> NULL)" "prv m4 = (prv m2)(e \<mapsto> NULL)"
    using relink_next_prev [OF e2 e2] by metis
  have "ring m4 h (us @ ys)"
    by (rule ring_remove [OF ring]) (auto simp: m2 m4 a_def b_def simp del: last.simps)
  moreover have "rd_next m e = Inr b" "rd_prev m e = Inr a" "rd_next m1 e = Inr b" "rd_prev m1 e = Inr a"
    using l ne by (auto simp: link_def m2 intro!: rd_next_nxt rd_prev_prv)
  moreover have "b \<in> set (h # us @ ys)"
    using mem by auto
  ultimately show thesis
    using that m2(1,2) m4(1,2) by blast
qed

lemma unregister_spec:
  assumes wf: "wf_loop rl (us @ entry # ys)"
  shows "\<exists>rl'. cc_run_loop_unregister bd rl entry = Inr rl' \<and> wf_loop rl' (us @ ys) \<and>
    rl_programs rl' = rl_programs rl \<and> rl_entries rl' = (rl_entries rl)(entry := None)"
proof -
  obtain m1 m2 m3 m4 a b where m: "rd_next (rl_mem rl) entry = Inr b" "rd_prev (rl_mem rl) entry = Inr a"
    "wr_next (rl_mem rl) a b = Inr m1" "rd_next m1 entry = Inr b" "rd_prev m1 entry = Inr a"
    "wr_prev m1 b a = Inr m2" "wr_next m2 entry NULL = Inr m3" "wr_prev m3 entry NULL = Inr m4"
    "ring m4 (rl_programs rl) (us @ ys)" "b \<in> set (rl_programs rl # us @ ys)"
    using unlink_entry [of "rl_mem rl" "rl_programs rl" us entry ys] wf unfolding wf_loop_def by metis
  have "b \<noteq> NULL"
    using m(10) wf by (auto simp: wf_loop_def)
  moreover have "entry \<notin> set (us @ ys)"
    using wf ring_distinct by (fastforce simp: wf_loop_def)
  ultimately show ?thesis
    using m wf by (auto simp: cc_run_loop_unregister_def Let_def wf_loop_def)
qed

lemma free_programs_spec:
  assumes "ring (rl_mem rl) (rl_programs rl) (us @ ys)" "set ys \<subseteq> dom (rl_entries rl)"
  shows "free_programs (hd (ys @ [rl_programs rl])) (rl, freed) =
    Some (Inr (rl\<lparr>rl_entries := rl_entries rl |` (- set ys)\<rparr>, freed @ ys))"
  using assms
proof (induction ys arbitrary: us rl freed)
  case Nil
  have "rl\<lparr>rl_entries := rl_entries rl |` UNIV\<rparr> = rl"
    by (simp add: restrict_map_def)
  then show ?case by (subst free_programs.simps) simp
next
  case (Cons y ys)
  let ?rl = "rl\<lparr>rl_entries := (rl_entries rl)(y := None)\<rparr>"
  have d: "y \<noteq> rl_programs rl" "y \<notin> set ys"
    using ring_distinct [OF Cons.prems(1)] by auto
  have "set ys \<subseteq> dom ((rl_entries rl)(y := None))"
    using Cons.prems(2) d(2) by auto
  then have IH: "free_programs (hd (ys @ [rl_programs rl])) (?rl, freed @ [y]) =
      Some (Inr (?rl\<lparr>rl_entries := (rl_entries rl)(y := None) |` (- set ys)\<rparr>, (freed @ [y]) @ ys))"
    using Cons.IH [of ?rl "us @ [y]" "freed @ [y]"] Cons.prems(1) by (simp del: fun_upd_apply)
  have "(rl_entries rl)(y := None) |` (- set ys) = rl_entries rl |` (- set (y # ys))"
    by (auto simp: restrict_map_def fun_eq_iff)
  then show ?case
    using d IH ring_next [OF Cons.prems(1)] Cons.prems(2)
    by (subst free_programs.simps) auto
qed

section \<open>A concrete loop\<close>

text \<open>Two programs, every millisecond and every two, and storage for a third.\<close>

definition ex_loop :: run_loop where
  "ex_loop =
     \<lparr>rl_is_running = True, rl_stop = False, rl_name = cbuf [108], rl_programs = 4096,
      rl_mem =
        \<lparr>nodes = [4096 \<mapsto> \<lparr>n_prev = 12288, n_next = 8192\<rparr>,
                  8192 \<mapsto> \<lparr>n_prev = 4096, n_next = 12288\<rparr>,
                  12288 \<mapsto> \<lparr>n_prev = 8192, n_next = 4096\<rparr>,
                  16384 \<mapsto> \<lparr>n_prev = 0, n_next = 0\<rparr>],
         hdrs = Map.empty\<rparr>,
      rl_entries =
        [8192 \<mapsto> \<lparr>re_main = 1, re_data = 11, re_acc = 500, re_interval = 1000\<rparr>,
         12288 \<mapsto> \<lparr>re_main = 2, re_data = 22, re_acc = 900, re_interval = 2000\<rparr>]\<rparr>"

lemma ex_loop_wf: "wf_loop ex_loop [8192, 12288]"
  by (simp add: wf_loop_def ring_def link_def nxt_def prv_def ex_loop_def)

section \<open>Properties\<close>

lemma fp_to_int64_floor:
  assumes "floor v = i" "- (2 ^ 63) \<le> i" "i < 2 ^ 63"
  shows "fp_to_int64 (Finite False v) = Inr i"
  using assms unfolding fp_to_int64_def fp_truncate_def by (simp only: fp.case Let_def if_False) simp

lemma interval_floor:
  assumes "0 < n"
  shows "\<exists>v. fp_div binary64 (Finite False 1000000) (Finite False (of_nat n)) = Finite False v \<and>
    floor v = int (1000000 div n) \<and> 0 \<le> v"
proof -
  define x :: rat where "x = 1000000 / of_nat n"
  have x: "0 < x" using assms by (simp add: x_def)
  have fl: "floor x = int (1000000 div n)"
    unfolding x_def using floor_divide_of_nat_eq [of 1000000 n, where 'a = rat] by simp
  have "x \<le> 1000000 / 1"
    unfolding x_def using assms by (intro divide_left_mono) auto
  then have "x < 2 ^ 31" by simp
  moreover have "1 / 2 ^ 20 \<le> of_int (floor x) + 1 - x"
  proof (cases "n \<le> 1000000")
    case True
    have "1000000 + 1 \<le> n * (1000000 div n + 1)"
      using dividend_less_times_div [of n 1000000] assms by simp
    then have "(of_nat (1000000 + 1) :: rat) \<le> of_nat (n * (1000000 div n + 1))"
      by (simp only: of_nat_le_iff)
    then have "1 / of_nat n \<le> of_int (floor x) + 1 - x"
      using assms unfolding fl by (simp add: x_def field_simps)
    moreover have "1 / 1000000 \<le> 1 / (of_nat n :: rat)"
      using True assms by (intro divide_left_mono) auto
    ultimately show ?thesis by simp
  next
    case False
    then have "floor x = 0" by (simp add: fl)
    have "(of_nat 1000001 :: rat) \<le> of_nat n"
      using False by (simp only: of_nat_le_iff)
    then have "x \<le> 1000000 / 1000001"
      unfolding x_def by (intro divide_left_mono) auto
    with \<open>floor x = 0\<close> show ?thesis by simp
  qed
  ultimately obtain v where "fp_round binary64 False x = Finite False v" "floor v = floor x" "0 \<le> v"
    using fp_round_floor [OF x] by blast
  then show ?thesis
    using assms fl by (auto simp: fp_div_def x_def)
qed

text \<open>
  C24: Registering a program at a whole frequency of 1 to 10^6 Hz, the loop's thread running or not,
  puts its entry at the tail of the programs and keeps their ring; its interval is 10^6 / freq
  microseconds, rounded down, and its first call is due within one interval.
\<close>

theorem runloop_register:
  assumes "wf_loop rl xs" "nodes (rl_mem rl) entry \<noteq> None" "entry \<notin> set (rl_programs rl # xs)" "entry \<noteq> NULL"
    and "ticker \<noteq> NULL" "1 \<le> freq" "freq \<le> 1000000" "0 \<le> rand"
  shows "\<exists>rl' e. cc_run_loop_register bd rl entry ticker (Finite False (of_nat freq)) user rand = Inr rl' \<and>
    wf_loop rl' (xs @ [entry]) \<and> rl_entries rl' = (rl_entries rl)(entry \<mapsto> e) \<and>
    re_main e = ticker \<and> re_data e = user \<and> re_interval e = int (1000000 div freq) \<and>
    unat (re_acc e) < 1000000 div freq"
proof -
  let ?i = "int (1000000 div freq)"
  have i: "0 < ?i" "?i \<le> 1000000"
    using assms(6,7) by (auto simp: div_greater_zero_iff)
  obtain v where v: "fp_div binary64 (Finite False 1000000) (Finite False (of_nat freq)) = Finite False v" "floor v = ?i"
    using interval_floor [of freq] assms(6) by auto
  have conv: "fp_to_int64 (fp_div binary64 (Finite False 1000000) (Finite False (of_nat freq))) = Inr ?i"
    unfolding v(1) by (rule fp_to_int64_floor [OF v(2)]) (simp, rule le_less_trans [OF i(2)], simp)
  define acc where "acc = rand mod ?i"
  have acc: "0 \<le> acc" "acc < ?i"
    using i by (simp_all add: acc_def)
  have "sgn rand * (\<bar>rand\<bar> mod \<bar>?i\<bar>) = acc"
    using assms(8) i by (cases "rand = 0") (simp_all add: acc_def)
  then have rem: "c_rem rand ?i = Inr acc"
    using i unfolding c_rem_def by simp
  obtain k where k: "acc = int k"
    using acc(1) by (rule nonneg_int_cases)
  have "k < 1000000"
    using acc(2) i(2) unfolding k by linarith
  then have "k < 2 ^ 64"
    by (rule less_trans) simp
  then have "int (unat (word_of_int acc :: time)) = acc"
    using unat_of_nat_small(1) [of k] by (simp add: k)
  then have "int (unat (word_of_int acc :: time)) < ?i"
    using acc by simp
  then have "unat (word_of_int acc :: time) < 1000000 div freq"
    by linarith
  moreover have "fp_less (Finite False 0) (Finite False (of_nat freq))"
    using assms(6) by (simp add: fp_less_def signed_value_def)
  ultimately show ?thesis
    using register_spec [OF assms(1-5) _ conv rem, of bd user] by fastforce
qed

theorem runloop_register_witness:
  "\<exists>rl' e. cc_run_loop_register Debug ex_loop 16384 3 (Finite False (of_nat 60)) 33 123456 = Inr rl' \<and>
    wf_loop rl' [8192, 12288, 16384] \<and> rl_entries rl' 16384 = Some e \<and>
    re_interval e = 16666 \<and> unat (re_acc e) < 16666"
proof -
  have "nodes (rl_mem ex_loop) 16384 \<noteq> None" "16384 \<notin> set (rl_programs ex_loop # [8192, 12288])"
    by (simp_all add: ex_loop_def)
  from runloop_register [OF ex_loop_wf this, of 3 60 123456 Debug 33] show ?thesis
    by auto
qed

text \<open>
  At a frequency above 10^6 Hz the interval is 0 and registration divides by it.
\<close>

theorem runloop_register_too_fast:
  assumes "ticker \<noteq> NULL" "1000000 < freq"
  shows "cc_run_loop_register bd rl entry ticker (Finite False (of_nat freq)) user rand = Inl DivByZero"
proof -
  obtain v where v: "fp_div binary64 (Finite False 1000000) (Finite False (of_nat freq)) = Finite False v" "floor v = 0"
    using interval_floor [of freq] assms(2) by auto
  have "fp_to_int64 (fp_div binary64 (Finite False 1000000) (Finite False (of_nat freq))) = Inr 0"
    unfolding v(1) by (rule fp_to_int64_floor [OF v(2)]) simp_all
  moreover have "fp_less (Finite False 0) (Finite False (of_nat freq))"
    using assms(2) by (simp add: fp_less_def signed_value_def)
  ultimately show ?thesis
    using assms(1) by (simp add: cc_run_loop_register_def c_rem_def)
qed

theorem runloop_register_too_fast_witness:
  "cc_run_loop_register NDebug ex_loop 16384 3 (Finite False (of_nat 2000000)) 33 5 = Inl DivByZero"
  by (rule runloop_register_too_fast) simp_all

text \<open>
  Unregistering takes exactly the given program out, from any position, and keeps the ring of
  the others.
\<close>

theorem runloop_unregister:
  assumes "wf_loop rl (us @ entry # ys)"
  shows "\<exists>rl'. cc_run_loop_unregister bd rl entry = Inr rl' \<and> wf_loop rl' (us @ ys) \<and>
    rl_entries rl' = (rl_entries rl)(entry := None)"
  using unregister_spec [OF assms] by blast

theorem runloop_unregister_witness:
  "\<exists>rl'. cc_run_loop_unregister Debug ex_loop 8192 = Inr rl' \<and> wf_loop rl' [12288] \<and> rl_entries rl' 8192 = None"
  using runloop_unregister [of ex_loop "[]" 8192 "[12288]" Debug] ex_loop_wf by auto

lemma turn_result:
  assumes "wf_loop rl xs"
  shows "\<exists>rl' wait calls. loop_turn rl t now = Some (Inr (rl', now, wait, calls)) \<and> wf_loop rl' xs \<and>
    calls = map (\<lambda>x. (re_main (the (rl_entries rl x)), now, re_data (the (rl_entries rl x))))
      (filter (\<lambda>x. re_acc (the (rl_entries rl x)) = now - t) xs) \<and>
    (\<forall>x \<in> set xs. rl_entries rl' x = Some ((the (rl_entries rl x))\<lparr>re_acc :=
       (if re_acc (the (rl_entries rl x)) = now - t then word_of_int (re_interval (the (rl_entries rl x)))
        else re_acc (the (rl_entries rl x)) - (now - t))\<rparr>)) \<and>
    wait \<le> 1000000 \<and> (\<forall>x \<in> set xs. wait \<le> re_acc (the (rl_entries rl' x)))"
proof -
  define delta where "delta = now - t"
  define es where "es = ticked delta now xs (rl_entries rl)"
  define wait where "wait = min (shortest delta now xs (rl_entries rl) (- 1)) MAX_RLOOP_WAIT"
  have turn: "loop_turn rl t now = Some (Inr (rl\<lparr>rl_entries := es\<rparr>, now, wait, calls_of delta now xs (rl_entries rl)))"
    using loop_turn_spec [OF assms, of t now] by (simp add: delta_def es_def wait_def)
  have due: "re_acc e - delta \<le> 0 \<longleftrightarrow> re_acc e = delta" for e
    by (simp add: word_le_0_iff)
  have after: "entry_after delta now e = e\<lparr>re_acc :=
      (if re_acc e = delta then word_of_int (re_interval e) else re_acc e - delta)\<rparr>" for e
    by (simp add: entry_after_def tick_program_def Let_def due)
  have entry: "es x = Some (entry_after delta now (the (rl_entries rl x)))" if "x \<in> set xs" for x
    using assms that by (auto simp: es_def ticked_def wf_loop_def)
  have "calls_of delta now xs m = map (\<lambda>x. (re_main (the (m x)), now, re_data (the (m x))))
      (filter (\<lambda>x. re_acc (the (m x)) = delta) xs)" for m
    by (induction xs) (simp_all add: calls_of_def tick_program_def Let_def due)
  moreover have "wf_loop (rl\<lparr>rl_entries := es\<rparr>) xs"
    using assms entry by (auto simp: wf_loop_def dom_def)
  moreover have "shortest delta now ys m i \<le> i \<and>
      (\<forall>x \<in> set ys. shortest delta now ys m i \<le> re_acc (entry_after delta now (the (m x))))" for ys m i
  proof (induction ys arbitrary: i)
    case (Cons y ys)
    have step: "shortest delta now (y # ys) m i =
        shortest delta now ys m (min (re_acc (entry_after delta now (the (m y)))) i)"
      by (simp add: shortest_def)
    show ?case
      using Cons.IH [of "min (re_acc (entry_after delta now (the (m y)))) i"] unfolding step by auto
  qed (simp add: shortest_def)
  then have "\<forall>x \<in> set xs. wait \<le> re_acc (the (es x))"
    using entry by (auto simp: wait_def min.coboundedI1)
  moreover have "wait \<le> 1000000"
    by (simp add: wait_def MAX_RLOOP_WAIT_def)
  ultimately show ?thesis
    unfolding turn using entry after by (auto simp: delta_def)
qed

text \<open>
  C22: A turn of the loop's thread ends.  It calls, in the order of registration and with the time
  of the turn, exactly the programs whose countdown reaches 0 at this very microsecond, resets
  those to their interval, counts the others down (as unsigned numbers), and sleeps at most one
  second and at most until the earliest of the new countdowns.
\<close>

theorem runloop_turn:
  assumes "wf_loop rl xs"
  shows "\<exists>rl' wait calls. loop_turn rl t now = Some (Inr (rl', now, wait, calls)) \<and> wf_loop rl' xs \<and>
    calls = map (\<lambda>x. (re_main (the (rl_entries rl x)), now, re_data (the (rl_entries rl x))))
      (filter (\<lambda>x. re_acc (the (rl_entries rl x)) = now - t) xs) \<and>
    (\<forall>x \<in> set xs. rl_entries rl' x = Some ((the (rl_entries rl x))\<lparr>re_acc :=
       (if re_acc (the (rl_entries rl x)) = now - t then word_of_int (re_interval (the (rl_entries rl x)))
        else re_acc (the (rl_entries rl x)) - (now - t))\<rparr>)) \<and>
    wait \<le> 1000000 \<and> (\<forall>x \<in> set xs. wait \<le> re_acc (the (rl_entries rl' x)))"
  by (rule turn_result [OF assms])

theorem runloop_turn_witness:
  "\<exists>rl' wait. loop_turn ex_loop 1000 1500 = Some (Inr (rl', 1500, wait, [(1, 1500, 11)])) \<and>
    rl_entries rl' 8192 = Some \<lparr>re_main = 1, re_data = 11, re_acc = 1000, re_interval = 1000\<rparr> \<and>
    rl_entries rl' 12288 = Some \<lparr>re_main = 2, re_data = 22, re_acc = 400, re_interval = 2000\<rparr> \<and> wait \<le> 400"
  using runloop_turn [OF ex_loop_wf, of 1000 1500] by (auto simp: ex_loop_def)

lemma turn_loop:
  assumes "wf_loop rl xs"
  shows "\<exists>es wait calls. loop_turn rl t now = Some (Inr (rl\<lparr>rl_entries := es\<rparr>, now, wait, calls)) \<and>
    wf_loop (rl\<lparr>rl_entries := es\<rparr>) xs \<and> wait \<le> 1000000 \<and>
    (\<forall>x \<in> set xs. re_main (the (es x)) = re_main (the (rl_entries rl x)) \<and>
       re_data (the (es x)) = re_data (the (rl_entries rl x))) \<and>
    set calls \<subseteq> (\<lambda>x. (re_main (the (rl_entries rl x)), now, re_data (the (rl_entries rl x)))) ` set xs"
proof -
  obtain rl' wait calls where r: "loop_turn rl t now = Some (Inr (rl', now, wait, calls))" "wf_loop rl' xs"
    "calls = map (\<lambda>x. (re_main (the (rl_entries rl x)), now, re_data (the (rl_entries rl x))))
      (filter (\<lambda>x. re_acc (the (rl_entries rl x)) = now - t) xs)"
    "\<forall>x \<in> set xs. rl_entries rl' x = Some ((the (rl_entries rl x))\<lparr>re_acc :=
       (if re_acc (the (rl_entries rl x)) = now - t then word_of_int (re_interval (the (rl_entries rl x)))
        else re_acc (the (rl_entries rl x)) - (now - t))\<rparr>)" "wait \<le> 1000000"
    using turn_result [OF assms, of t now] by blast
  obtain es where es: "rl' = rl\<lparr>rl_entries := es\<rparr>"
    using r(1) loop_turn_spec [OF assms, of t now] by auto
  have "set calls \<subseteq> (\<lambda>x. (re_main (the (rl_entries rl x)), now, re_data (the (rl_entries rl x)))) ` set xs"
    unfolding r(3) by auto
  then show ?thesis
    using r(1,2,4,5) by (intro exI [of _ es] exI [of _ wait] exI [of _ calls]) (simp add: es)
qed

lemma loop_turns_spec:
  assumes "wf_loop rl xs" "interval \<le> 1000000"
  shows "\<exists>rl' calls waits. loop_turns rl t interval wakes = Some (Inr (rl', calls, waits)) \<and> wf_loop rl' xs \<and>
    set calls \<subseteq> {(re_main (the (rl_entries rl x)), now, re_data (the (rl_entries rl x))) | x now.
      x \<in> set xs \<and> now \<in> fst ` set wakes} \<and>
    (\<forall>w \<in> set waits. \<exists>u \<in> insert t (fst ` set wakes). w - u \<le> 1000000)"
  using assms
proof (induction wakes arbitrary: rl t interval)
  case (Cons wake wakes)
  obtain now a b where wake: "wake = (now, a, b)" by (cases wake)
  consider "rl_stop rl" | "\<not> rl_stop rl" "a" | "\<not> rl_stop rl" "\<not> a" by blast
  then show ?case
  proof cases
    case 3
    obtain es wait calls where t: "loop_turn rl t now = Some (Inr (rl\<lparr>rl_entries := es\<rparr>, now, wait, calls))"
      "wf_loop (rl\<lparr>rl_entries := es\<rparr>) xs" "wait \<le> 1000000"
      "\<forall>x \<in> set xs. re_main (the (es x)) = re_main (the (rl_entries rl x)) \<and>
         re_data (the (es x)) = re_data (the (rl_entries rl x))"
      "set calls \<subseteq> (\<lambda>x. (re_main (the (rl_entries rl x)), now, re_data (the (rl_entries rl x)))) ` set xs"
      using turn_loop [OF Cons.prems(1), of t now] by blast
    let ?rl = "rl\<lparr>rl_entries := es, rl_stop := b\<rparr>"
    have "wf_loop ?rl xs"
      using t(2) by (simp add: wf_loop_def)
    from Cons.IH [OF this t(3), of now] obtain rl' more waits where
      r: "loop_turns ?rl now wait wakes = Some (Inr (rl', more, waits))" "wf_loop rl' xs"
        "set more \<subseteq> {(re_main (the (es x)), u, re_data (the (es x))) | x u. x \<in> set xs \<and> u \<in> fst ` set wakes}"
        "\<forall>w \<in> set waits. \<exists>u \<in> insert now (fst ` set wakes). w - u \<le> 1000000"
      by auto
    have "loop_turns rl t interval (wake # wakes) = Some (Inr (rl', calls @ more, (t + interval) # waits))"
      using 3 t(1) r(1) by (simp add: wake)
    moreover have "set (calls @ more) \<subseteq> {(re_main (the (rl_entries rl x)), u, re_data (the (rl_entries rl x))) | x u.
        x \<in> set xs \<and> u \<in> fst ` set (wake # wakes)}"
      using t(4,5) r(3) by (fastforce simp: wake)
    moreover have "\<forall>w \<in> set ((t + interval) # waits). \<exists>u \<in> insert t (fst ` set (wake # wakes)). w - u \<le> 1000000"
      using r(4) Cons.prems(2) by (auto simp: wake)
    ultimately show ?thesis
      using r(2) by blast
  qed (use Cons.prems in \<open>auto simp: wake wf_loop_def\<close>)
qed simp



text \<open>
  A program whose countdown is shorter than the time that passed is late; a signed countdown
  would be negative and the program called.  The unsigned one wraps around: the program is not
  called, and not due again before 2^64 microseconds, less the delay, have passed.
\<close>

theorem runloop_late_program_is_lost:
  assumes "wf_loop rl xs" "x \<in> set xs" "rl_entries rl x = Some e" "re_acc e < now - t"
    and "distinct (map (\<lambda>x. re_data (the (rl_entries rl x))) xs)"
  shows "int (unat (re_acc e)) - int (unat (now - t)) \<le> 0 \<and>
    (\<exists>rl' wait calls e'. loop_turn rl t now = Some (Inr (rl', now, wait, calls)) \<and>
       re_data e \<notin> (snd \<circ> snd) ` set calls \<and> rl_entries rl' x = Some e' \<and>
       unat (re_acc e') = 2 ^ 64 - (unat (now - t) - unat (re_acc e)))"
proof -
  obtain rl' wait calls where turn: "loop_turn rl t now = Some (Inr (rl', now, wait, calls))"
    "calls = map (\<lambda>x. (re_main (the (rl_entries rl x)), now, re_data (the (rl_entries rl x))))
      (filter (\<lambda>x. re_acc (the (rl_entries rl x)) = now - t) xs)"
    "rl_entries rl' x = Some ((the (rl_entries rl x))\<lparr>re_acc :=
       (if re_acc (the (rl_entries rl x)) = now - t then word_of_int (re_interval (the (rl_entries rl x)))
        else re_acc (the (rl_entries rl x)) - (now - t))\<rparr>)"
    using turn_result [OF assms(1), of t now] assms(2) by blast
  have "re_data e \<notin> (snd \<circ> snd) ` set calls"
  proof
    assume "re_data e \<in> (snd \<circ> snd) ` set calls"
    then obtain y where y: "y \<in> set xs" "re_acc (the (rl_entries rl y)) = now - t"
      "re_data (the (rl_entries rl y)) = re_data (the (rl_entries rl x))"
      using turn(2) assms(3) by auto
    then have "y = x"
      using assms(2,5) by (auto simp: distinct_map inj_on_def)
    then show False
      using y(2) assms(3,4) by simp
  qed
  moreover define e' where "e' = e\<lparr>re_acc := re_acc e - (now - t)\<rparr>"
  then have "unat (re_acc e') = 2 ^ 64 - (unat (now - t) - unat (re_acc e))"
    using assms(4) by (simp add: unat_sub_if' word_less_nat_alt)
  moreover have "rl_entries rl' x = Some e'"
    using turn(3) assms(3,4) by (simp add: e'_def)
  moreover have "int (unat (re_acc e)) - int (unat (now - t)) \<le> 0"
    using assms(4) unfolding word_less_nat_alt by linarith
  ultimately show ?thesis
    using turn(1) by blast
qed

theorem runloop_late_program_is_lost_witness:
  "\<exists>rl' wait calls e'. loop_turn ex_loop 1000 1501 = Some (Inr (rl', 1501, wait, calls)) \<and>
    11 \<notin> (snd \<circ> snd) ` set calls \<and> rl_entries rl' 8192 = Some e' \<and> unat (re_acc e') = 2 ^ 64 - 1"
  using runloop_late_program_is_lost [OF ex_loop_wf, of 8192 "the (rl_entries ex_loop 8192)" 1501 1000]
  by (simp add: ex_loop_def)

text \<open>
  The name of a loop is its first seven characters: the copy is bounded by the size of a
  pointer, not by the twenty bytes of the field.
\<close>

theorem runloop_name_is_cut:
  assumes "is_cstr s" "nodes m programs \<noteq> None" "programs \<noteq> NULL"
  shows "\<exists>rl. cc_run_loop_new bd programs m (map Some s @ Some 0 # r) = Inr rl \<and>
    read_str (rl_name rl) = Inr (take 7 s) \<and> length (rl_name rl) = 20 \<and> wf_loop rl [] \<and> \<not> rl_stop rl"
proof -
  obtain name where name: "string_copy bd (replicate 20 None) (map Some s @ Some 0 # r) sizeof_ptr = Inr name"
    "length name = 20" "read_str name = Inr (take 7 s)"
    using string_copy_string [OF assms(1), of sizeof_ptr "replicate 20 None" bd r] by (auto simp: sizeof_ptr_def)
  obtain m1 m2 where m: "wr_next m programs programs = Inr m1" "wr_prev m1 programs programs = Inr m2"
    "nxt m2 = (nxt m)(programs \<mapsto> programs)" "prv m2 = (prv m)(programs \<mapsto> programs)"
    using relink_next_prev [OF assms(2,2)] by metis
  have "ring m2 programs []"
    by (simp add: ring_def link_def m)
  then show ?thesis
    using name m(1,2) assms(3) by (simp add: cc_run_loop_new_def wf_loop_def)
qed

theorem runloop_name_is_cut_witness:
  "\<exists>rl. cc_run_loop_new Debug 16384 (rl_mem ex_loop) (map Some [115, 99, 104, 101, 100, 117, 108, 101, 114] @ Some 0 # []) = Inr rl \<and>
    read_str (rl_name rl) = Inr [115, 99, 104, 101, 100, 117, 108] \<and> wf_loop rl []"
proof -
  have "nodes (rl_mem ex_loop) 16384 \<noteq> None"
    by (simp add: ex_loop_def)
  then show ?thesis
    using runloop_name_is_cut [of "[115, 99, 104, 101, 100, 117, 108, 101, 114]" "rl_mem ex_loop" 16384 Debug "[]"]
    by auto
qed

text \<open>
  Deleting a loop ends and frees each program's entry exactly once, in order.
\<close>

theorem runloop_delete:
  assumes "wf_loop rl xs" "\<not> rl_stop rl"
  shows "\<exists>rl'. cc_run_loop_delete bd rl = Some (Inr (rl', xs)) \<and>
    rl_stop rl' \<and> rl_entries rl' = rl_entries rl |` (- set xs)"
  using assms free_programs_spec [of "rl\<lparr>rl_stop := True\<rparr>" "[]" xs "[]"] ring_first [of "rl_mem rl" "rl_programs rl" xs]
  by (simp add: cc_run_loop_delete_def wf_loop_def Let_def)

theorem runloop_delete_witness:
  "\<exists>rl'. cc_run_loop_delete Debug ex_loop = Some (Inr (rl', [8192, 12288])) \<and> rl_entries rl' 8192 = None"
proof -
  have "\<not> rl_stop ex_loop"
    by (simp add: ex_loop_def)
  from runloop_delete [OF ex_loop_wf this, of Debug] show ?thesis
    by (auto simp: restrict_map_def)
qed

text \<open>
  The absolute time of a wait is a valid \<^verbatim>\<open>timespec\<close> (less than 10^9 nanoseconds) of
  exactly the given number of microseconds.
\<close>

theorem cond_wait_until_timespec:
  "case cond_wait_until t of (sec, nsec) \<Rightarrow>
     unat nsec < 10 ^ 9 \<and> unat sec * 10 ^ 9 + unat nsec = unat t * 1000"
proof -
  have m: "unat (t mod 1000000) = unat t mod 1000000" "unat (t div 1000000) = unat t div 1000000"
    by (simp_all add: unat_mod unat_div)
  have "unat (t mod 1000000) * 1000 < 2 ^ 64"
    using mod_less_divisor [of 1000000 "unat t"] by (simp add: m)
  then have "unat ((t mod 1000000) * 1000) = (unat t mod 1000000) * 1000"
    using unat_mult_lem [of "t mod 1000000" 1000] by (simp add: m)
  moreover define a b where "a = unat t div 1000000" and "b = unat t mod 1000000"
  ultimately have u: "unat (t div 1000000) = a" "unat ((t mod 1000000) * 1000) = b * 1000"
    by (simp_all only: m)
  have "unat t = a * 1000000 + b" "b < 1000000"
    by (simp_all add: a_def b_def)
  then have "b * 1000 < 1000000000" "a * 1000000000 + b * 1000 = unat t * 1000"
    by linarith+
  then show ?thesis
    unfolding cond_wait_until_def prod.case u by simp
qed

end
