(* ===== verification/CC_Time.thy ===== *)
theory CC_Time
  imports CC_RunLoop
begin

text \<open>
  The clock (src/time.c): microseconds as a 64-bit count, from \<^verbatim>\<open>gettimeofday\<close> or, on
  Windows, from the performance counter and its frequency, by way of \<^verbatim>\<open>double\<close>.
\<close>

definition cc_microtime :: "int \<Rightarrow> int \<Rightarrow> time" where
  "cc_microtime tv_sec tv_usec = word_of_int tv_sec * 1000000 + word_of_int tv_usec"

definition cc_microtime_windows :: "int \<Rightarrow> int \<Rightarrow> time res" where
  "cc_microtime_windows val freq =
     bindE (fp_truncate
        (fp_mul binary64 (fp_div binary64 (fp_of_int binary64 val) (fp_of_int binary64 freq)) (Finite False 1000000))
        0 (2 ^ 64)) (\<lambda>t. Inr (word_of_int t))"

lemma microtime_exact:
  assumes "0 \<le> sec" "sec < 2 ^ 44" "0 \<le> usec" "usec < 1000000"
  shows "uint (cc_microtime sec usec) = sec * 1000000 + usec"
proof -
  have "cc_microtime sec usec = word_of_int (sec * 1000000 + usec)"
    by (simp add: cc_microtime_def)
  then have "uint (cc_microtime sec usec) = (sec * 1000000 + usec) mod 2 ^ 64"
    by (simp only: uint_word_of_int) simp
  then show ?thesis
    using assms by simp
qed

text \<open>
  The clock and the timed wait agree: a wait until a time the clock gave is a wait until exactly
  the second and the microsecond it was made of, and the clock grows with the time of day (until the
  year 559,444).
\<close>

theorem clock_wait_roundtrip:
  assumes "0 \<le> sec" "sec < 2 ^ 44" "0 \<le> usec" "usec < 1000000"
    and "0 \<le> sec'" "sec' < 2 ^ 44" "0 \<le> usec'" "usec' < 1000000"
  shows "cond_wait_until (cc_microtime sec usec) = (word_of_int sec, word_of_int (usec * 1000)) \<and>
    (cc_microtime sec usec \<le> cc_microtime sec' usec' \<longleftrightarrow> sec < sec' \<or> (sec = sec' \<and> usec \<le> usec'))"
proof -
  note t = microtime_exact [OF assms(1-4)] and t' = microtime_exact [OF assms(5-8)]
  have "uint (cc_microtime sec usec div 1000000) = sec" "uint (cc_microtime sec usec mod 1000000) = usec"
    using assms by (simp_all add: uint_div uint_mod t)
  then have "cc_microtime sec usec div 1000000 = word_of_int sec" "cc_microtime sec usec mod 1000000 = word_of_int usec"
    by (metis word_of_int_uint)+
  then have "cond_wait_until (cc_microtime sec usec) = (word_of_int sec, word_of_int (usec * 1000))"
    by (simp add: cond_wait_until_def)
  moreover have "cc_microtime sec usec \<le> cc_microtime sec' usec' \<longleftrightarrow> sec < sec' \<or> (sec = sec' \<and> usec \<le> usec')"
    using assms unfolding word_le_def t t' by auto
  ultimately show ?thesis by blast
qed

theorem clock_wait_roundtrip_witness:
  "cond_wait_until (cc_microtime 1700000000 999999) = (1700000000, 999999000)"
  using clock_wait_roundtrip [of 1700000000 999999 1 1] by simp

end
