(* ===== verification/CC_Log.thy ===== *)
theory CC_Log
  imports CC_Transitions CC_Buffer
begin

text \<open>
  Logging (src/log.c, include/ccore/log.h).  A printer is a name; what is printed is the sequence of
  strings handed to it.  The text a format and its arguments expand to is an argument of the
  operation; what the library adds is the header, the sizes of its buffers and the mutex around the
  strings of a message.
\<close>

section \<open>Messages\<close>

type_synonym log_level = "32 word"

definition LOG_DEBUG :: log_level where "LOG_DEBUG = 0"
definition LOG_INFO :: log_level where "LOG_INFO = 1"
definition LOG_WARN :: log_level where "LOG_WARN = 2"
definition LOG_ERROR :: log_level where "LOG_ERROR = 3"

definition level_string :: "log_level \<Rightarrow> byte list" where
  "level_string level =
     (if level = LOG_DEBUG then bytes ''debug''
      else if level = LOG_INFO then bytes ''info''
      else if level = LOG_WARN then bytes ''warning''
      else if level = LOG_ERROR then bytes ''error''
      else bytes ''<invalid>'')"

datatype printer = Default_printer | Printer nat

text \<open>The settings; \<^term>\<open>log_min_level\<close> is the macro \<^verbatim>\<open>LOG_LEVEL\<close>.\<close>

record log_settings =
  log_printer :: printer
  log_name :: "byte list"
  log_min_level :: log_level

definition cc_set_printer :: "printer \<Rightarrow> log_settings \<Rightarrow> log_settings" where
  "cc_set_printer p st = st\<lparr>log_printer := p\<rparr>"

definition cc_set_log_name :: "byte list \<Rightarrow> log_settings \<Rightarrow> log_settings" where
  "cc_set_log_name name st = st\<lparr>log_name := name\<rparr>"

text \<open>A call of the printer.\<close>

type_synonym print_call = "printer \<times> byte list"

text \<open>What \<^verbatim>\<open>snprintf\<close> leaves in a buffer of the given size.\<close>

definition snprintf :: "nat \<Rightarrow> byte list \<Rightarrow> byte list" where
  "snprintf n s = take (n - 1) s"

definition cc_log :: "log_settings \<Rightarrow> log_level \<Rightarrow> byte list \<Rightarrow> byte list \<Rightarrow> print_call list option" where
  "cc_log st level func msg =
     (if level < log_min_level st then None
      else Some
        [(log_printer st, snprintf 512
            (bytes ''['' @ log_name st @ bytes '' '' @ level_string level @ bytes ''] '' @ func @ bytes ''(): '')),
         (log_printer st, snprintf 512 msg),
         (log_printer st, [10])])"

definition cc_printf :: "log_settings \<Rightarrow> byte list \<Rightarrow> print_call list option" where
  "cc_printf st msg = Some [(log_printer st, snprintf 2048 msg)]"

definition cc_print :: "log_settings \<Rightarrow> byte list \<Rightarrow> print_call list option" where
  "cc_print st str = Some [(log_printer st, str)]"

section \<open>Threads\<close>

text \<open>
  Threads log concurrently.  A call first takes \<^verbatim>\<open>stream_mutex\<close>, then calls the printer
  once per step, then releases the mutex; below the level it returns at once.  The settings are
  read when the call is made (they are set before threads are started).
\<close>

datatype log_call =
    Log log_level "byte list" "byte list"
  | Printf "byte list"
  | Print "byte list"

fun message :: "log_settings \<Rightarrow> log_call \<Rightarrow> print_call list option" where
  "message st (Log level func msg) = cc_log st level func msg"
| "message st (Printf msg) = cc_printf st msg"
| "message st (Print str) = cc_print st str"

datatype log_thread =
    Idle
  | Locking "print_call list"
  | Printing "print_call list" "print_call list"

record logger =
  lg_settings :: log_settings
  stream_mutex :: "nat option"
  lg_threads :: "log_thread list"
  lg_printed :: "print_call list"
  lg_called :: "print_call list list"
  lg_finished :: "print_call list list"

definition log_start :: "log_settings \<Rightarrow> nat \<Rightarrow> logger" where
  "log_start st n =
     \<lparr>lg_settings = st, stream_mutex = None, lg_threads = replicate n Idle, lg_printed = [],
      lg_called = [], lg_finished = []\<rparr>"

datatype log_action = Call_log nat log_call | Step_log nat

definition call_log :: "nat \<Rightarrow> log_call \<Rightarrow> logger \<Rightarrow> logger option" where
  "call_log i c s =
     (if i < length (lg_threads s) \<and> lg_threads s ! i = Idle then
        (case message (lg_settings s) c of
           None \<Rightarrow> Some s
         | Some calls \<Rightarrow>
             Some (s\<lparr>lg_threads := (lg_threads s)[i := Locking calls], lg_called := lg_called s @ [calls]\<rparr>))
      else None)"

definition step_log :: "nat \<Rightarrow> logger \<Rightarrow> logger option" where
  "step_log i s =
     (if i < length (lg_threads s) then
        case lg_threads s ! i of
          Idle \<Rightarrow> None
        | Locking calls \<Rightarrow>
            (if stream_mutex s = None then
               Some (s\<lparr>stream_mutex := Some i, lg_threads := (lg_threads s)[i := Printing [] calls]\<rparr>)
             else None)
        | Printing before [] \<Rightarrow>
            Some (s\<lparr>stream_mutex := None, lg_threads := (lg_threads s)[i := Idle],
                    lg_finished := lg_finished s @ [before]\<rparr>)
        | Printing before (c # calls) \<Rightarrow>
            Some (s\<lparr>lg_printed := lg_printed s @ [c], lg_threads := (lg_threads s)[i := Printing (before @ [c]) calls]\<rparr>)
      else None)"

fun log_exec :: "log_action \<Rightarrow> logger \<Rightarrow> logger option" where
  "log_exec (Call_log i c) s = call_log i c s"
| "log_exec (Step_log i) s = step_log i s"

section \<open>Messages are not mixed\<close>

fun pending :: "log_thread \<Rightarrow> print_call list multiset" where
  "pending Idle = {#}"
| "pending (Locking calls) = {# calls #}"
| "pending (Printing before calls) = {# before @ calls #}"

lemmas log_defs = call_log_def step_log_def

text \<open>Who prints holds the mutex, and what is printed is finished messages and a part of its own.\<close>

definition printing_owner :: "logger \<Rightarrow> bool" where
  "printing_owner s \<longleftrightarrow>
     (case stream_mutex s of
        None \<Rightarrow> (\<forall>i < length (lg_threads s). \<forall>b c. lg_threads s ! i \<noteq> Printing b c) \<and>
          lg_printed s = concat (lg_finished s)
      | Some k \<Rightarrow> k < length (lg_threads s) \<and>
          (\<forall>i < length (lg_threads s). i \<noteq> k \<longrightarrow> (\<forall>b c. lg_threads s ! i \<noteq> Printing b c)) \<and>
          (\<exists>b c. lg_threads s ! k = Printing b c \<and> lg_printed s = concat (lg_finished s) @ b))"

lemma printing_owns:
  assumes "printing_owner s" "i < length (lg_threads s)" "lg_threads s ! i = Printing b c"
  shows "stream_mutex s = Some i" "lg_printed s = concat (lg_finished s) @ b"
    and "j < length (lg_threads s) \<Longrightarrow> lg_threads s ! j = Printing b' c' \<Longrightarrow> j = i"
  using assms by (auto simp: printing_owner_def split: option.splits)

interpretation printing_inv: invariant log_exec "log_start st n" printing_owner for st n
proof
  show "printing_owner (log_start st n)"
    by (simp add: printing_owner_def log_start_def)
  fix s a s' assume inv: "printing_owner s" and ex: "log_exec a s = Some s'"
  show "printing_owner s'"
  proof (cases a)
    case (Call_log i c)
    with ex inv show ?thesis
      by (auto simp: call_log_def printing_owner_def nth_list_update split: if_splits option.splits)
  next
    case (Step_log i)
    with ex have i: "i < length (lg_threads s)"
      by (auto simp: step_log_def split: if_splits)
    show ?thesis
    proof (cases "lg_threads s ! i")
      case (Printing b c)
      note own = printing_owns [OF inv i Printing]
      have others: "lg_threads s ! j \<noteq> Printing b' c'" if "j < length (lg_threads s)" "j \<noteq> i" for j b' c'
        using own(3) that by blast
      show ?thesis
        using ex i
        by (cases c) (auto simp: Step_log step_log_def Printing printing_owner_def nth_list_update own(1,2) others)
    qed (use ex Step_log i inv in \<open>auto simp: step_log_def printing_owner_def nth_list_update split: if_splits\<close>)
  qed
qed

definition calls_kept :: "logger \<Rightarrow> bool" where
  "calls_kept s \<longleftrightarrow> mset (lg_called s) = mset (lg_finished s) + sum_over pending (lg_threads s)"

interpretation calls_inv: invariant log_exec "log_start st n" calls_kept for st n
proof
  show "calls_kept (log_start st n)"
    by (simp add: calls_kept_def log_start_def sum_over_replicate)
  fix s a s' assume kept: "calls_kept s" and ex: "log_exec a s = Some s'"
  have upd: "sum_over pending ((lg_threads s)[i := t]) + pending (lg_threads s ! i) = sum_over pending (lg_threads s) + pending t"
    if "i < length (lg_threads s)" for i t
    by (rule sum_over_update [OF that])
  show "calls_kept s'"
  proof (cases a)
    case (Call_log i c)
    with ex kept upd [of i] show ?thesis
      by (auto simp: calls_kept_def call_log_def split: if_splits option.splits)
  next
    case (Step_log i)
    with ex have i: "i < length (lg_threads s)"
      by (auto simp: step_log_def split: if_splits)
    show ?thesis
      using ex kept Step_log i upd [OF i, of Idle]
      by (auto simp: calls_kept_def step_log_def sum_over_same split: if_splits log_thread.splits list.splits)
  qed
qed

text \<open>
  C28: However threads interleave, messages are not mixed: what has been printed is a sequence of
  whole messages, in the order their threads got the mutex, followed by the part already printed of
  at most one more; every finished message is one that was logged, none is finished twice, and when
  no thread is logging all of them have been printed.
\<close>

theorem log_messages_whole:
  assumes "reach log_exec (log_start st n) s"
  shows "(\<exists>part. lg_printed s = concat (lg_finished s) @ part \<and>
      (part \<noteq> [] \<longrightarrow> (\<exists>rest. part @ rest \<in> set (lg_called s)))) \<and>
    mset (lg_finished s) \<subseteq># mset (lg_called s) \<and>
    ((\<forall>t \<in> set (lg_threads s). t = Idle) \<longrightarrow>
       mset (lg_finished s) = mset (lg_called s) \<and> lg_printed s = concat (lg_finished s))"
proof -
  note own = printing_inv.holds [OF assms] and kept = calls_inv.holds [OF assms]
  have sub: "pending t \<subseteq># sum_over pending ts" if "t \<in> set ts" for t ts
    using that by (induction ts) (auto intro: subset_mset.add_increasing)
  have idle: "sum_over pending ts = {#}" if "\<forall>t \<in> set ts. t = Idle" for ts
    using that by (induction ts) auto
  have "\<exists>part. lg_printed s = concat (lg_finished s) @ part \<and>
      (part \<noteq> [] \<longrightarrow> (\<exists>rest. part @ rest \<in> set (lg_called s)))"
  proof (cases "stream_mutex s")
    case None
    with own show ?thesis by (auto simp: printing_owner_def)
  next
    case (Some k)
    with own obtain b c where k: "k < length (lg_threads s)" "lg_threads s ! k = Printing b c"
      and p: "lg_printed s = concat (lg_finished s) @ b"
      by (auto simp: printing_owner_def)
    have "{# b @ c #} \<subseteq># mset (lg_called s)"
      using sub [OF nth_mem [OF k(1)]] kept by (simp add: k(2) calls_kept_def subset_mset.add_increasing)
    then have "b @ c \<in> set (lg_called s)"
      by simp
    with p show ?thesis by blast
  qed
  moreover have "mset (lg_finished s) \<subseteq># mset (lg_called s)"
    using kept by (simp add: calls_kept_def)
  moreover have "mset (lg_finished s) = mset (lg_called s) \<and> lg_printed s = concat (lg_finished s)"
    if "\<forall>t \<in> set (lg_threads s). t = Idle"
    using kept own idle [OF that] that
    by (auto simp: calls_kept_def printing_owner_def all_set_conv_all_nth split: option.splits)
  ultimately show ?thesis by blast
qed

text \<open>Two threads log at once; thread 1 has to wait for the three strings of thread 0.\<close>

definition settings :: log_settings where
  "settings = \<lparr>log_printer = Default_printer, log_name = bytes ''ccore'', log_min_level = LOG_INFO\<rparr>"

definition log_run :: "log_action list" where
  "log_run = [Call_log 0 (Log LOG_WARN (bytes ''main'') (bytes ''hi'')), Step_log 0, Step_log 0,
     Call_log 1 (Print (bytes ''x'')), Call_log 2 (Log LOG_DEBUG [] []), Step_log 0, Step_log 0, Step_log 0,
     Step_log 1, Step_log 1, Step_log 1]"

theorem log_messages_whole_witness:
  "\<exists>s. exec_all log_exec log_run (log_start settings 3) = Some s \<and> lg_printed s = concat (lg_finished s) \<and>
     map snd (lg_printed s) = [bytes ''[ccore warning] main(): '', bytes ''hi'', [10], bytes ''x'']"
proof -
  define m where "m = map (Pair Default_printer) [bytes ''[ccore warning] main(): '', bytes ''hi'', [10]]"
  let ?s = "\<lparr>lg_settings = settings, stream_mutex = None, lg_threads = [Idle, Idle, Idle],
      lg_printed = m @ [(Default_printer, bytes ''x'')],
      lg_called = [m, [(Default_printer, bytes ''x'')]], lg_finished = [m, [(Default_printer, bytes ''x'')]]\<rparr>"
  have run: "exec_all log_exec log_run (log_start settings 3) = Some ?s"
    by (simp add: log_run_def log_start_def log_defs settings_def cc_log_def cc_print_def snprintf_def level_string_def
        LOG_DEBUG_def LOG_INFO_def LOG_WARN_def bytes_def numeral_3_eq_3 m_def)
  then have "reach log_exec (log_start settings 3) ?s"
    by (rule exec_all_reach [OF reach.start])
  from log_messages_whole [OF this] run show ?thesis
    by (intro exI [of _ ?s]) (simp add: m_def)
qed

end
