(* ===== verification/CC_Except.thy ===== *)
theory CC_Except
  imports CC_Prelude
begin

unbundle bit_operations_syntax

text \<open>
  The crash handlers (src/except.c), for POSIX and for Windows: installing and removing them, what
  they print, and how they hand the event on to the handler that was there before.  The table of
  signal dispositions and the unhandled-exception filter belong to the operating system; they are
  part of the state.  A handler of somebody else is a name.
\<close>

section \<open>POSIX: state\<close>

datatype posix_sig = SIGSEGV | SIGABRT | SIGFPE | SIGINT | SIGILL | SIGTERM | Other_signal nat

text \<open>
  \<^verbatim>\<open>SIG_DFL\<close> is the null pointer and \<^verbatim>\<open>SIG_IGN\<close> the address 1; \<^verbatim>\<open>sa_handler\<close>
  and \<^verbatim>\<open>sa_sigaction\<close> are one field.
\<close>

datatype handler = SIG_DFL | SIG_IGN | Handle_posix_sig | Foreign nat

record sigaction =
  sa_handler :: handler
  sa_flags :: "32 word"
  sa_mask :: "posix_sig set"

definition SA_SIGINFO :: "32 word" where "SA_SIGINFO = 4"
definition SA_ONSTACK :: "32 word" where "SA_ONSTACK = 0x08000000"

record except_state =
  inited :: bool
  dispositions :: "posix_sig \<Rightarrow> sigaction"
  altstack :: bool
  old_sigsegv :: sigaction
  old_sigabrt :: sigaction
  old_sigfpe :: sigaction
  old_sigint :: sigaction
  old_sigill :: sigaction
  old_sigterm :: sigaction

section \<open>POSIX: handling a signal\<close>

definition sigfpe2str :: "int \<Rightarrow> string" where
  "sigfpe2str si_code =
     (if si_code = 1 then ''integer divide by zero''
      else if si_code = 2 then ''integer overflow''
      else if si_code = 3 then ''floating-point divide by zero''
      else if si_code = 4 then ''floating-point overflow''
      else if si_code = 5 then ''floating-point underflow''
      else if si_code = 6 then ''floating-point inexact result''
      else if si_code = 7 then ''floating-point invalid operation''
      else if si_code = 8 then ''subscript out of range''
      else ''general arithmetic exception'')"

definition sigill2str :: "int \<Rightarrow> string" where
  "sigill2str si_code =
     (if si_code = 1 then ''illegal opcode''
      else if si_code = 2 then ''illegal operand''
      else if si_code = 3 then ''illegal addressing mode''
      else if si_code = 4 then ''illegal trap''
      else if si_code = 5 then ''privileged opcode''
      else if si_code = 6 then ''privileged register''
      else if si_code = 7 then ''coprocessor error''
      else if si_code = 8 then ''internal stack error''
      else ''unknown error'')"

record siginfo =
  si_code :: int
  si_addr :: addr

text \<open>
  What the handler does, in order: print a message (a format and its argument), print the stack
  below some frames, call another handler with three arguments or with one, and exit.
\<close>

datatype arg = No_arg | Ptr_arg addr | Str_arg string | Sig_arg posix_sig

datatype effect = Printf string arg | Print_stack int | Call_sigaction handler | Call_handler handler | Exit_failure

text \<open>Calling \<^const>\<open>SIG_IGN\<close>, which is no function's address, is an access through a bad pointer.\<close>

definition call_handler :: "(handler \<Rightarrow> effect) \<Rightarrow> handler \<Rightarrow> effect list res" where
  "call_handler how h = (if h = SIG_DFL \<or> h = SIG_IGN then Inl BadDeref else Inr [how h])"

definition signal_forward :: "sigaction \<Rightarrow> effect list res" where
  "signal_forward act =
     (if sa_handler act \<noteq> SIG_DFL \<and> sa_flags act AND SA_SIGINFO \<noteq> 0 then
        call_handler Call_sigaction (sa_handler act)
      else if sa_handler act \<noteq> SIG_DFL then call_handler Call_handler (sa_handler act)
      else Inr [])"

definition signal_message :: "posix_sig \<Rightarrow> siginfo \<Rightarrow> effect" where
  "signal_message sig info =
     (case sig of
        SIGSEGV \<Rightarrow> Printf ''Caught SIGSEGV: segmentation fault (%p)'' (Ptr_arg (si_addr info))
      | SIGABRT \<Rightarrow> Printf ''Caught SIGABORT: abort (%p)'' (Ptr_arg (si_addr info))
      | SIGFPE \<Rightarrow> Printf ''Caught SIGFPE: floating point exception (%s)'' (Str_arg (sigfpe2str (si_code info)))
      | SIGILL \<Rightarrow> Printf ''Caught SIGILL: illegal instruction (%s)'' (Str_arg (sigill2str (si_code info)))
      | SIGTERM \<Rightarrow> Printf ''Caught SIGTERM: terminated'' No_arg
      | _ \<Rightarrow> Printf ''Caught signal %d'' (Sig_arg sig))"

definition handle_posix_sig :: "except_state \<Rightarrow> posix_sig \<Rightarrow> siginfo \<Rightarrow> effect list res" where
  "handle_posix_sig st sig info =
     bindE
       (case sig of
          SIGSEGV \<Rightarrow> signal_forward (old_sigsegv st)
        | SIGABRT \<Rightarrow> signal_forward (old_sigabrt st)
        | SIGFPE \<Rightarrow> signal_forward (old_sigfpe st)
        | SIGILL \<Rightarrow> signal_forward (old_sigill st)
        | SIGTERM \<Rightarrow> signal_forward (old_sigterm st)
        | _ \<Rightarrow> Inr [])
       (\<lambda>forwarded. Inr (signal_message sig info # Print_stack 1 # forwarded @ [Exit_failure]))"

section \<open>POSIX: installing and removing\<close>

text \<open>
  \<^verbatim>\<open>sigaction\<close> on one of the six signals succeeds.  Every call stands inside a
  \<^verbatim>\<open>CCASSERT\<close>, so that a release build does not make it.
\<close>

definition install :: "build \<Rightarrow> posix_sig \<Rightarrow> sigaction \<Rightarrow> (sigaction \<Rightarrow> except_state \<Rightarrow> except_state) \<Rightarrow>
    except_state \<Rightarrow> except_state" where
  "install bd sig act save st =
     (if bd = NDebug then st
      else save (dispositions st sig) (st\<lparr>dispositions := (dispositions st)(sig := act)\<rparr>))"

definition our_sigaction :: sigaction where
  "our_sigaction =
     \<lparr>sa_handler = Handle_posix_sig, sa_flags = SA_SIGINFO OR SA_ONSTACK, sa_mask = {}\<rparr>"

definition signal_handler_init :: "build \<Rightarrow> except_state \<Rightarrow> except_state" where
  "signal_handler_init bd st =
     (let st = (if bd = NDebug then st else st\<lparr>altstack := True\<rparr>);
          st = install bd SIGSEGV our_sigaction (\<lambda>old. old_sigsegv_update (\<lambda>_. old)) st;
          st = install bd SIGABRT our_sigaction (\<lambda>old. old_sigabrt_update (\<lambda>_. old)) st;
          st = install bd SIGFPE our_sigaction (\<lambda>old. old_sigfpe_update (\<lambda>_. old)) st;
          st = install bd SIGINT our_sigaction (\<lambda>old. old_sigint_update (\<lambda>_. old)) st;
          st = install bd SIGILL our_sigaction (\<lambda>old. old_sigill_update (\<lambda>_. old)) st in
      install bd SIGTERM our_sigaction (\<lambda>old. old_sigterm_update (\<lambda>_. old)) st)"

definition signal_handler_fini :: "build \<Rightarrow> except_state \<Rightarrow> except_state" where
  "signal_handler_fini bd st =
     (let st = install bd SIGSEGV (old_sigsegv st) (\<lambda>_. id) st;
          st = install bd SIGABRT (old_sigabrt st) (\<lambda>_. id) st;
          st = install bd SIGFPE (old_sigfpe st) (\<lambda>_. id) st;
          st = install bd SIGINT (old_sigint st) (\<lambda>_. id) st;
          st = install bd SIGILL (old_sigill st) (\<lambda>_. id) st in
      install bd SIGTERM (old_sigterm st) (\<lambda>_. id) st)"

definition cc_except_init :: "build \<Rightarrow> except_state \<Rightarrow> except_state res" where
  "cc_except_init bd st =
     bindE (ccassert bd (\<not> inited st)) (\<lambda>_. Inr (signal_handler_init bd (st\<lparr>inited := True\<rparr>)))"

definition cc_except_fini :: "build \<Rightarrow> except_state \<Rightarrow> except_state" where
  "cc_except_fini bd st =
     (if \<not> inited st then st else signal_handler_fini bd (st\<lparr>inited := False\<rparr>))"

section \<open>Windows\<close>

datatype win_exception =
    EXCEPTION_ACCESS_VIOLATION
  | EXCEPTION_ARRAY_BOUNDS_EXCEEDED
  | EXCEPTION_BREAKPOINT
  | EXCEPTION_DATATYPE_MISALIGNMENT
  | EXCEPTION_FLT_DENORMAL_OPERAND
  | EXCEPTION_FLT_DIVIDE_BY_ZERO
  | EXCEPTION_FLT_INEXACT_RESULT
  | EXCEPTION_FLT_INVALID_OPERATION
  | EXCEPTION_FLT_OVERFLOW
  | EXCEPTION_FLT_STACK_CHECK
  | EXCEPTION_FLT_UNDERFLOW
  | EXCEPTION_ILLEGAL_INSTRUCTION
  | EXCEPTION_IN_PAGE_ERROR
  | EXCEPTION_INT_DIVIDE_BY_ZERO
  | EXCEPTION_INT_OVERFLOW
  | EXCEPTION_INVALID_DISPOSITION
  | EXCEPTION_NONCONTINUABLE_EXCEPTION
  | EXCEPTION_PRIV_INSTRUCTION
  | EXCEPTION_SINGLE_STEP
  | EXCEPTION_STACK_OVERFLOW
  | Unknown_exception "32 word"

text \<open>A filter answers with one of these; \<^term>\<open>Filter n\<close> is somebody else's.\<close>

datatype verdict = EXCEPTION_CONTINUE_SEARCH | Verdict nat

datatype filter = No_filter | Handle_windows_exception | Filter nat

record win_state =
  win_inited :: bool
  unhandled_filter :: filter
  prev_windows_except_handler :: filter

definition windows_message :: "win_exception \<Rightarrow> string" where
  "windows_message code =
     (case code of
        EXCEPTION_ACCESS_VIOLATION \<Rightarrow> ''Caught EXCEPTION_ACCESS_VIOLATION''
      | EXCEPTION_ARRAY_BOUNDS_EXCEEDED \<Rightarrow> ''Caught EXCEPTION_ARRAY_BOUNDS_EXCEEDED''
      | EXCEPTION_BREAKPOINT \<Rightarrow> ''Caught EXCEPTION_BREAKPOINT''
      | EXCEPTION_DATATYPE_MISALIGNMENT \<Rightarrow> ''Caught EXCEPTION_DATATYPE_MISALIGNMENT''
      | EXCEPTION_FLT_DENORMAL_OPERAND \<Rightarrow> ''Caught EXCEPTION_FLT_DENORMAL_OPERAND''
      | EXCEPTION_FLT_DIVIDE_BY_ZERO \<Rightarrow> ''Caught EXCEPTION_FLT_DIVIDE_BY_ZERO''
      | EXCEPTION_FLT_INEXACT_RESULT \<Rightarrow> ''Caught EXCEPTION_FLT_INEXACT_RESULT''
      | EXCEPTION_FLT_INVALID_OPERATION \<Rightarrow> ''Caught EXCEPTION_FLT_INVALID_OPERATION''
      | EXCEPTION_FLT_OVERFLOW \<Rightarrow> ''Caught EXCEPTION_FLT_OVERFLOW''
      | EXCEPTION_FLT_STACK_CHECK \<Rightarrow> ''Caught EXCEPTION_FLT_STACK_CHECK''
      | EXCEPTION_FLT_UNDERFLOW \<Rightarrow> ''Caught EXCEPTION_FLT_UNDERFLOW''
      | EXCEPTION_ILLEGAL_INSTRUCTION \<Rightarrow> ''Caught EXCEPTION_ILLEGAL_INSTRUCTION''
      | EXCEPTION_IN_PAGE_ERROR \<Rightarrow> ''Caught EXCEPTION_IN_PAGE_ERROR''
      | EXCEPTION_INT_DIVIDE_BY_ZERO \<Rightarrow> ''Caught EXCEPTION_INT_DIVIDE_BY_ZERO''
      | EXCEPTION_INT_OVERFLOW \<Rightarrow> ''Caught EXCEPTION_INT_OVERFLOW''
      | EXCEPTION_INVALID_DISPOSITION \<Rightarrow> ''Caught EXCEPTION_INVALID_DISPOSITION''
      | EXCEPTION_NONCONTINUABLE_EXCEPTION \<Rightarrow> ''Caught EXCEPTION_NONCONTINUABLE_EXCEPTION''
      | EXCEPTION_PRIV_INSTRUCTION \<Rightarrow> ''Caught EXCEPTION_PRIV_INSTRUCTION''
      | EXCEPTION_SINGLE_STEP \<Rightarrow> ''Caught EXCEPTION_SINGLE_STEP''
      | EXCEPTION_STACK_OVERFLOW \<Rightarrow> ''Caught EXCEPTION_STACK_OVERFLOW''
      | Unknown_exception w \<Rightarrow> ''Caught unknown exception %lx'')"

text \<open>
  The messages printed (each followed by the stack) and the verdict; \<^const>\<open>None\<close> is a handler
  that does not return.
\<close>

partial_function (option) handle_windows_exception ::
  "win_state \<Rightarrow> win_exception \<Rightarrow> string list \<Rightarrow> (string list \<times> verdict) option"
where
  "handle_windows_exception st code printed =
     (let printed = printed @ [windows_message code] in
      case prev_windows_except_handler st of
        No_filter \<Rightarrow> Some (printed, EXCEPTION_CONTINUE_SEARCH)
      | Handle_windows_exception \<Rightarrow> handle_windows_exception st code printed
      | Filter n \<Rightarrow> Some (printed, Verdict n))"

definition win_except_init :: "build \<Rightarrow> win_state \<Rightarrow> win_state res" where
  "win_except_init bd st =
     bindE (ccassert bd (\<not> win_inited st)) (\<lambda>_.
     Inr (st\<lparr>win_inited := True, prev_windows_except_handler := unhandled_filter st,
             unhandled_filter := Handle_windows_exception\<rparr>))"

definition win_except_fini :: "win_state \<Rightarrow> win_state" where
  "win_except_fini st =
     (if \<not> win_inited st then st
      else st\<lparr>win_inited := False, unhandled_filter := prev_windows_except_handler st\<rparr>)"

section \<open>What the handlers promise\<close>

definition our_signals :: "posix_sig set" where
  "our_signals = {SIGSEGV, SIGABRT, SIGFPE, SIGINT, SIGILL, SIGTERM}"

lemmas except_defs = cc_except_init_def cc_except_fini_def signal_handler_init_def signal_handler_fini_def
  install_def Let_def our_signals_def

lemma init_debug:
  assumes "\<not> inited st"
  shows "\<exists>st'. cc_except_init Debug st = Inr st' \<and> inited st' \<and> altstack st' \<and>
    dispositions st' = (\<lambda>sig. if sig \<in> our_signals then our_sigaction else dispositions st sig) \<and>
    old_sigsegv st' = dispositions st SIGSEGV \<and> old_sigabrt st' = dispositions st SIGABRT \<and>
    old_sigfpe st' = dispositions st SIGFPE \<and> old_sigint st' = dispositions st SIGINT \<and>
    old_sigill st' = dispositions st SIGILL \<and> old_sigterm st' = dispositions st SIGTERM"
  using assms by (auto simp: except_defs)

lemma fini_debug:
  assumes "inited st"
  shows "dispositions (cc_except_fini Debug st) = (dispositions st)
      (SIGSEGV := old_sigsegv st, SIGABRT := old_sigabrt st, SIGFPE := old_sigfpe st,
       SIGINT := old_sigint st, SIGILL := old_sigill st, SIGTERM := old_sigterm st)"
    and "\<not> inited (cc_except_fini Debug st)"
  using assms by (simp_all add: except_defs)

text \<open>
  C34: In a debug build initialisation sends the six signals, and no others, to the handler on its
  alternate stack, and finalisation gives every signal its former disposition back, whatever it
  was; initialising twice stops at the assertion and finalising twice does nothing.
\<close>

theorem except_init_fini:
  assumes "\<not> inited st"
  shows "\<exists>st'. cc_except_init Debug st = Inr st' \<and>
    dispositions st' = (\<lambda>sig. if sig \<in> our_signals then our_sigaction else dispositions st sig) \<and>
    dispositions (cc_except_fini Debug st') = dispositions st \<and> \<not> inited (cc_except_fini Debug st') \<and>
    cc_except_init Debug st' = Inl AssertFail \<and>
    cc_except_fini Debug (cc_except_fini Debug st') = cc_except_fini Debug st'"
proof -
  obtain st' where st': "cc_except_init Debug st = Inr st'" "inited st'"
      "dispositions st' = (\<lambda>sig. if sig \<in> our_signals then our_sigaction else dispositions st sig)"
    and old: "old_sigsegv st' = dispositions st SIGSEGV" "old_sigabrt st' = dispositions st SIGABRT"
      "old_sigfpe st' = dispositions st SIGFPE" "old_sigint st' = dispositions st SIGINT"
      "old_sigill st' = dispositions st SIGILL" "old_sigterm st' = dispositions st SIGTERM"
    using init_debug [OF assms] by blast
  have "dispositions (cc_except_fini Debug st') sig = dispositions st sig" for sig
    by (cases sig) (simp_all add: fini_debug [OF st'(2)] st'(3) old our_signals_def)
  moreover have "cc_except_fini Debug (cc_except_fini Debug st') = cc_except_fini Debug st'"
    using fini_debug(2) [OF st'(2)] by (simp add: cc_except_fini_def [of _ "cc_except_fini Debug st'"])
  ultimately show ?thesis
    using st' fini_debug(2) [OF st'(2)] by (auto simp: cc_except_init_def)
qed

definition default_action :: sigaction where
  "default_action = \<lparr>sa_handler = SIG_DFL, sa_flags = 0, sa_mask = {}\<rparr>"

definition fresh :: except_state where
  "fresh = \<lparr>inited = False, dispositions = (\<lambda>_. default_action), altstack = False,
     old_sigsegv = default_action, old_sigabrt = default_action, old_sigfpe = default_action,
     old_sigint = default_action, old_sigill = default_action, old_sigterm = default_action\<rparr>"

theorem except_init_fini_witness:
  "\<exists>st'. cc_except_init Debug fresh = Inr st' \<and> dispositions st' SIGINT = our_sigaction \<and>
    dispositions (cc_except_fini Debug st') SIGINT = default_action"
  using except_init_fini [of fresh] by (auto simp: fresh_def our_signals_def)

text \<open>
  Under \<^verbatim>\<open>NDEBUG\<close> the assertions that hold the calls of \<^verbatim>\<open>sigaction\<close> are
  empty: initialisation succeeds, any number of times, and no signal is ever handled.
\<close>

theorem except_ndebug_installs_nothing:
  "cc_except_init NDebug st = Inr (st\<lparr>inited := True\<rparr>) \<and>
   dispositions (cc_except_fini NDebug st) = dispositions st"
  by (simp add: except_defs)

lemma handler_effects:
  assumes "\<not> inited st" "cc_except_init Debug st = Inr st'" "sig \<in> our_signals"
    and "sa_handler (dispositions st sig) = (if n = 0 then SIG_DFL else Foreign n)"
  shows "handle_posix_sig st' sig info = Inr (signal_message sig info # Print_stack 1 #
    (if n = 0 \<or> sig = SIGINT then []
     else if sa_flags (dispositions st sig) AND SA_SIGINFO \<noteq> 0 then [Call_sigaction (Foreign n)]
     else [Call_handler (Foreign n)]) @ [Exit_failure])"
proof -
  have fwd: "signal_forward (dispositions st sig) =
    Inr (if n = 0 then [] else if sa_flags (dispositions st sig) AND SA_SIGINFO \<noteq> 0 then [Call_sigaction (Foreign n)] else [Call_handler (Foreign n)])"
    using assms(4) by (simp add: signal_forward_def call_handler_def)
  have "(case sig of SIGSEGV \<Rightarrow> signal_forward (old_sigsegv st') | SIGABRT \<Rightarrow> signal_forward (old_sigabrt st')
      | SIGFPE \<Rightarrow> signal_forward (old_sigfpe st') | SIGILL \<Rightarrow> signal_forward (old_sigill st')
      | SIGTERM \<Rightarrow> signal_forward (old_sigterm st') | _ \<Rightarrow> Inr []) =
    (if sig = SIGINT then Inr [] else signal_forward (dispositions st sig))"
    using init_debug [OF assms(1)] assms(2,3) by (auto simp: our_signals_def)
  then show ?thesis
    by (simp add: handle_posix_sig_def fwd)
qed

text \<open>
  A handled signal is reported, with the stack, and handed on to the handler that was installed
  before, by three arguments if it asked for them and by one otherwise, before the process exits;
  the default disposition gets nothing, and neither does the handler of \<^verbatim>\<open>SIGINT\<close>, whose
  saved disposition is never consulted.
\<close>

theorem except_forwards:
  assumes "\<not> inited st" "cc_except_init Debug st = Inr st'" "sig \<in> our_signals"
    and "sa_handler (dispositions st sig) = (if n = 0 then SIG_DFL else Foreign n)"
  shows "handle_posix_sig st' sig info = Inr (signal_message sig info # Print_stack 1 #
    (if n = 0 \<or> sig = SIGINT then []
     else if sa_flags (dispositions st sig) AND SA_SIGINFO \<noteq> 0 then [Call_sigaction (Foreign n)]
     else [Call_handler (Foreign n)]) @ [Exit_failure])"
  by (rule handler_effects [OF assms])

theorem except_forwards_witness:
  "\<exists>st'. cc_except_init Debug (fresh\<lparr>dispositions := (\<lambda>_. \<lparr>sa_handler = Foreign 7, sa_flags = SA_SIGINFO, sa_mask = {}\<rparr>)\<rparr>) = Inr st' \<and>
    handle_posix_sig st' SIGFPE \<lparr>si_code = 1, si_addr = 0\<rparr> =
      Inr [Printf ''Caught SIGFPE: floating point exception (%s)'' (Str_arg ''integer divide by zero''),
           Print_stack 1, Call_sigaction (Foreign 7), Exit_failure]"
proof -
  let ?st = "fresh\<lparr>dispositions := (\<lambda>_. \<lparr>sa_handler = Foreign 7, sa_flags = SA_SIGINFO, sa_mask = {}\<rparr>)\<rparr>"
  have "\<not> inited ?st"
    by (simp add: fresh_def)
  moreover from init_debug [OF this] obtain st' where "cc_except_init Debug ?st = Inr st'"
    by blast
  ultimately show ?thesis
    using except_forwards [of ?st st' SIGFPE 7 "\<lparr>si_code = 1, si_addr = 0\<rparr>"]
    by (simp add: our_signals_def signal_message_def sigfpe2str_def SA_SIGINFO_def)
qed

text \<open>
  A signal that was ignored before is not handed on but jumped to: \<^verbatim>\<open>SIG_IGN\<close> is
  compared with NULL only, and then called as a function.
\<close>

theorem except_ignored_signal_is_called:
  assumes "\<not> inited st" "cc_except_init Debug st = Inr st'" "sig \<in> our_signals - {SIGINT}"
    and "sa_handler (dispositions st sig) = SIG_IGN"
  shows "handle_posix_sig st' sig info = Inl BadDeref"
  using init_debug [OF assms(1)] assms
  by (auto simp: our_signals_def handle_posix_sig_def signal_forward_def call_handler_def)

theorem except_ignored_signal_is_called_witness:
  "\<exists>st'. cc_except_init Debug (fresh\<lparr>dispositions := (\<lambda>_. default_action\<lparr>sa_handler := SIG_IGN\<rparr>)\<rparr>) = Inr st' \<and>
    handle_posix_sig st' SIGTERM \<lparr>si_code = 0, si_addr = 0\<rparr> = Inl BadDeref"
proof -
  let ?st = "fresh\<lparr>dispositions := (\<lambda>_. default_action\<lparr>sa_handler := SIG_IGN\<rparr>)\<rparr>"
  have "\<not> inited ?st"
    by (simp add: fresh_def)
  moreover from init_debug [OF this] obtain st' where "cc_except_init Debug ?st = Inr st'"
    by blast
  ultimately show ?thesis
    using except_ignored_signal_is_called [of ?st st' SIGTERM] by (auto simp: our_signals_def)
qed

lemma own_handler_loops:
  assumes "prev_windows_except_handler st = Handle_windows_exception"
  shows "handle_windows_exception st code printed = None"
proof (rule ccontr)
  assume "handle_windows_exception st code printed \<noteq> None"
  then obtain r where "handle_windows_exception st code printed = Some r"
    by blast
  from _ this have "prev_windows_except_handler st \<noteq> Handle_windows_exception"
  proof (rule handle_windows_exception.raw_induct
      [where P = "\<lambda>st code printed r. prev_windows_except_handler st \<noteq> Handle_windows_exception"])
    fix rec :: "win_state \<Rightarrow> win_exception \<Rightarrow> string list \<Rightarrow> (string list \<times> verdict) option" and st code printed y
    assume "\<And>st code printed y. rec st code printed = Some y \<Longrightarrow> prev_windows_except_handler st \<noteq> Handle_windows_exception"
      and "(let printed = printed @ [windows_message code] in
        case prev_windows_except_handler st of
          No_filter \<Rightarrow> Some (printed, EXCEPTION_CONTINUE_SEARCH)
        | Handle_windows_exception \<Rightarrow> rec st code printed
        | Filter n \<Rightarrow> Some (printed, Verdict n)) = Some y"
    then show "prev_windows_except_handler st \<noteq> Handle_windows_exception"
      by (cases "prev_windows_except_handler st") (auto simp: Let_def)
  qed
  with assms show False by simp
qed

text \<open>
  On Windows the handler reports an exception once and passes on the verdict of the filter that
  was there before, and finalisation puts that filter back.  In a release build, where the
  assertion against it is empty, initialising twice makes the handler its own predecessor: it never
  returns.
\<close>

theorem windows_handler_chain:
  "\<exists>st1 st2. win_except_init NDebug st = Inr st1 \<and> win_except_init NDebug st1 = Inr st2 \<and>
     unhandled_filter (win_except_fini st1) = unhandled_filter st \<and>
     (\<forall>code. unhandled_filter st \<noteq> Handle_windows_exception \<longrightarrow>
        handle_windows_exception st1 code [] = Some ([windows_message code],
          case unhandled_filter st of Filter n \<Rightarrow> Verdict n | _ \<Rightarrow> EXCEPTION_CONTINUE_SEARCH)) \<and>
     (\<forall>code. handle_windows_exception st2 code [] = None)"
proof -
  define st1 where "st1 = st\<lparr>win_inited := True, prev_windows_except_handler := unhandled_filter st,
    unhandled_filter := Handle_windows_exception\<rparr>"
  define st2 where "st2 = st1\<lparr>prev_windows_except_handler := Handle_windows_exception\<rparr>"
  have "win_except_init NDebug st = Inr st1" "win_except_init NDebug st1 = Inr st2"
    by (simp_all add: win_except_init_def st1_def st2_def)
  moreover have "unhandled_filter (win_except_fini st1) = unhandled_filter st"
    by (simp add: win_except_fini_def st1_def)
  moreover have "handle_windows_exception st1 code [] = Some ([windows_message code],
      case unhandled_filter st of Filter n \<Rightarrow> Verdict n | _ \<Rightarrow> EXCEPTION_CONTINUE_SEARCH)"
    if "unhandled_filter st \<noteq> Handle_windows_exception" for code
    using that by (subst handle_windows_exception.simps) (auto simp: st1_def split: filter.split)
  moreover have "handle_windows_exception st2 code [] = None" for code
    by (rule own_handler_loops) (simp add: st2_def)
  ultimately show ?thesis by blast
qed

theorem windows_handler_chain_witness:
  "\<exists>st1. win_except_init NDebug \<lparr>win_inited = False, unhandled_filter = Filter 3, prev_windows_except_handler = No_filter\<rparr> = Inr st1 \<and>
     handle_windows_exception st1 EXCEPTION_BREAKPOINT [] = Some ([''Caught EXCEPTION_BREAKPOINT''], Verdict 3)"
  using windows_handler_chain [of "\<lparr>win_inited = False, unhandled_filter = Filter 3, prev_windows_except_handler = No_filter\<rparr>"]
  by (auto simp: windows_message_def)

end
