(* ===== verification/CC_Debug.thy ===== *)
theory CC_Debug
  imports CC_String CC_Log
begin

text \<open>
  Stack traces (src/debug.c): the POSIX routine that builds the text of a backtrace, and on Windows
  the search for the module and the symbol of an address.  What the operating system knows (the
  symbols of the frames, the loaded modules, the text of the symbol file) is an argument.
\<close>

section \<open>POSIX: the text of a backtrace\<close>

definition MAX_STACK_FRAMES :: nat where
  "MAX_STACK_FRAMES = 128"

definition BACKTRACE_STR :: "byte list" where
  "BACKTRACE_STR = 10 # bytes ''Backtrace is:'' @ [10]"

text \<open>Writing a string and its NUL at a place in a buffer.\<close>

definition put_str :: "buf \<Rightarrow> size_t \<Rightarrow> byte list \<Rightarrow> buf res" where
  "put_str b j s =
     (if unat j + length s < length b then
        Inr (take (unat j) b @ map Some s @ Some 0 # drop (unat j + length s + 1) b)
      else Inl OutOfBounds)"

function lines_length :: "byte list list \<Rightarrow> size_t \<Rightarrow> size_t \<Rightarrow> size_t" where
  "lines_length fnames i msg_len =
     (if i < of_nat (length fnames) then
        lines_length fnames (i + 1) (msg_len + of_nat (length (fnames ! unat i @ [10])))
      else msg_len)"
  by auto
termination
  by (relation "measure (\<lambda>(fnames, i, n). unat (of_nat (length fnames) :: size_t) - unat i)")
    (auto simp: unat_step word_less_nat_alt)

declare lines_length.simps [simp del]

function put_lines :: "byte list list \<Rightarrow> size_t \<Rightarrow> size_t \<Rightarrow> buf \<Rightarrow> buf res" where
  "put_lines fnames i j msg =
     (if i < of_nat (length fnames) then
        bindE (put_str msg j (fnames ! unat i @ [10])) (\<lambda>msg.
        put_lines fnames (i + 1) (j + of_nat (length (fnames ! unat i @ [10]))) msg)
      else Inr msg)"
  by auto
termination
  by (relation "measure (\<lambda>(fnames, i, j, msg). unat (of_nat (length fnames) :: size_t) - unat i)")
    (auto simp: unat_step word_less_nat_alt)

declare put_lines.simps [simp del]

text \<open>
  \<^term>\<open>symbols\<close> are the strings of \<^verbatim>\<open>backtrace_symbols\<close>, one per frame, of which
  \<^verbatim>\<open>backtrace\<close> gives at most \<^const>\<open>MAX_STACK_FRAMES\<close>; \<^verbatim>\<open>malloc\<close> succeeds.  The
  result is the message buffer and the calls of the printer.
\<close>

definition cc_print_stack :: "log_settings \<Rightarrow> byte list list \<Rightarrow> int \<Rightarrow> (buf \<times> print_call list) res" where
  "cc_print_stack st symbols skip_frames =
     (let fnames = take MAX_STACK_FRAMES symbols;
          first = word_of_int (1 + skip_frames);
          msg_len = lines_length fnames first (of_nat (length BACKTRACE_STR)) in
      bindE (put_str (replicate (unat (msg_len + 1)) None) 0 BACKTRACE_STR) (\<lambda>msg.
      bindE (put_lines fnames first (of_nat (length BACKTRACE_STR)) msg) (\<lambda>msg.
      bindE (read_str msg) (\<lambda>str.
      Inr (msg, the (cc_print st str))))))"

section \<open>Windows: modules\<close>

record module_info =
  mi_handle :: addr
  lpBaseOfDll :: addr
  SizeOfImage :: "32 word"

text \<open>
  The loop over the modules; the arrays have 1024 elements.  The result is the module and its base,
  both NULL when no module holds the address.
\<close>

function find_module_from :: "module_info list \<Rightarrow> 32 word \<Rightarrow> addr \<Rightarrow> 32 word \<Rightarrow> (addr \<times> addr) res" where
  "find_module_from mi num_modules pc i =
     (if i < num_modules then
        if unat i < length mi then
          let m = mi ! unat i; end_addr = lpBaseOfDll m + ucast (SizeOfImage m) in
          if lpBaseOfDll m \<le> pc \<and> end_addr > pc then Inr (mi_handle m, lpBaseOfDll m)
          else find_module_from mi num_modules pc (i + 1)
        else Inl OutOfBounds
      else Inr (NULL, 0))"
  by auto
termination
  by (relation "measure (\<lambda>(mi, n, pc, i). unat n - unat i)") (auto simp: unat_step word_less_nat_alt)

declare find_module_from.simps [simp del]

definition find_module :: "module_info list \<Rightarrow> 32 word \<Rightarrow> addr \<Rightarrow> (addr \<times> addr) res" where
  "find_module mi num_modules pc = find_module_from mi num_modules pc 0"

text \<open>
  \<^verbatim>\<open>EnumProcessModules\<close> stores the size of the list it would need, in bytes, where
  \<^verbatim>\<open>num_modules\<close> is; a module handle has 8 bytes.  The information of the first
  \<^verbatim>\<open>num_modules\<close> elements is then asked for; elements of the handle array past the modules
  are what they were before (\<^term>\<open>old\<close>).
\<close>

definition MAX_MODULES :: "32 word" where
  "MAX_MODULES = 1024"

definition gather_module_info :: "module_info list \<Rightarrow> module_info list \<Rightarrow> module_info list \<times> 32 word" where
  "gather_module_info old loaded =
     (let needed = of_nat (8 * length loaded) :: 32 word;
          num_modules = (if needed < MAX_MODULES then needed else MAX_MODULES) in
      (take (unat MAX_MODULES) (loaded @ drop (length loaded) old), num_modules))"

section \<open>A backtrace fits its buffer\<close>

definition trace_lines :: "byte list list \<Rightarrow> byte list" where
  "trace_lines fnames = concat (map (\<lambda>s. s @ [10]) fnames)"

lemma trace_lines_simps [simp]:
  "trace_lines [] = []" "trace_lines (s # ss) = s @ 10 # trace_lines ss"
  by (simp_all add: trace_lines_def)

lemma frame_index:
  assumes "k < length fnames" "length fnames \<le> 128"
  shows "(of_nat k :: size_t) < of_nat (length fnames)" "unat (of_nat k :: size_t) = k"
    "drop k fnames = fnames ! k # drop (Suc k) fnames"
  using assms by (simp_all add: word_less_nat_alt unat_of_nat_small Cons_nth_drop_Suc)

lemma past_last_frame:
  assumes "length fnames \<le> k" "k < 2 ^ 64"
  shows "\<not> (of_nat k :: size_t) < of_nat (length fnames)"
  using assms by (simp add: word_less_nat_alt unat_of_nat_small)

lemma lines_length_spec:
  assumes "length fnames \<le> 128" "k < 2 ^ 64"
  shows "lines_length fnames (of_nat k) n = n + of_nat (length (trace_lines (drop k fnames)))"
  using assms(2)
proof (induction "length fnames - k" arbitrary: k n)
  case 0
  then show ?case
    using past_last_frame [of fnames k] by (subst lines_length.simps) simp
next
  case (Suc m)
  then have "k < length fnames" by simp
  note ix = frame_index [OF this assms(1)]
  have "lines_length fnames (of_nat (Suc k)) n' = n' + of_nat (length (trace_lines (drop (Suc k) fnames)))" for n'
    using Suc.hyps(2) assms(1) by (intro Suc.hyps(1)) auto
  then show ?case
    by (subst lines_length.simps) (simp add: ix algebra_simps)
qed

lemma put_str_spec:
  assumes "length s \<le> length tail" "length pre < 2 ^ 64"
  shows "put_str (map Some pre @ x # tail) (of_nat (length pre)) s =
    Inr (map Some (pre @ s) @ Some 0 # drop (length s) tail)"
  using assms by (simp add: put_str_def unat_of_nat_small)

lemma put_lines_spec:
  assumes "length fnames \<le> 128" "k < 2 ^ 64" "length tail = length (trace_lines (drop k fnames))"
    and "length pre + length tail < 2 ^ 64"
  shows "put_lines fnames (of_nat k) (of_nat (length pre)) (map Some pre @ Some 0 # tail) =
    Inr (map Some (pre @ trace_lines (drop k fnames)) @ [Some 0])"
  using assms(2-)
proof (induction "length fnames - k" arbitrary: k pre tail)
  case 0
  then show ?case
    using past_last_frame [of fnames k] by (subst put_lines.simps) simp
next
  case (Suc m)
  then have "k < length fnames" by simp
  note ix = frame_index [OF this assms(1)]
  let ?l = "fnames ! k @ [10]"
  have len: "length ?l \<le> length tail"
    using Suc.prems(2) ix(3) by simp
  have "put_lines fnames (of_nat (Suc k)) (of_nat (length (pre @ ?l))) (map Some (pre @ ?l) @ Some 0 # drop (length ?l) tail) =
    Inr (map Some ((pre @ ?l) @ trace_lines (drop (Suc k) fnames)) @ [Some 0])"
    using Suc.hyps(2) Suc.prems ix(3) len assms(1) by (intro Suc.hyps(1)) auto
  moreover have "put_str (map Some pre @ Some 0 # tail) (of_nat (length pre)) ?l =
      Inr (map Some (pre @ ?l) @ Some 0 # drop (length ?l) tail)"
    using Suc.prems(3) by (intro put_str_spec len) simp
  ultimately show ?case
    using ix by (subst put_lines.simps) (simp add: algebra_simps)
qed

lemma print_stack_text:
  assumes "\<forall>s \<in> set symbols. is_cstr s" "- 1 \<le> skip" "skip < 2 ^ 31"
    and "length (trace_lines (take 128 symbols)) < 2 ^ 63"
  shows "cc_print_stack st symbols skip =
    (let str = BACKTRACE_STR @ trace_lines (drop (nat (1 + skip)) (take 128 symbols)) in
     Inr (cbuf str, [(log_printer st, str)]))"
proof -
  let ?f = "take 128 symbols" and ?k = "nat (1 + skip)"
  let ?text = "trace_lines (drop ?k ?f)"
  have k: "word_of_int (1 + skip) = (of_nat ?k :: size_t)"
    using assms(2) by (simp add: word_of_int_nat)
  have "?text = drop (length (trace_lines (take ?k ?f))) (trace_lines ?f)"
    by (metis append_eq_conv_conj append_take_drop_id concat_append map_append trace_lines_def)
  then have len: "length ?text < 2 ^ 63"
    using assms(4) by simp
  have str: "is_cstr (BACKTRACE_STR @ ?text)"
    using assms(1) by (auto simp: BACKTRACE_STR_def bytes_def is_cstr_def trace_lines_def dest!: in_set_dropD in_set_takeD)
  let ?n = "of_nat (length BACKTRACE_STR) :: size_t"
  have bs: "length BACKTRACE_STR = 15"
    by (simp add: BACKTRACE_STR_def bytes_def)
  have "lines_length ?f (of_nat ?k) ?n = of_nat (length (BACKTRACE_STR @ ?text))"
    using assms(3) by (subst lines_length_spec) simp_all
  then have cap: "unat (lines_length ?f (of_nat ?k) ?n + 1) = Suc (15 + length ?text)"
    using len unat_of_nat_small(2) [of "15 + length ?text"] by (simp add: bs)
  have "put_str (replicate (Suc (15 + length ?text)) None) 0 BACKTRACE_STR =
    Inr (map Some BACKTRACE_STR @ Some 0 # replicate (length ?text) None)"
    by (simp add: put_str_def bs)
  moreover have "put_lines ?f (of_nat ?k) ?n (map Some BACKTRACE_STR @ Some 0 # replicate (length ?text) None) =
    Inr (cbuf (BACKTRACE_STR @ ?text))"
    using assms(3) len bs by (subst put_lines_spec) (simp_all add: cbuf_def)
  ultimately show ?thesis
    unfolding cc_print_stack_def Let_def MAX_STACK_FRAMES_def k cap
    by (simp add: read_str_cbuf [OF str] cc_print_def del: replicate.simps)
qed

text \<open>
  Printing the stack never writes outside its message: the buffer is exactly as long as the
  heading, one line for every frame that is not skipped (at most 128 are looked at) and the NUL, and
  that is the text handed to the printer.
\<close>

theorem print_stack_fits:
  assumes "\<forall>s \<in> set symbols. is_cstr s" "- 1 \<le> skip" "skip < 2 ^ 31"
    and "length (trace_lines (take 128 symbols)) < 2 ^ 63"
  shows "cc_print_stack st symbols skip =
    (let str = BACKTRACE_STR @ trace_lines (drop (nat (1 + skip)) (take 128 symbols)) in
     Inr (cbuf str, [(log_printer st, str)]))"
  by (rule print_stack_text [OF assms])

theorem print_stack_fits_witness:
  "cc_print_stack settings [bytes ''a'', bytes ''b'', bytes ''c''] 1 =
    (let str = BACKTRACE_STR @ bytes ''c'' @ [10] in Inr (cbuf str, [(Default_printer, str)]))"
proof -
  have "\<forall>s \<in> set [bytes ''a'', bytes ''b'', bytes ''c'']. is_cstr s"
    by (simp add: bytes_def)
  moreover have "drop (nat (1 + 1)) (take 128 [bytes ''a'', bytes ''b'', bytes ''c'']) = [bytes ''c'']"
    by simp
  ultimately show ?thesis
    using print_stack_fits [of "[bytes ''a'', bytes ''b'', bytes ''c'']" 1 settings]
    by (simp add: bytes_def settings_def)
qed

section \<open>Finding a module\<close>

lemma find_append: "find P (xs @ ys) = (case find P xs of None \<Rightarrow> find P ys | Some x \<Rightarrow> Some x)"
  by (induction xs) auto

definition inside :: "addr \<Rightarrow> module_info \<Rightarrow> bool" where
  "inside pc m \<longleftrightarrow> lpBaseOfDll m \<le> pc \<and> pc < lpBaseOfDll m + ucast (SizeOfImage m)"

lemma find_module_from_spec:
  assumes "unat n \<le> length mi" "i \<le> n"
  shows "find_module_from mi n pc i =
    Inr (case find (inside pc) (drop (unat i) (take (unat n) mi)) of None \<Rightarrow> (NULL, 0) | Some m \<Rightarrow> (mi_handle m, lpBaseOfDll m))"
  using assms(2)
proof (induction "unat n - unat i" arbitrary: i)
  case 0
  then have "\<not> i < n" by (simp add: word_less_nat_alt)
  with 0 show ?case
    by (subst find_module_from.simps) simp
next
  case (Suc k)
  then have lt: "i < n" by (simp add: word_less_nat_alt)
  have len: "unat i < length (take (unat n) mi)"
    using lt assms(1) by (simp add: word_less_nat_alt)
  have "find_module_from mi n pc (i + 1) =
    Inr (case find (inside pc) (drop (unat (i + 1)) (take (unat n) mi)) of None \<Rightarrow> (NULL, 0) | Some m \<Rightarrow> (mi_handle m, lpBaseOfDll m))"
    using Suc.hyps(2) lt by (intro Suc.hyps(1)) (auto simp: unat_step inc_le)
  then show ?case
    using lt len assms(1) Cons_nth_drop_Suc [OF len]
    by (subst find_module_from.simps) (auto simp: Let_def inside_def unat_step simp flip: Cons_nth_drop_Suc [OF len])
qed

text \<open>
  Although \<^verbatim>\<open>num_modules\<close> is a number of bytes, not of modules, the search is right
  the first time the information is gathered: with at most 1024 modules loaded it answers with the
  first of them that holds the address, and with NULL when none does; it stays inside the arrays.
\<close>

theorem find_module_finds_first:
  assumes "length loaded \<le> 1024" "old = replicate 1024 \<lparr>mi_handle = NULL, lpBaseOfDll = 0, SizeOfImage = 0\<rparr>"
  shows "(case gather_module_info old loaded of (mi, n) \<Rightarrow> find_module mi n pc) =
    Inr (case find (inside pc) loaded of None \<Rightarrow> (NULL, 0) | Some m \<Rightarrow> (mi_handle m, lpBaseOfDll m))"
proof -
  define needed :: "32 word" where "needed = of_nat (8 * length loaded)"
  let ?n = "if needed < MAX_MODULES then needed else MAX_MODULES"
  let ?mi = "loaded @ replicate (1024 - length loaded) \<lparr>mi_handle = NULL, lpBaseOfDll = 0, SizeOfImage = 0\<rparr>"
  have u: "unat needed = 8 * length loaded"
    using assms(1) unfolding needed_def unat_of_nat by (simp add: take_bit_nat_eq_self_iff)
  have n: "unat ?n = min (8 * length loaded) 1024"
    using u by (auto simp: MAX_MODULES_def word_less_nat_alt)
  have mi: "take 1024 (loaded @ drop (length loaded) old) = ?mi"
    using assms by simp
  have none: "find (inside pc) (replicate k \<lparr>mi_handle = NULL, lpBaseOfDll = 0, SizeOfImage = 0\<rparr>) = None" for k
    by (auto simp: find_None_iff inside_def)
  have "take (unat ?n) ?mi = loaded @ replicate (unat ?n - length loaded) \<lparr>mi_handle = NULL, lpBaseOfDll = 0, SizeOfImage = 0\<rparr>"
    using assms(1) by (auto simp: n take_append min_def)
  then have "find (inside pc) (take (unat ?n) ?mi) = find (inside pc) loaded"
    by (simp add: find_append none split: option.split)
  moreover have "gather_module_info old loaded = (?mi, ?n)"
    using assms unfolding gather_module_info_def needed_def [symmetric] Let_def by (simp add: MAX_MODULES_def)
  ultimately show ?thesis
    using find_module_from_spec [of ?n ?mi 0 pc] assms(1) n by (simp add: find_module_def)
qed

definition no_module :: module_info where
  "no_module = \<lparr>mi_handle = NULL, lpBaseOfDll = 0, SizeOfImage = 0\<rparr>"

theorem find_module_finds_first_witness:
  "(case gather_module_info (replicate 1024 no_module) [\<lparr>mi_handle = 5, lpBaseOfDll = 0x1000, SizeOfImage = 0x100\<rparr>,
       \<lparr>mi_handle = 6, lpBaseOfDll = 0x4000, SizeOfImage = 0x200\<rparr>] of (mi, n) \<Rightarrow> find_module mi n 0x4010) = Inr (6, 0x4000)"
  using find_module_finds_first [of "[\<lparr>mi_handle = 5, lpBaseOfDll = 0x1000, SizeOfImage = 0x100\<rparr>,
       \<lparr>mi_handle = 6, lpBaseOfDll = 0x4000, SizeOfImage = 0x200\<rparr>]" "replicate 1024 no_module" "0x4010"]
  by (simp add: inside_def no_module_def del: replicate.simps)

end
