(* ===== verification/CC_Crash.thy ===== *)
theory CC_Crash
  imports CC_Except CC_Debug CC_Format
begin

text \<open>
  A crash, end to end: the handler of src/except.c prints through src/log.c and gets its stack trace
  from src/debug.c.  Here are the texts the printer receives, and what happens when the crash is
  inside the log.
\<close>

section \<open>From effects to the printer\<close>

text \<open>The numbers of the signals, and the text a format with one conversion at most expands to.\<close>

definition signo :: "posix_sig \<Rightarrow> nat" where
  "signo sig =
     (case sig of SIGINT \<Rightarrow> 2 | SIGILL \<Rightarrow> 4 | SIGABRT \<Rightarrow> 6 | SIGFPE \<Rightarrow> 8 | SIGSEGV \<Rightarrow> 11 | SIGTERM \<Rightarrow> 15
      | Other_signal n \<Rightarrow> n)"

fun arg_text :: "arg \<Rightarrow> byte list" where
  "arg_text No_arg = []"
| "arg_text (Ptr_arg p) = print_pointer p"
| "arg_text (Str_arg s) = bytes s"
| "arg_text (Sig_arg sig) = dec (signo sig)"

fun expand :: "byte list \<Rightarrow> arg \<Rightarrow> byte list" where
  "expand (c # d # fmt) a = (if c = 37 then arg_text a @ fmt else c # expand (d # fmt) a)"
| "expand fmt a = fmt"

text \<open>
  What the effects of a handler make the printer print; \<^term>\<open>symbols\<close> are the frames of the
  stack.
\<close>

fun perform :: "log_settings \<Rightarrow> byte list list \<Rightarrow> effect list \<Rightarrow> print_call list res" where
  "perform lg symbols [] = Inr []"
| "perform lg symbols (effect.Printf fmt a # es) =
     bindE (perform lg symbols es) (\<lambda>calls. Inr (the (cc_printf lg (expand (bytes fmt) a)) @ calls))"
| "perform lg symbols (Print_stack k # es) =
     bindE (cc_print_stack lg symbols k) (\<lambda>(msg, now).
     bindE (perform lg symbols es) (\<lambda>calls. Inr (now @ calls)))"
| "perform lg symbols (e # es) = perform lg symbols es"

text \<open>A crash: what is printed, and where control goes afterwards.\<close>

definition crash :: "log_settings \<Rightarrow> byte list list \<Rightarrow> except_state \<Rightarrow> posix_sig \<Rightarrow> siginfo \<Rightarrow>
    (print_call list \<times> effect list) res" where
  "crash lg symbols st sig info =
     bindE (handle_posix_sig st sig info) (\<lambda>effects.
     bindE (perform lg symbols effects) (\<lambda>calls.
     Inr (calls, filter (\<lambda>e. case e of Call_sigaction h \<Rightarrow> True | Call_handler h \<Rightarrow> True | Exit_failure \<Rightarrow> True | _ \<Rightarrow> False) effects)))"

section \<open>Properties\<close>

definition crash_text :: "posix_sig \<Rightarrow> siginfo \<Rightarrow> byte list" where
  "crash_text sig info =
     (case sig of
        SIGSEGV \<Rightarrow> bytes ''Caught SIGSEGV: segmentation fault ('' @ print_pointer (si_addr info) @ bytes '')''
      | SIGABRT \<Rightarrow> bytes ''Caught SIGABORT: abort ('' @ print_pointer (si_addr info) @ bytes '')''
      | SIGFPE \<Rightarrow> bytes ''Caught SIGFPE: floating point exception ('' @ bytes (sigfpe2str (si_code info)) @ bytes '')''
      | SIGILL \<Rightarrow> bytes ''Caught SIGILL: illegal instruction ('' @ bytes (sigill2str (si_code info)) @ bytes '')''
      | SIGTERM \<Rightarrow> bytes ''Caught SIGTERM: terminated''
      | _ \<Rightarrow> bytes ''Caught signal '' @ dec (signo sig))"

lemma message_text:
  assumes "signal_message sig info = effect.Printf fmt a"
  shows "expand (bytes fmt) a = crash_text sig info"
  using assms by (cases sig) (auto simp: signal_message_def crash_text_def bytes_def)



section \<open>A crash inside the log\<close>

text \<open>
  The handler runs on the thread that crashed, which goes on only when the handler is done; the first
  thing the handler does is to lock \<^verbatim>\<open>stream_mutex\<close>.
\<close>

fun of_thread :: "nat \<Rightarrow> log_action \<Rightarrow> bool" where
  "of_thread i (Call_log j c) \<longleftrightarrow> j = i"
| "of_thread i (Step_log j) \<longleftrightarrow> j = i"

definition report_can_start :: "logger \<Rightarrow> bool" where
  "report_can_start s \<longleftrightarrow> stream_mutex s = None"

lemma others_leave_mutex:
  assumes "log_exec a s = Some s'" "\<not> of_thread i a" "printing_owner s" "stream_mutex s = Some i"
  shows "stream_mutex s' = Some i"
proof (cases a)
  case (Step_log j)
  then have "j < length (lg_threads s) \<Longrightarrow> lg_threads s ! j \<noteq> Printing b c" for b c
    using assms(2-4) by (auto simp: printing_owner_def)
  then show ?thesis
    using assms(1,4) Step_log by (auto simp: step_log_def split: if_splits log_thread.splits list.splits)
qed (use assms in \<open>auto simp: call_log_def split: if_splits option.splits\<close>)



end
