(* ===== verification/CC_DebugWin.thy ===== *)
theory CC_DebugWin
  imports CC_Debug CC_Format
begin

text \<open>
  The backtraces of Windows (src/debug.c): the lookup of a symbol in the text file next to a module,
  the text of a frame, and the two routines that collect the frames in one static buffer.  What
  DbgHelp and the file system answer is an argument; \<^verbatim>\<open>static\<close> variables are state.
\<close>

section \<open>Numbers and strings\<close>

text \<open>\<^verbatim>\<open>%p\<close> on Windows, and \<^verbatim>\<open>%x\<close> or \<^verbatim>\<open>%lx\<close> of a value cast to 32 bits.\<close>

definition print_ptr :: "addr \<Rightarrow> byte list" where
  "print_ptr p = pad 16 48 (hex 65 (unat p))"

definition print_hex32 :: "addr \<Rightarrow> byte list" where
  "print_hex32 p = hex 97 (unat (ucast p :: 32 word))"

text \<open>The part of a string before the last occurrence of a character.\<close>

definition before_last :: "byte \<Rightarrow> byte list \<Rightarrow> byte list option" where
  "before_last c s = (if c \<in> set s then Some (rev (tl (dropWhile (\<lambda>d. d \<noteq> c) (rev s)))) else None)"

definition strncat :: "buf \<Rightarrow> byte list \<Rightarrow> nat \<Rightarrow> buf res" where
  "strncat dest s n = bindE (read_str dest) (\<lambda>d. put_str dest (of_nat (length d)) (take n s))"

section \<open>Symbols\<close>

definition MAX_PATH :: nat where "MAX_PATH = 260"
definition SYMNAME_MAXLEN :: nat where "SYMNAME_MAXLEN = 1023"

record sym_state =
  symstxtname :: buf
  prevptr :: addr
  image_base :: addr

definition sym_start :: sym_state where
  "sym_start = \<lparr>symstxtname = replicate MAX_PATH (Some 0), prevptr = NULL, image_base = NULL\<rparr>"

text \<open>The loop over the lines of the file: an address and a name each, up to the first other line.\<close>

fun scan_symbols :: "sym_state \<Rightarrow> addr \<Rightarrow> nat \<Rightarrow> byte list \<Rightarrow> (addr \<times> byte list) list \<Rightarrow> sym_state \<times> byte list" where
  "scan_symbols st ad cap prevsym [] = (st, [])"
| "scan_symbols st ad cap prevsym ((ptr, symb) # syms) =
     (if symb = bytes ''__image_base__'' then scan_symbols (st\<lparr>image_base := ptr\<rparr>) ad cap prevsym syms
      else
        let ptr = ptr - image_base st in
        if prevptr st \<le> ad \<and> ad < ptr then
          (st, snprintf cap (prevsym @ 43 # print_hex32 (ad - prevptr st)))
        else scan_symbols (st\<lparr>prevptr := ptr\<rparr>) ad cap (take SYMNAME_MAXLEN symb) syms)"

text \<open>\<^term>\<open>symfile\<close> maps the path of a symbol file to its lines.\<close>

definition find_symbol :: "build \<Rightarrow> (byte list \<Rightarrow> (addr \<times> byte list) list option) \<Rightarrow> sym_state \<Rightarrow> byte list \<Rightarrow> addr \<Rightarrow> nat \<Rightarrow>
    (sym_state \<times> byte list) res" where
  "find_symbol bd symfile st filename ad cap =
     (case before_last 92 filename of
        None \<Rightarrow> Inr (st, [])
      | Some dir \<Rightarrow>
          bindE (string_copy bd (symstxtname st) (cbuf filename)
            (if length dir + 1 < MAX_PATH then of_nat (length dir + 1) else of_nat MAX_PATH)) (\<lambda>path.
          bindE (strncat path (92 # bytes ''syms.txt'') MAX_PATH) (\<lambda>path.
          bindE (read_str path) (\<lambda>name.
          let st = st\<lparr>symstxtname := path\<rparr> in
          case symfile name of
            None \<Rightarrow> Inr (st, [])
          | Some syms \<Rightarrow> Inr (scan_symbols st ad cap [] syms)))))"

section \<open>Frames\<close>

text \<open>
  The answers of \<^verbatim>\<open>SymFromAddr\<close> (name and address), \<^verbatim>\<open>SymGetLineFromAddr64\<close> (file
  and line) and \<^verbatim>\<open>GetModuleFileNameA\<close>, the symbol files, and the modules.
\<close>

record win_env =
  sym_from_addr :: "addr \<Rightarrow> (byte list \<times> addr) option"
  line_from_addr :: "addr \<Rightarrow> (byte list \<times> int) option"
  module_file :: "addr \<Rightarrow> byte list"
  symbol_file :: "byte list \<Rightarrow> (addr \<times> byte list) list option"
  env_modules :: "module_info list"
  env_num_modules :: "32 word"

definition module_text :: "nat \<Rightarrow> addr \<Rightarrow> byte list \<Rightarrow> addr \<Rightarrow> byte list \<Rightarrow> byte list" where
  "module_text nr pc filename offset symname =
     dec nr @ 32 # print_ptr pc @ 32 # filename @ 43 # print_ptr offset @ bytes '' ('' @ symname @ bytes '')'' @ [10]"

definition module_frame :: "build \<Rightarrow> win_env \<Rightarrow> sym_state \<Rightarrow> nat \<Rightarrow> addr \<Rightarrow> addr \<Rightarrow> addr \<Rightarrow> (sym_state \<times> byte list) res" where
  "module_frame bd env st nr pc hmodule start =
     (let filename = module_file env hmodule in
      bindE (find_symbol bd (symbol_file env) st filename (pc - start) (SYMNAME_MAXLEN + 1)) (\<lambda>(st, symname).
      Inr (st, module_text nr pc filename (pc - start) symname)))"

definition frame_text :: "build \<Rightarrow> win_env \<Rightarrow> sym_state \<Rightarrow> nat \<Rightarrow> addr \<Rightarrow> (sym_state \<times> byte list) res" where
  "frame_text bd env st nr pc =
     (case sym_from_addr env pc of
        None \<Rightarrow>
          bindE (find_module (env_modules env) (env_num_modules env) pc) (\<lambda>(hmodule, start).
          if hmodule \<noteq> NULL then module_frame bd env st nr pc hmodule start
          else Inr (st, dec nr @ 32 # print_ptr pc @ bytes '' <unknown module>'' @ [10]))
      | Some (name, address) \<Rightarrow>
          (case line_from_addr env pc of
             Some (fname, line) \<Rightarrow>
               Inr (st, dec nr @ bytes '': '' @ name @ bytes '' (0x'' @ print_hex32 address @ bytes '') ['' @
                 fname @ 58 # print_int line @ bytes '']'' @ [10])
           | None \<Rightarrow> Inr (st, dec nr @ bytes '': '' @ name @ bytes '' - 0x'' @ print_hex32 address @ [10])))"

definition frame_text_sw64 :: "build \<Rightarrow> win_env \<Rightarrow> sym_state \<Rightarrow> nat \<Rightarrow> addr \<Rightarrow> (sym_state \<times> byte list) res" where
  "frame_text_sw64 bd env st nr pc =
     bindE (find_module (env_modules env) (env_num_modules env) pc) (\<lambda>(hmodule, start).
     module_frame bd env st nr pc hmodule start)"

section \<open>The buffer\<close>

definition MAX_BACKTRACE_LEN :: nat where
  "MAX_BACKTRACE_LEN = 64 * 1024"

text \<open>\<^verbatim>\<open>snprintf\<close> behind the text that is there, with the room that is left.\<close>

definition append_text :: "buf \<Rightarrow> byte list \<Rightarrow> buf res" where
  "append_text b s =
     bindE (read_str b) (\<lambda>d. put_str b (of_nat (length d)) (snprintf (length b - length d) s))"

fun append_frames :: "(sym_state \<Rightarrow> nat \<Rightarrow> addr \<Rightarrow> (sym_state \<times> byte list) res) \<Rightarrow> sym_state \<Rightarrow> nat \<Rightarrow> addr list \<Rightarrow> buf \<Rightarrow>
    (sym_state \<times> buf) res" where
  "append_frames text st nr [] b = Inr (st, b)"
| "append_frames text st nr (pc # pcs) b =
     bindE (text st nr pc) (\<lambda>(st, s).
     bindE (append_text b s) (\<lambda>b.
     append_frames text st (nr + 1) pcs b))"

text \<open>
  The stack has at most \<^const>\<open>MAX_STACK_FRAMES\<close> frames.  The first routine prints to the log and to
  \<^verbatim>\<open>stderr\<close>, the second to the log.
\<close>

definition cc_print_stack_windows :: "build \<Rightarrow> log_settings \<Rightarrow> win_env \<Rightarrow> sym_state \<Rightarrow> buf \<Rightarrow> addr list \<Rightarrow>
    (sym_state \<times> buf \<times> print_call list \<times> byte list) res" where
  "cc_print_stack_windows bd lg env st backtrace_buf stack =
     bindE (wr backtrace_buf 0 0) (\<lambda>b.
     bindE (string_copy bd b (cbuf BACKTRACE_STR) (of_nat (length b))) (\<lambda>b.
     bindE (append_frames (frame_text bd env) st 0 (take MAX_STACK_FRAMES stack) b) (\<lambda>(st, b).
     bindE (read_str b) (\<lambda>str.
     Inr (st, b, the (cc_print lg str), str)))))"

definition cc_print_stack_sw64 :: "build \<Rightarrow> log_settings \<Rightarrow> win_env \<Rightarrow> sym_state \<Rightarrow> buf \<Rightarrow> addr list \<Rightarrow>
    (sym_state \<times> buf \<times> print_call list) res" where
  "cc_print_stack_sw64 bd lg env st backtrace_buf pcs =
     bindE (wr backtrace_buf 0 0) (\<lambda>b.
     bindE (string_copy bd b (cbuf BACKTRACE_STR) (of_nat (length b))) (\<lambda>b.
     bindE (append_frames (frame_text_sw64 bd env) st 0 (take MAX_STACK_FRAMES pcs) b) (\<lambda>(st, b).
     bindE (read_str b) (\<lambda>str.
     Inr (st, b, the (cc_print lg str))))))"

section \<open>The buffer is never left\<close>

lemma dec_cstr: "is_cstr (dec n)"
proof (induction n rule: dec.induct)
  case (1 n)
  have "48 + of_nat d \<noteq> (0 :: byte)" if "d < 10" for d
    using digit_byte(1) [OF that] by auto
  with 1 show ?case
    by (subst dec.simps) (cases "n < 10"; simp)
qed

lemma hex_digit_nonzero:
  assumes "d < 16" "letter = 65 \<or> letter = 97"
  shows "hex_digit letter d \<noteq> 0"
proof (cases "d < 10")
  case True
  then show ?thesis
    using digit_byte(1) [of d] by (auto simp: hex_digit_def)
next
  case False
  then obtain k where k: "d = 10 + k" "k < 6"
    using assms(1) by (intro that [of "d - 10"]) auto
  have "unat (of_nat k :: byte) = k"
    using k(2) by (simp add: unat_of_nat take_bit_nat_eq_self_iff)
  then have "unat (letter + of_nat k) \<noteq> 0"
    using assms(2) k(2) by (auto simp: unat_word_ariths)
  moreover have "hex_digit letter d = letter + of_nat k"
    by (simp add: hex_digit_def k(1))
  ultimately show ?thesis
    by (metis unat_0)
qed

lemma hex_cstr: "letter = 65 \<or> letter = 97 \<Longrightarrow> is_cstr (hex letter n)"
proof (induction letter n rule: hex.induct)
  case (1 letter n)
  then show ?case
    using hex_digit_nonzero [of n letter] hex_digit_nonzero [of "n mod 16" letter]
    by (subst hex.simps) (cases "n < 16"; simp)
qed

lemma printed_cstr [simp]:
  "is_cstr (dec n)" "is_cstr (print_ptr p)" "is_cstr (print_hex32 p)" "is_cstr (print_int i)"
  using dec_cstr hex_cstr [of 65] hex_cstr [of 97]
  by (auto simp: print_ptr_def print_hex32_def print_int_def pad_def is_cstr_def)

lemma snprintf_cstr: "is_cstr s \<Longrightarrow> is_cstr (snprintf n s)"
  by (simp add: snprintf_def is_cstr_take)

lemma append_text_spec:
  assumes "read_str b = Inr d" "is_cstr s" "length b < 2 ^ 64"
  shows "\<exists>b'. append_text b s = Inr b' \<and> length b' = length b \<and> read_str b' = Inr (take (length b - 1) (d @ s))"
proof -
  obtain r where b: "b = map Some d @ Some 0 # r" and d: "is_cstr d"
    using assms(1) by (auto simp: read_str_iff)
  let ?t = "snprintf (length b - length d) s"
  have len: "length d < 2 ^ 64"
    using assms(3) b by simp
  have t: "length ?t \<le> length r"
    by (simp add: snprintf_def b)
  have "put_str b (of_nat (length d)) ?t = Inr (map Some (d @ ?t) @ Some 0 # drop (length ?t) r)"
    using put_str_spec [OF t len] by (simp add: b)
  moreover have "take (length b - 1) (d @ s) = d @ ?t"
    by (simp add: snprintf_def b)
  moreover have "is_cstr (d @ ?t)"
    using d snprintf_cstr [OF assms(2)] by simp
  moreover have "append_text b s = put_str b (of_nat (length d)) ?t"
    by (simp add: append_text_def assms(1))
  ultimately show ?thesis
    using t by (intro exI [of _ "map Some (d @ ?t) @ Some 0 # drop (length ?t) r"]) (auto simp: read_str_iff b)
qed

lemma take_take_append: "take n (take n xs @ ys) = take n (xs @ ys)"
  by (cases "n \<le> length xs") simp_all

text \<open>The texts of the frames, on their own.\<close>

fun frame_texts :: "(sym_state \<Rightarrow> nat \<Rightarrow> addr \<Rightarrow> (sym_state \<times> byte list) res) \<Rightarrow> sym_state \<Rightarrow> nat \<Rightarrow> addr list \<Rightarrow>
    (sym_state \<times> byte list list) res" where
  "frame_texts text st nr [] = Inr (st, [])"
| "frame_texts text st nr (pc # pcs) =
     bindE (text st nr pc) (\<lambda>(st, s).
     bindE (frame_texts text st (nr + 1) pcs) (\<lambda>(st, ss). Inr (st, s # ss)))"

lemma append_frames_spec:
  assumes "frame_texts text st nr pcs = Inr (st', ts)" "\<forall>t \<in> set ts. is_cstr t"
    and "read_str b = Inr d" "length b < 2 ^ 64" "length d < length b"
  shows "\<exists>b'. append_frames text st nr pcs b = Inr (st', b') \<and> length b' = length b \<and>
    read_str b' = Inr (take (length b - 1) (d @ concat ts))"
  using assms
proof (induction pcs arbitrary: st nr b d ts)
  case Nil
  then show ?case by simp
next
  case (Cons pc pcs)
  then obtain st1 s ss where s: "text st nr pc = Inr (st1, s)"
    and ss: "frame_texts text st1 (nr + 1) pcs = Inr (st', ss)" and ts: "ts = s # ss"
    by (auto simp: bindE_eq_Inr)
  obtain b1 where b1: "append_text b s = Inr b1" "length b1 = length b" "read_str b1 = Inr (take (length b - 1) (d @ s))"
    using append_text_spec [OF Cons.prems(3) _ Cons.prems(4)] Cons.prems(2) ts by auto
  have "take (length b - 1) (take (length b - 1) (d @ s) @ concat ss) = take (length b - 1) (d @ concat ts)"
    using take_take_append [of "length b - 1" "d @ s"] by (simp add: ts del: take_append)
  then show ?case
    using Cons.IH [OF ss _ b1(3)] Cons.prems b1 ts s by (auto simp: min_def split: if_splits)
qed


text \<open>The search for a symbol, as long as the name of the symbol file fits.\<close>

lemma before_last_split:
  assumes "before_last c s = Some dir"
  shows "\<exists>t. s = dir @ c # t"
proof -
  have c: "c \<in> set s" and dir: "dir = rev (tl (dropWhile (\<lambda>d. d \<noteq> c) (rev s)))"
    using assms by (auto simp: before_last_def split: if_splits)
  obtain t where "dropWhile (\<lambda>d. d \<noteq> c) (rev s) = c # t"
    using c hd_dropWhile [of "\<lambda>d. d \<noteq> c" "rev s"] dropWhile_eq_Nil_conv [of "\<lambda>d. d \<noteq> c" "rev s"]
    by (cases "dropWhile (\<lambda>d. d \<noteq> c) (rev s)") auto
  then have "rev s = takeWhile (\<lambda>d. d \<noteq> c) (rev s) @ c # rev dir"
    by (metis dir list.sel(3) rev_rev_ident takeWhile_dropWhile_id)
  then have "s = dir @ c # rev (takeWhile (\<lambda>d. d \<noteq> c) (rev s))"
    by (metis append_assoc append_Cons append_Nil rev.simps(2) rev_append rev_rev_ident)
  then show ?thesis by blast
qed

lemma scan_symbols_spec:
  "\<lbrakk>is_cstr prevsym; \<forall>(p, s) \<in> set syms. is_cstr s\<rbrakk> \<Longrightarrow>
    symstxtname (fst (scan_symbols st ad cap prevsym syms)) = symstxtname st \<and> is_cstr (snd (scan_symbols st ad cap prevsym syms))"
proof (induction st ad cap prevsym syms rule: scan_symbols.induct)
  case (2 st ad cap prevsym ptr symb syms)
  then show ?case
    using snprintf_cstr [of "prevsym @ 43 # print_hex32 (ad - prevptr st)" cap]
    by (auto simp: Let_def is_cstr_take)
qed simp

lemma symbol_path:
  assumes "is_cstr filename" "length buf = MAX_PATH" "length dir \<le> 259"
  shows "\<exists>b r. string_copy bd buf (cbuf filename)
      (if length dir + 1 < MAX_PATH then of_nat (length dir + 1) else of_nat MAX_PATH) = Inr b \<and>
    length b = MAX_PATH \<and> read_str b = Inr (take (length dir) filename) \<and>
    b = map Some (take (length dir) filename) @ Some 0 # r"
proof -
  let ?cap = "if length dir + 1 < MAX_PATH then of_nat (length dir + 1) else of_nat MAX_PATH :: size_t"
  have cap: "unat ?cap = Suc (length dir)"
    using assms(3) unat_of_nat_small(1) [of "length dir + 1"] by (simp add: MAX_PATH_def flip: of_nat_Suc del: of_nat_Suc)
  then have "?cap \<noteq> 0" "unat ?cap \<le> length buf"
    using assms(2,3) by (auto simp: MAX_PATH_def simp del: of_nat_Suc)
  from string_copy_string [OF assms(1) this, of bd "[]"] cap assms(2) show ?thesis
    by (auto simp: cbuf_def read_str_iff)
qed

lemma syms_txt: "length (92 # bytes ''syms.txt'') = 9" "is_cstr (92 # bytes ''syms.txt'')"
  by (simp_all add: bytes_def)

lemma find_symbol_ok:
  assumes "is_cstr filename" "length (symstxtname st) = MAX_PATH"
    and "\<And>dir. before_last 92 filename = Some dir \<Longrightarrow> length dir \<le> 250"
    and "\<And>name syms. symfile name = Some syms \<Longrightarrow> \<forall>(p, s) \<in> set syms. is_cstr s"
  shows "\<exists>st' s. find_symbol bd symfile st filename ad cap = Inr (st', s) \<and> length (symstxtname st') = MAX_PATH \<and> is_cstr s"
proof (cases "before_last 92 filename")
  case None
  then show ?thesis
    using assms(2) by (simp add: find_symbol_def)
next
  case (Some dir)
  let ?d = "take (length dir) filename"
  have dir: "length dir \<le> 250"
    using assms(3) Some by blast
  obtain b r where b: "string_copy bd (symstxtname st) (cbuf filename)
      (if length dir + 1 < MAX_PATH then of_nat (length dir + 1) else of_nat MAX_PATH) = Inr b"
      "length b = MAX_PATH" "read_str b = Inr ?d" "b = map Some ?d @ Some 0 # r"
    using symbol_path [OF assms(1,2), of dir bd] dir by auto
  have d: "length ?d \<le> 250" "is_cstr ?d"
    using dir assms(1) is_cstr_take by auto
  have r: "length r = 259 - length ?d"
    using arg_cong [OF b(4), of length] b(2) by (simp add: MAX_PATH_def)
  then have "9 \<le> length r"
    using d(1) by simp
  then have t: "take MAX_PATH (92 # bytes ''syms.txt'') = 92 # bytes ''syms.txt''" "length (92 # bytes ''syms.txt'') \<le> length r"
    by (simp_all add: MAX_PATH_def bytes_def)
  let ?p = "map Some (?d @ 92 # bytes ''syms.txt'') @ Some 0 # drop (length (92 # bytes ''syms.txt'')) r"
  have "length ?d < 2 ^ 64"
    using d(1) by simp
  then have "put_str b (of_nat (length ?d)) (92 # bytes ''syms.txt'') = Inr ?p"
    using put_str_spec [OF t(2), of ?d "Some 0"] by (simp only: b(4))
  then have p: "strncat b (92 # bytes ''syms.txt'') MAX_PATH = Inr ?p"
    by (simp only: strncat_def b(3) bindE_simps t(1))
  have "read_str ?p = Inr (?d @ 92 # bytes ''syms.txt'')"
    using d(2) syms_txt(2) unfolding read_str_iff is_cstr_simps(3) by blast
  moreover have "length ?p = MAX_PATH"
    using r d(1) t(2) syms_txt(1) by (simp add: MAX_PATH_def)
  ultimately obtain path name where path: "strncat b (92 # bytes ''syms.txt'') MAX_PATH = Inr path"
      "length path = MAX_PATH" "read_str path = Inr name"
    using p by blast
  let ?st = "st\<lparr>symstxtname := path\<rparr>"
  have "find_symbol bd symfile st filename ad cap =
      (case symfile name of None \<Rightarrow> Inr (?st, []) | Some syms \<Rightarrow> Inr (scan_symbols ?st ad cap [] syms))"
    by (simp only: find_symbol_def Some option.case b(1) bindE_simps path Let_def)
  then show ?thesis
    using assms(4) path(2) scan_symbols_spec [of "[]" "the (symfile name)" ?st ad cap]
    by (cases "symfile name"; cases "scan_symbols ?st ad cap [] (the (symfile name))") simp_all
qed

section \<open>Properties\<close>

text \<open>What is asked of the operating system's answers: strings, and directories that fit.\<close>

definition env_ok :: "win_env \<Rightarrow> bool" where
  "env_ok env \<longleftrightarrow>
     (\<forall>pc name a. sym_from_addr env pc = Some (name, a) \<longrightarrow> is_cstr name) \<and>
     (\<forall>pc name l. line_from_addr env pc = Some (name, l) \<longrightarrow> is_cstr name) \<and>
     (\<forall>h. is_cstr (module_file env h) \<and> (\<forall>dir. before_last 92 (module_file env h) = Some dir \<longrightarrow> length dir \<le> 250)) \<and>
     (\<forall>name syms. symbol_file env name = Some syms \<longrightarrow> (\<forall>(p, s) \<in> set syms. is_cstr s)) \<and>
     unat (env_num_modules env) \<le> length (env_modules env)"

lemma module_frame_ok:
  assumes "env_ok env" "length (symstxtname st) = MAX_PATH"
  shows "\<exists>st' s. module_frame bd env st nr pc h start = Inr (st', s) \<and> length (symstxtname st') = MAX_PATH \<and> is_cstr s"
proof -
  obtain st' s where "find_symbol bd (symbol_file env) st (module_file env h) (pc - start) (SYMNAME_MAXLEN + 1) = Inr (st', s)"
      "length (symstxtname st') = MAX_PATH" "is_cstr s"
    using assms find_symbol_ok [of "module_file env h" st "symbol_file env" bd "pc - start" "SYMNAME_MAXLEN + 1"]
    by (auto simp: env_ok_def)
  then show ?thesis
    using assms(1) by (simp add: module_frame_def module_text_def env_ok_def bytes_def)
qed

lemma find_module_ok:
  assumes "env_ok env"
  shows "\<exists>h start. find_module (env_modules env) (env_num_modules env) pc = Inr (h, start)"
  using find_module_from_spec [of "env_num_modules env" "env_modules env" 0 pc] assms
  by (auto simp: find_module_def env_ok_def split: option.split)

definition frames_ok :: "(sym_state \<Rightarrow> nat \<Rightarrow> addr \<Rightarrow> (sym_state \<times> byte list) res) \<Rightarrow> bool" where
  "frames_ok text \<longleftrightarrow> (\<forall>st nr pc. length (symstxtname st) = MAX_PATH \<longrightarrow>
     (\<exists>st' s. text st nr pc = Inr (st', s) \<and> length (symstxtname st') = MAX_PATH \<and> is_cstr s))"

lemma frames_ok_windows: "env_ok env \<Longrightarrow> frames_ok (frame_text bd env)"
  unfolding frames_ok_def
proof (intro allI impI)
  fix st :: sym_state and nr pc
  assume env: "env_ok env" and st: "length (symstxtname st) = MAX_PATH"
  obtain h start where "find_module (env_modules env) (env_num_modules env) pc = Inr (h, start)"
    using find_module_ok [OF env] by blast
  then show "\<exists>st' s. frame_text bd env st nr pc = Inr (st', s) \<and> length (symstxtname st') = MAX_PATH \<and> is_cstr s"
    using st module_frame_ok [OF env st, of bd nr pc h start] env
    by (auto simp: frame_text_def env_ok_def bytes_def split: option.split)
qed

lemma frames_ok_sw64: "env_ok env \<Longrightarrow> frames_ok (frame_text_sw64 bd env)"
  unfolding frames_ok_def frame_text_sw64_def
  by (metis (no_types, lifting) find_module_ok module_frame_ok bindE_simps(2) case_prod_conv)

lemma frame_texts_ok:
  assumes "frames_ok text" "length (symstxtname st) = MAX_PATH"
  shows "\<exists>st' ts. frame_texts text st nr pcs = Inr (st', ts) \<and> (\<forall>t \<in> set ts. is_cstr t)"
  using assms(2)
proof (induction pcs arbitrary: st nr)
  case (Cons pc pcs)
  obtain st1 s where s: "text st nr pc = Inr (st1, s)" "length (symstxtname st1) = MAX_PATH" "is_cstr s"
    using assms(1) Cons.prems unfolding frames_ok_def by blast
  obtain st' ts where "frame_texts text st1 (nr + 1) pcs = Inr (st', ts)" "\<forall>t \<in> set ts. is_cstr t"
    using Cons.IH [OF s(2)] by blast
  with s show ?case by simp
qed simp

text \<open>Heading and frames, in either routine.\<close>

lemma trace_fits:
  assumes "frames_ok text" "length (symstxtname st) = MAX_PATH" "length buf = MAX_BACKTRACE_LEN"
  shows "\<exists>b0 b1 b st' ts. wr buf 0 0 = Inr b0 \<and>
    string_copy bd b0 (cbuf BACKTRACE_STR) (of_nat (length b0)) = Inr b1 \<and>
    append_frames text st 0 pcs b1 = Inr (st', b) \<and> length b = MAX_BACKTRACE_LEN \<and>
    frame_texts text st 0 pcs = Inr (st', ts) \<and>
    read_str b = Inr (take (MAX_BACKTRACE_LEN - 1) (BACKTRACE_STR @ concat ts))"
proof -
  let ?b0 = "buf[0 := Some 0]"
  have b0: "wr buf 0 0 = Inr ?b0" "length ?b0 = MAX_BACKTRACE_LEN"
    using assms(3) by (simp_all add: wr_def MAX_BACKTRACE_LEN_def)
  have bt: "is_cstr BACKTRACE_STR" "length BACKTRACE_STR = 15"
    by (simp_all add: BACKTRACE_STR_def bytes_def)
  have cap: "unat (of_nat (length ?b0) :: size_t) = MAX_BACKTRACE_LEN" "(of_nat (length ?b0) :: size_t) \<noteq> 0"
    using b0(2) by (simp_all add: MAX_BACKTRACE_LEN_def)
  obtain b1 where b1: "string_copy bd ?b0 (cbuf BACKTRACE_STR) (of_nat (length ?b0)) = Inr b1"
      "length b1 = MAX_BACKTRACE_LEN" "read_str b1 = Inr BACKTRACE_STR"
    using string_copy_string [OF bt(1) cap(2), of ?b0 bd "[]"] bt(2) cap(1) b0(2)
    by (auto simp: cbuf_def MAX_BACKTRACE_LEN_def)
  obtain st' ts where ts: "frame_texts text st 0 pcs = Inr (st', ts)" "\<forall>t \<in> set ts. is_cstr t"
    using frame_texts_ok [OF assms(1,2)] by blast
  have "length b1 < 2 ^ 64" "length BACKTRACE_STR < length b1"
    using b1(2) bt(2) by (simp_all add: MAX_BACKTRACE_LEN_def)
  from append_frames_spec [OF ts b1(3) this] b0 b1 ts(1) show ?thesis
    by auto
qed


definition sample_env :: win_env where
  "sample_env = \<lparr>sym_from_addr = (\<lambda>pc. None), line_from_addr = (\<lambda>pc. None),
     module_file = (\<lambda>h. bytes ''c'' @ 92 # bytes ''a.exe''), symbol_file = (\<lambda>name. None),
     env_modules = [\<lparr>mi_handle = 5, lpBaseOfDll = 0x1000, SizeOfImage = 0x100\<rparr>], env_num_modules = 1\<rparr>"

lemma sample_env_ok: "env_ok sample_env"
  by (auto simp: env_ok_def sample_env_def bytes_def before_last_def)


text \<open>
  \<^verbatim>\<open>strncat\<close> is told the size of its whole buffer, not of what is left of it: a module whose
  directory has 251 characters or more (\<^verbatim>\<open>MAX_PATH\<close> allows 258) makes the search for its
  symbols write past the end of the path.
\<close>

theorem find_symbol_overruns:
  assumes "is_cstr filename" "length filename < MAX_PATH" "length (symstxtname st) = MAX_PATH"
    and "before_last 92 filename = Some dir" "251 \<le> length dir"
  shows "find_symbol bd symfile st filename ad cap = Inl OutOfBounds"
proof -
  obtain t where t: "filename = dir @ 92 # t"
    using before_last_split [OF assms(4)] by blast
  then have dir: "length dir \<le> 259"
    using assms(2) by (simp add: MAX_PATH_def)
  obtain b where b: "string_copy bd (symstxtname st) (cbuf filename)
      (if length dir + 1 < MAX_PATH then of_nat (length dir + 1) else of_nat MAX_PATH) = Inr b"
      "length b = MAX_PATH" "read_str b = Inr dir"
    using symbol_path [OF assms(1,3) dir, of bd] t by auto
  have "take MAX_PATH (92 # bytes ''syms.txt'') = 92 # bytes ''syms.txt''"
    by (simp add: MAX_PATH_def bytes_def)
  moreover have "put_str b (of_nat (length dir)) (92 # bytes ''syms.txt'') = Inl OutOfBounds"
    using b(2) dir assms(5) syms_txt(1) unat_of_nat_small(1) [of "length dir"]
    by (simp add: put_str_def MAX_PATH_def)
  ultimately have "strncat b (92 # bytes ''syms.txt'') MAX_PATH = Inl OutOfBounds"
    by (simp only: strncat_def b(3) bindE_simps)
  then show ?thesis
    by (simp only: find_symbol_def assms(4) option.case b(1) bindE_simps)
qed

theorem find_symbol_overruns_witness:
  "find_symbol Debug (\<lambda>name. None) sym_start (replicate 251 97 @ 92 # bytes ''a.dll'') 0x10 1024 = Inl OutOfBounds"
proof -
  let ?f = "replicate 251 97 @ 92 # bytes ''a.dll'' :: byte list"
  have "is_cstr ?f"
    by (auto simp: is_cstr_def bytes_def)
  moreover have "length ?f < MAX_PATH"
    by (simp add: MAX_PATH_def bytes_def)
  moreover have "before_last 92 ?f = Some (replicate 251 97)"
    by (simp add: before_last_def bytes_def)
  ultimately show ?thesis
    using find_symbol_overruns [of ?f sym_start "replicate 251 97" Debug "\<lambda>name. None" "0x10" 1024] by (simp add: sym_start_def)
qed

end
