(* ===== verification/CC_Calendar.thy ===== *)
theory CC_Calendar
  imports CC_Format
begin

text \<open>
  Dates (src/format.c): the calendar of \<^verbatim>\<open>gmtime\<close>, its agreement with a count of the days
  of years and months, and \<^verbatim>\<open>format_date\<close>.
\<close>

section \<open>The calendar\<close>

text \<open>The fields of \<^verbatim>\<open>struct tm\<close>: years since 1900, months from 0, days from 1.\<close>

datatype tm_date = Tm (tm_year: int) (tm_mon: nat) (tm_mday: int)

definition leap :: "int \<Rightarrow> bool" where
  "leap y \<longleftrightarrow> y mod 4 = 0 \<and> (y mod 100 \<noteq> 0 \<or> y mod 400 = 0)"

definition month_days :: "int \<Rightarrow> nat \<Rightarrow> int" where
  "month_days y m =
     (if m = 1 then (if leap y then 29 else 28) else if m \<in> {3, 5, 8, 10} then 30 else 31)"

definition valid_date :: "tm_date \<Rightarrow> bool" where
  "valid_date t \<longleftrightarrow> tm_mon t < 12 \<and> 1 \<le> tm_mday t \<and> tm_mday t \<le> month_days (tm_year t + 1900) (tm_mon t)"

text \<open>Days since the first of January 1970: those of the years, the months and the month.\<close>

definition year_start :: "int \<Rightarrow> int" where
  "year_start y = 365 * (y - 1970) + ((y - 1) div 4 - (y - 1) div 100 + (y - 1) div 400) - 477"

fun month_start :: "int \<Rightarrow> nat \<Rightarrow> int" where
  "month_start y 0 = 0"
| "month_start y (Suc m) = month_start y m + month_days y m"

definition day_number :: "tm_date \<Rightarrow> int" where
  "day_number t = year_start (tm_year t + 1900) + month_start (tm_year t + 1900) (tm_mon t) + tm_mday t - 1"

text \<open>The year of a day and the day in it, by the cycles of 400, 100, 4 and 1 years.\<close>

definition split_year :: "int \<Rightarrow> int \<times> int" where
  "split_year z =
     (let z = z + 719162;
          n400 = z div 146097; z = z mod 146097;
          n100 = min 3 (z div 36524); z = z - n100 * 36524;
          n4 = z div 1461; z = z mod 1461;
          n1 = min 3 (z div 365) in
      (400 * n400 + 100 * n100 + 4 * n4 + n1 + 1, z - 365 * n1))"

function split_month :: "int \<Rightarrow> nat \<Rightarrow> int \<Rightarrow> nat \<times> int" where
  "split_month y m d =
     (if m < 11 \<and> month_days y m \<le> d then split_month y (Suc m) (d - month_days y m) else (m, d))"
  by auto
termination
  by (relation "measure (\<lambda>(y, m, d). 11 - m)") auto

declare split_month.simps [simp del]

definition date_of_day :: "int \<Rightarrow> tm_date" where
  "date_of_day z =
     (let (y, d) = split_year z; (m, d) = split_month y 0 d in Tm (y - 1900) m (d + 1))"

text \<open>There is no answer when the year does not fit an \<^verbatim>\<open>int\<close>.\<close>

definition gmtime_date :: "int \<Rightarrow> tm_date res" where
  "gmtime_date t =
     (if - 67768040609740800 \<le> t \<and> t \<le> 67768036191676799 then Inr (date_of_day (t div 86400)) else Inl BadDeref)"

definition month_names :: "byte list list" where
  "month_names = map bytes [''Jan'', ''Feb'', ''Mar'', ''Apr'', ''May'', ''Jun'', ''Jul'', ''Aug'', ''Sep'', ''Oct'', ''Nov'', ''Dec'']"

definition format_date :: "int \<Rightarrow> size_t \<Rightarrow> byte list option res" where
  "format_date t n =
     bindE (gmtime_date t) (\<lambda>tm.
     Inr (strftime_store n (pad 2 48 (dec (nat (tm_mday tm))) @ 45 # month_names ! tm_mon tm @
       45 # pad 2 48 (dec (nat (tm_year tm mod 100))))))"

section \<open>The order of dates\<close>

instantiation tm_date :: linorder
begin

definition less_eq_tm_date :: "tm_date \<Rightarrow> tm_date \<Rightarrow> bool" where
  "less_eq_tm_date s t \<longleftrightarrow> tm_year s < tm_year t \<or>
     tm_year s = tm_year t \<and> (tm_mon s < tm_mon t \<or> tm_mon s = tm_mon t \<and> tm_mday s \<le> tm_mday t)"

definition less_tm_date :: "tm_date \<Rightarrow> tm_date \<Rightarrow> bool" where
  "less_tm_date s t \<longleftrightarrow> tm_year s < tm_year t \<or>
     tm_year s = tm_year t \<and> (tm_mon s < tm_mon t \<or> tm_mon s = tm_mon t \<and> tm_mday s < tm_mday t)"

instance
  by standard (auto simp: less_eq_tm_date_def less_tm_date_def intro: tm_date.expand)

end

section \<open>Days and dates\<close>

definition year_days :: "int \<Rightarrow> int" where
  "year_days y = (if leap y then 366 else 365)"

lemma div_pred:
  assumes "0 < (k :: int)"
  shows "y div k = (y - 1) div k + (if y mod k = 0 then 1 else 0)"
proof (cases "y mod k = 0")
  case True
  then have "y - 1 = k * (y div k - 1) + (k - 1)"
    using div_mult_mod_eq [of y k] by (simp add: algebra_simps)
  then have "(y - 1) div k = y div k - 1"
    using assms by (intro int_div_pos_eq [where r = "k - 1"]) auto
  then show ?thesis
    using True by simp
next
  case False
  then have "0 < y mod k"
    using assms pos_mod_sign [of k y] by linarith
  then have "(y - 1) div k = y div k"
    using assms div_mult_mod_eq [of y k] less_trans [OF _ pos_mod_bound [of k y], of "y mod k - 1"]
    by (intro int_div_pos_eq [where r = "y mod k - 1"]) (simp_all add: algebra_simps)
  then show ?thesis
    using False by simp
qed

lemma year_start_next: "year_start (y + 1) = year_start y + year_days y"
proof -
  have sum: "365 * (y + 1 - 1970) + (a + i - (b + j) + (c + k)) - 477 = 365 * (y - 1970) + (a - b + c) - 477 + (365 + i - j + k)"
    for a b c i j k :: int by simp
  have days: "365 + (if a then 1 else 0) - (if b then 1 else 0) + (if c then 1 else 0) = (if a \<and> (\<not> b \<or> c) then 366 else 365 :: int)"
    if "c \<Longrightarrow> b" "b \<Longrightarrow> a" for a b c using that by (cases a; cases b; cases c) simp_all
  have "y mod 400 = 0 \<Longrightarrow> y mod 100 = 0" "y mod 100 = 0 \<Longrightarrow> y mod 4 = 0"
    using dvd_trans [of 100 400 y] dvd_trans [of 4 100 y] by (simp_all only: mod_eq_0_iff_dvd) simp_all
  from days [OF this] have "year_days y = 365 + (if y mod 4 = 0 then 1 else 0) - (if y mod 100 = 0 then 1 else 0) + (if y mod 400 = 0 then 1 else 0)"
    by (simp only: year_days_def leap_def)
  moreover have "(0 :: int) < 4" "(0 :: int) < 100" "(0 :: int) < 400"
    by simp_all
  ultimately show ?thesis
    by (simp only: year_start_def add_diff_cancel_right' div_pred [of 4 y] div_pred [of 100 y] div_pred [of 400 y] sum)
qed

lemma year_start_mono:
  assumes "y < y'"
  shows "year_start y + year_days y \<le> year_start y'"
proof -
  have "year_start (y + 1) \<le> year_start (y + 1 + int k)" for k
  proof (induction k)
    case (Suc k)
    have "year_start (y + 1 + int (Suc k)) = year_start (y + 1 + int k) + year_days (y + 1 + int k)"
      using year_start_next [of "y + 1 + int k"] by (simp add: algebra_simps)
    moreover have "0 \<le> year_days (y + 1 + int k)"
      by (simp add: year_days_def)
    ultimately show ?case
      using Suc by linarith
  qed simp
  from this [of "nat (y' - (y + 1))"] assms show ?thesis
    by (simp add: year_start_next)
qed

lemma month_days_bounds: "28 \<le> month_days y m" "month_days y m \<le> 31"
  by (auto simp: month_days_def)

lemma month_start_mono: "m < m' \<Longrightarrow> month_start y m + month_days y m \<le> month_start y m'"
proof (induction m')
  case (Suc m')
  then show ?case
    using month_days_bounds(1) [of y m'] by (cases "m = m'") auto
qed simp

lemma month_start_12: "month_start y 12 = year_days y"
  by (simp add: eval_nat_numeral month_days_def year_days_def)

lemma day_in_year:
  assumes "valid_date t"
  shows "month_start (tm_year t + 1900) (tm_mon t) + tm_mday t \<le> year_days (tm_year t + 1900)"
    "0 \<le> month_start (tm_year t + 1900) (tm_mon t)"
proof -
  have "month_start (tm_year t + 1900) (tm_mon t) + month_days (tm_year t + 1900) (tm_mon t) \<le> year_days (tm_year t + 1900)"
    using assms month_start_mono [of "tm_mon t" 12 "tm_year t + 1900"] by (simp add: valid_date_def month_start_12)
  then show "month_start (tm_year t + 1900) (tm_mon t) + tm_mday t \<le> year_days (tm_year t + 1900)"
    using assms by (simp add: valid_date_def)
  show "0 \<le> month_start (tm_year t + 1900) (tm_mon t)"
    using month_start_mono [of 0 "tm_mon t" "tm_year t + 1900"] month_days_bounds(1) [of "tm_year t + 1900" 0]
    by (cases "tm_mon t") auto
qed

lemma day_number_less:
  assumes "valid_date s" "valid_date t" "s < t"
  shows "day_number s < day_number t"
proof -
  consider "tm_year s < tm_year t" | "tm_year s = tm_year t" "tm_mon s < tm_mon t"
    | "tm_year s = tm_year t" "tm_mon s = tm_mon t" "tm_mday s < tm_mday t"
    using assms(3) by (auto simp: less_tm_date_def)
  then show ?thesis
  proof cases
    case 1
    then show ?thesis
      using year_start_mono [of "tm_year s + 1900" "tm_year t + 1900"] day_in_year [OF assms(1)] day_in_year [OF assms(2)] assms(2)
      by (simp add: day_number_def valid_date_def)
  next
    case 2
    then show ?thesis
      using month_start_mono [of "tm_mon s" "tm_mon t" "tm_year t + 1900"] assms
      by (simp add: day_number_def valid_date_def)
  next
    case 3
    then show ?thesis by (simp add: day_number_def)
  qed
qed

lemma day_number_order:
  assumes "valid_date s" "valid_date t"
  shows "day_number s < day_number t \<longleftrightarrow> s < t" "day_number s = day_number t \<longleftrightarrow> s = t"
  using day_number_less [OF assms] day_number_less [OF assms(2,1)] by (metis less_asym less_irrefl linorder_neqE)+


section \<open>The cycles of the calendar\<close>

lemma split_month_spec:
  assumes "split_month y m d = (m', d')" "m \<le> 11" "0 \<le> d" "month_start y m + d < year_days y"
  shows "m' < 12 \<and> 0 \<le> d' \<and> d' < month_days y m' \<and> month_start y m' + d' = month_start y m + d"
  using assms
proof (induction y m d arbitrary: m' d' rule: split_month.induct)
  case (1 y m d)
  show ?case
  proof (cases "m < 11 \<and> month_days y m \<le> d")
    case True
    then show ?thesis
      using 1 by (simp add: split_month.simps [of y m d])
  next
    case False
    moreover have "d < month_days y m"
    proof (cases "m = 11")
      case True
      then show ?thesis
        using "1.prems"(4) month_start_12 [of y] by (simp add: eval_nat_numeral)
    qed (use False "1.prems"(2) in auto)
    ultimately show ?thesis
      using "1.prems" by (simp add: split_month.simps [of y m d])
  qed
qed

text \<open>The years before a year, in cycles: only the last year of a cycle is long.\<close>

lemma year_start_cycles:
  assumes "0 \<le> c" "c \<le> 3" "0 \<le> q" "q \<le> 24" "0 \<le> a" "a \<le> (3 :: int)"
  shows "year_start (400 * e + 100 * c + 4 * q + a + 1) + 719162 = 146097 * e + 36524 * c + 1461 * q + 365 * a"
proof -
  have "(400 * e + 100 * c + 4 * q + a) div 4 = 100 * e + 25 * c + q"
    using assms by (intro int_div_pos_eq [where r = a]) auto
  moreover have "(400 * e + 100 * c + 4 * q + a) div 100 = 4 * e + c"
    using assms by (intro int_div_pos_eq [where r = "4 * q + a"]) auto
  moreover have "(400 * e + 100 * c + 4 * q + a) div 400 = e"
    using assms by (intro int_div_pos_eq [where r = "100 * c + 4 * q + a"]) auto
  ultimately show ?thesis
    by (simp only: year_start_def add_diff_cancel_right') simp
qed

lemma leap_cycles:
  assumes "0 \<le> c" "c \<le> 3" "0 \<le> q" "q \<le> (24 :: int)"
  shows "leap (400 * e + 100 * c + 4 * q + 3 + 1) \<longleftrightarrow> q < 24 \<or> c = 3"
proof -
  let ?y = "400 * e + 100 * c + 4 * q + 3 + 1"
  have "?y = 4 * (100 * e + 25 * c + q + 1)"
    by simp
  then have y4: "?y mod 4 = 0"
    by (metis mod_mult_self1_is_0)
  show ?thesis
  proof (cases "q < 24")
    case True
    have "?y = 100 * (4 * e + c) + (4 * q + 4)"
      by simp
    then have "?y mod 100 = 4 * q + 4"
      using True assms(3) by (intro int_mod_pos_eq [where q = "4 * e + c"]) auto
    then show ?thesis
      using y4 True assms(3) by (simp only: leap_def) simp
  next
    case False
    then have q: "q = 24"
      using assms(4) by simp
    have "?y mod 100 = 0"
      by (rule int_mod_pos_eq [where q = "4 * e + c + 1"]) (simp_all add: q)
    moreover have "?y mod 400 = (if c = 3 then 0 else 100 * c + 100)"
    proof (cases "c = 3")
      case True
      then show ?thesis
        by simp (rule int_mod_pos_eq [where q = "e + 1"]; simp add: q)
    next
      case False
      then show ?thesis
        using assms(1,2) by simp (rule int_mod_pos_eq [where q = e]; simp add: q)
    qed
    ultimately show ?thesis
      using y4 q assms(1) by (simp only: leap_def) auto
  qed
qed

lemma split_year_spec:
  assumes "split_year z = (y, d)"
  shows "year_start y + d = z \<and> 0 \<le> d \<and> d < year_days y"
proof -
  define e r where "e = (z + 719162) div 146097" and "r = (z + 719162) mod 146097"
  define c s where "c = min 3 (r div 36524)" and "s = r - c * 36524"
  define q t where "q = s div 1461" and "t = s mod 1461"
  define a where "a = min 3 (t div 365)"
  have yd: "y = 400 * e + 100 * c + 4 * q + a + 1" "d = t - 365 * a"
    using assms by (simp_all only: split_year_def Let_def prod.inject e_def r_def c_def s_def q_def t_def a_def)
  have r: "0 \<le> r" "r < 146097" "z + 719162 = 146097 * e + r"
    using div_mult_mod_eq [of "z + 719162" 146097] by (simp_all only: e_def r_def)
  have c: "0 \<le> c" "c \<le> 3" "0 \<le> s" "s < 36524 \<or> c = 3" "s < 36525"
  proof -
    have "r div 36524 * 36524 \<le> r" "r < r div 36524 * 36524 + 36524" "0 \<le> r div 36524"
      using r(1) div_mult_mod_eq [of r 36524] pos_mod_bound [of 36524 r] pos_mod_sign [of 36524 r]
      by (simp_all only: pos_imp_zdiv_nonneg_iff)
    then show "0 \<le> c" "c \<le> 3" "0 \<le> s" "s < 36524 \<or> c = 3" "s < 36525"
      using r(2) unfolding c_def s_def min_def by auto
  qed
  have q: "0 \<le> q" "q \<le> 24" "0 \<le> t" "t < 1461" "s = 1461 * q + t" "q = 24 \<Longrightarrow> c \<noteq> 3 \<Longrightarrow> t < 1460"
  proof -
    have "s = q * 1461 + t" "0 \<le> t" "t < 1461"
      using div_mult_mod_eq [of s 1461] pos_mod_bound [of 1461 s] pos_mod_sign [of 1461 s] by (simp_all only: q_def t_def)
    then show "0 \<le> q" "q \<le> 24" "0 \<le> t" "t < 1461" "s = 1461 * q + t" "q = 24 \<Longrightarrow> c \<noteq> 3 \<Longrightarrow> t < 1460"
      using c by auto
  qed
  have a: "0 \<le> a" "a \<le> 3" "0 \<le> d" "d < 365 \<or> a = 3 \<and> d \<le> 365 \<and> (d = 365 \<longrightarrow> t = 1460)"
  proof -
    have "t div 365 * 365 \<le> t" "t < t div 365 * 365 + 365" "0 \<le> t div 365"
      using q(3) div_mult_mod_eq [of t 365] pos_mod_bound [of 365 t] pos_mod_sign [of 365 t]
      by (simp_all only: pos_imp_zdiv_nonneg_iff)
    then show "0 \<le> a" "a \<le> 3" "0 \<le> d" "d < 365 \<or> a = 3 \<and> d \<le> 365 \<and> (d = 365 \<longrightarrow> t = 1460)"
      using q(4) unfolding yd(2) a_def min_def by auto
  qed
  have "year_start y + 719162 = 146097 * e + 36524 * c + 1461 * q + 365 * a"
    unfolding yd(1) by (rule year_start_cycles [OF c(1,2) q(1,2) a(1,2)])
  then have "year_start y + d = z"
    using r(3) q(5) yd(2) s_def by linarith
  moreover have "d < year_days y"
  proof (cases "d < 365")
    case False
    then have "a = 3" "d \<le> 365" "t = 1460"
      using a(4) by auto
    then have "leap y"
      using leap_cycles [OF c(1,2) q(1,2), of e] q(2,6) yd(1) by auto
    then show ?thesis
      using \<open>d \<le> 365\<close> by (simp add: year_days_def)
  qed (simp add: year_days_def)
  ultimately show ?thesis
    using a(3) by simp
qed

lemma date_of_day_spec: "valid_date (date_of_day z) \<and> day_number (date_of_day z) = z"
proof -
  obtain y d where y: "split_year z = (y, d)" by fastforce
  obtain m d' where m: "split_month y 0 d = (m, d')" by fastforce
  have "m < 12 \<and> 0 \<le> d' \<and> d' < month_days y m \<and> month_start y m + d' = d"
    using split_month_spec [OF m] split_year_spec [OF y] by simp
  then show ?thesis
    using split_year_spec [OF y] by (simp add: date_of_day_def y m valid_date_def day_number_def)
qed


section \<open>Properties\<close>

text \<open>
  C25: A date is printed as it is: for every representable time and a buffer of ten bytes or more,
  format_date writes a day of two digits, the name of a month and a year of two digits, which are
  those of the only valid date whose count of days (whole years, whole months and days, by the rules
  of the Gregorian calendar) is that of the time; with a shorter buffer it writes nothing to rely on.
\<close>

theorem format_date_roundtrip:
  assumes "- 67768040609740800 \<le> t" "t \<le> 67768036191676799"
  shows "\<exists>tm day year. valid_date tm \<and> day_number tm = t div 86400 \<and>
    (\<forall>tm'. valid_date tm' \<longrightarrow> day_number tm' = t div 86400 \<longrightarrow> tm' = tm) \<and>
    format_date t n = Inr (if 10 \<le> n then Some (day @ 45 # month_names ! tm_mon tm @ 45 # year) else None) \<and>
    list_all isdigit (day @ year) \<and> length day = 2 \<and> length year = 2 \<and>
    int (digits_val 10 day) = tm_mday tm \<and> int (digits_val 10 year) = tm_year tm mod 100"
proof -
  define z where "z = t div 86400"
  define tm where "tm = date_of_day z"
  have tm: "valid_date tm" "day_number tm = z"
    using date_of_day_spec [of z] by (simp_all add: tm_def)
  have only: "\<forall>tm'. valid_date tm' \<longrightarrow> day_number tm' = z \<longrightarrow> tm' = tm"
    using day_number_order(2) [OF _ tm(1)] tm(2) by auto
  have m: "tm_mon tm < 12" and d: "1 \<le> tm_mday tm" "tm_mday tm \<le> 31"
    using tm(1) month_days_bounds(2) [of "tm_year tm + 1900" "tm_mon tm"] by (auto simp: valid_date_def)
  have names: "length (month_names ! k) = 3" if "k < 12" for k
    using that by (auto simp: month_names_def less_Suc_eq numeral_nat bytes_def)
  let ?day = "pad 2 48 (dec (nat (tm_mday tm)))" and ?year = "pad 2 48 (dec (nat (tm_year tm mod 100)))"
  have "nat (tm_mday tm) < 100" "nat (tm_year tm mod 100) < 100"
    using d by (auto simp: nat_less_iff)
  note day = two_digits [OF this(1)] and year = two_digits [OF this(2)]
  have "10 \<le> n \<longleftrightarrow> 9 < unat n"
    unfolding word_le_nat_alt by auto
  moreover have "gmtime_date t = Inr tm"
    using assms by (simp only: gmtime_date_def tm_def z_def) simp
  ultimately have date: "format_date t n = Inr (if 10 \<le> n then Some (?day @ 45 # month_names ! tm_mon tm @ 45 # ?year) else None)"
    using names [OF m] day(3) year(3) by (simp add: format_date_def strftime_store_def)
  have "int (digits_val 10 ?day) = tm_mday tm" "int (digits_val 10 ?year) = tm_year tm mod 100"
    using day(1) year(1) d by simp_all
  with tm only date day year show ?thesis
    unfolding z_def [symmetric] list_all_append by blast
qed

theorem format_date_roundtrip_witness:
  "format_date 951782400 10 = Inr (Some (bytes ''29-Feb-00'')) \<and>
   (\<exists>tm. valid_date tm \<and> day_number tm = 951782400 div 86400)"
proof
  have "gmtime_date 951782400 = Inr (Tm 100 1 29)"
    by code_simp
  then show "format_date 951782400 10 = Inr (Some (bytes ''29-Feb-00''))"
    by (simp add: format_date_def strftime_store_def dec_two month_names_def bytes_def)
  have "- 67768040609740800 \<le> (951782400 :: int)" "951782400 \<le> (67768036191676799 :: int)"
    by simp_all
  from format_date_roundtrip [OF this, of 10]
  show "\<exists>tm. valid_date tm \<and> day_number tm = 951782400 div 86400"
    by (elim exE conjE) (rule exI, rule conjI)
qed

text \<open>
  Dates are in the order of time: of two representable times, the later one has never the
  earlier date, and they have the same date exactly when they lie in the same day.
\<close>

theorem dates_are_ordered:
  assumes "gmtime_date t = Inr d" "gmtime_date u = Inr e"
  shows "(d < e \<longleftrightarrow> t div 86400 < u div 86400) \<and> (d = e \<longleftrightarrow> t div 86400 = u div 86400) \<and> (t \<le> u \<longrightarrow> d \<le> e)"
proof -
  have de: "d = date_of_day (t div 86400)" "e = date_of_day (u div 86400)"
    using assms by (auto simp: gmtime_date_def split: if_splits)
  have "valid_date d" "valid_date e" "day_number d = t div 86400" "day_number e = u div 86400"
    using date_of_day_spec de by auto
  then have "d < e \<longleftrightarrow> t div 86400 < u div 86400" "d = e \<longleftrightarrow> t div 86400 = u div 86400"
    using day_number_order [of d e] by auto
  moreover have "t \<le> u \<Longrightarrow> t div 86400 \<le> u div 86400"
    by (simp add: zdiv_mono1)
  ultimately show ?thesis
    by (metis le_less)
qed

theorem dates_are_ordered_witness:
  "gmtime_date (- 1) = Inr (Tm 69 11 31) \<and> gmtime_date 0 = Inr (Tm 70 0 1) \<and> Tm 69 11 31 < Tm 70 0 1"
proof -
  have "gmtime_date (- 1) = Inr (Tm 69 11 31)" "gmtime_date 0 = Inr (Tm 70 0 1)"
    by code_simp+
  then show ?thesis
    using dates_are_ordered [of "- 1" "Tm 69 11 31" 0 "Tm 70 0 1"] by simp
qed

end
