(* ===== verification/CC_ValueDebug.thy ===== *)
theory CC_ValueDebug
  imports CC_Value CC_Format
begin

text \<open>
  Printing a value (\<^verbatim>\<open>value_debug\<close> of src/value.c).  The strings in memory are an argument;
  the result is what is written to \<^verbatim>\<open>stdout\<close>.
\<close>

section \<open>Conversions of printf\<close>

text \<open>The number that 64 bits stand for in IEEE 754 binary64.\<close>

definition double_of_bits :: "64 word \<Rightarrow> fp" where
  "double_of_bits b =
     (let neg = bit b 63; e = unat b div 2 ^ 52 mod 2 ^ 11; m = unat b mod 2 ^ 52 in
      if e = 2047 then (if m = 0 then Infinite neg else NaN)
      else if e = 0 then Finite neg (of_nat m / 2 ^ 1074)
      else Finite neg (of_nat (m + 2 ^ 52) * power_int 2 (int e - 1075)))"

text \<open>\<^verbatim>\<open>%f\<close>; the sign of a NaN is printed too.\<close>

definition print_double :: "64 word \<Rightarrow> byte list" where
  "print_double b = (if bit b 63 then [45] else []) @ print_fixed 0 6 (double_of_bits b)"

section \<open>The operation\<close>

definition value_debug :: "build \<Rightarrow> (addr \<rightharpoonup> byte list) \<Rightarrow> value_t \<Rightarrow> byte list res" where
  "value_debug bd strings v =
     (case v_kind v of
        VALUE_NIL \<Rightarrow> Inr (bytes ''<nil>'' @ [10])
      | VALUE_BOOL \<Rightarrow> bindE (as_bool bd v) (\<lambda>b. Inr (bytes (if b then ''true'' else ''false'') @ [10]))
      | VALUE_INT \<Rightarrow> bindE (as_int bd v) (\<lambda>i. Inr (print_int i @ [10]))
      | VALUE_FLOAT \<Rightarrow> bindE (as_float bd v) (\<lambda>f. Inr (print_double f @ [10]))
      | VALUE_STRING \<Rightarrow> bindE (as_string bd v) (\<lambda>p.
          case strings p of None \<Rightarrow> Inl BadDeref | Some s \<Rightarrow> Inr (s @ [10]))
      | VALUE_REF \<Rightarrow> bindE (as_ref bd v) (\<lambda>p. Inr (bytes ''<ref:'' @ print_pointer p @ bytes ''>'' @ [10])))"

section \<open>Reading numbers back\<close>

lemma dec_roundtrip: "list_all isdigit (dec n) \<and> digits_val 10 (dec n) = n"
proof (induction n rule: dec.induct)
  case (1 n)
  note small = digit_byte [of n] and last = digit_byte [of "n mod 10"]
  show ?case
  proof (cases "n < 10")
    case True
    then show ?thesis
      using small by (simp add: dec_small) (simp add: digits_val_def)
  next
    case False
    then have "list_all isdigit (dec (n div 10))" "digits_val 10 (dec (n div 10)) = n div 10"
      using 1 by simp_all
    moreover have "dec n = dec (n div 10) @ [48 + of_nat (n mod 10)]"
      using False by (subst dec.simps) simp
    ultimately show ?thesis
      using last by (simp add: digits_val_snoc)
  qed
qed

section \<open>Properties\<close>

text \<open>
  Printing a value needs nothing but the memory of its string: in debug and release builds no
  assertion fails, whatever the kind and the bits; integers, negative ones and the smallest
  included, are printed as a decimal number that reads back as the value; booleans, nil and strings
  as their names and texts.
\<close>

theorem value_debug_prints:
  "((\<exists>out. value_debug bd strings v = Inr out) \<longleftrightarrow> v_kind v \<noteq> VALUE_STRING \<or> strings (v_bits v) \<noteq> None) \<and>
   (\<exists>ds. value_debug bd strings (val_int (sint (w :: 64 word))) = Inr ((if sint w < 0 then [45] else []) @ ds @ [10]) \<and>
      list_all isdigit ds \<and> int (digits_val 10 ds) = \<bar>sint w\<bar>) \<and>
   value_debug bd strings (val_bool b) = Inr (bytes (if b then ''true'' else ''false'') @ [10]) \<and>
   value_debug bd strings val_nil = Inr (bytes ''<nil>'' @ [10]) \<and>
   value_debug bd strings (val_string p) = (case strings p of None \<Rightarrow> Inl BadDeref | Some s \<Rightarrow> Inr (s @ [10]))"
proof (intro conjI)
  show "(\<exists>out. value_debug bd strings v = Inr out) \<longleftrightarrow> v_kind v \<noteq> VALUE_STRING \<or> strings (v_bits v) \<noteq> None"
    by (cases "v_kind v")
      (auto simp: value_debug_def as_bool_def as_int_def as_float_def as_string_def as_ref_def split: option.split)
  have "print_int (sint w) = (if sint w < 0 then [45] else []) @ dec (nat \<bar>sint w\<bar>)"
    by (simp only: print_int_def abs_if) simp
  then have "value_debug bd strings (val_int (sint w)) = Inr ((if sint w < 0 then [45] else []) @ dec (nat \<bar>sint w\<bar>) @ [10])"
    by (simp add: value_debug_def val_int_def as_int_def)
  then show "\<exists>ds. value_debug bd strings (val_int (sint w)) = Inr ((if sint w < 0 then [45] else []) @ ds @ [10]) \<and>
      list_all isdigit ds \<and> int (digits_val 10 ds) = \<bar>sint w\<bar>"
    using dec_roundtrip [of "nat \<bar>sint w\<bar>"] by (intro exI [of _ "dec (nat \<bar>sint w\<bar>)"]) (simp only: int_nat_eq abs_ge_zero if_True simp_thms)
  show "value_debug bd strings (val_bool b) = Inr (bytes (if b then ''true'' else ''false'') @ [10])"
    by (simp add: value_debug_def val_bool_def as_bool_def)
  show "value_debug bd strings val_nil = Inr (bytes ''<nil>'' @ [10])"
    by (simp add: value_debug_def val_nil_def)
  show "value_debug bd strings (val_string p) = (case strings p of None \<Rightarrow> Inl BadDeref | Some s \<Rightarrow> Inr (s @ [10]))"
    by (simp add: value_debug_def val_string_def as_string_def)
qed

end
