(* ===== verification/CC_TableMem.thy ===== *)
theory CC_TableMem
  imports CC_ListProps CC_Table
begin

text \<open>
  The hash table in memory (src/table.c): the bucket array and the values of a multi-valued node are
  the pointer lists of CC_List, and the loops follow their pointers.  The table of CC_Table, whose
  buckets are sequences, is what this one represents; every operation here is shown to do on the
  memory what the operation there does on the sequences.
\<close>

section \<open>Separated lists\<close>

text \<open>\<^term>\<open>L\<close> maps the header of each list to its offset and objects; no two lists share a node.\<close>

type_synonym lists = "addr \<rightharpoonup> size_t \<times> addr list"

definition separate :: "lmem \<Rightarrow> lists \<Rightarrow> bool" where
  "separate m L \<longleftrightarrow>
     (\<forall>l off xs. L l = Some (off, xs) \<longrightarrow> wf_list m l off xs) \<and>
     (\<forall>l off xs k o' ys. L l = Some (off, xs) \<longrightarrow> L k = Some (o', ys) \<longrightarrow> l \<noteq> k \<longrightarrow>
        footprint l off xs \<inter> footprint k o' ys = {})"

definition owned :: "lists \<Rightarrow> addr set" where
  "owned L = {p. \<exists>l off xs. L l = Some (off, xs) \<and> p \<in> footprint l off xs}"

lemma separateD:
  assumes "separate m L" "L l = Some (off, xs)"
  shows "wf_list m l off xs"
    and "L k = Some (o', ys) \<Longrightarrow> l \<noteq> k \<Longrightarrow> footprint l off xs \<inter> footprint k o' ys = {}"
  using assms unfolding separate_def by blast+

lemma ownedI: "L l = Some (off, xs) \<Longrightarrow> p \<in> footprint l off xs \<Longrightarrow> p \<in> owned L"
  by (auto simp: owned_def)

text \<open>Changing one list, whose nodes stay apart from those of the others.\<close>

lemma separate_update:
  assumes sep: "separate m L" and wf: "wf_list m' l off xs" and t: "only_touches m l (footprint l off xs) m'"
    and apart: "\<And>k o' ys. L k = Some (o', ys) \<Longrightarrow> k \<noteq> l \<Longrightarrow> footprint k o' ys \<inter> footprint l off xs = {}"
  shows "separate m' (L(l \<mapsto> (off, xs)))"
proof -
  have "wf_list m' k o' ys" if "(L(l \<mapsto> (off, xs))) k = Some (o', ys)" for k o' ys
  proof (cases "k = l")
    case False
    then have "L k = Some (o', ys)"
      using that by simp
    then show ?thesis
      using wf_list_frame [OF separateD(1) [OF sep] t False apart] False by blast
  qed (use that wf in auto)
  moreover have "footprint k o' ys \<inter> footprint j o'' zs = {}"
    if "(L(l \<mapsto> (off, xs))) k = Some (o', ys)" "(L(l \<mapsto> (off, xs))) j = Some (o'', zs)" "k \<noteq> j" for k o' ys j o'' zs
    using that apart [of k o' ys] apart [of j o'' zs] separateD(2) [OF sep, of k o' ys j o'' zs]
    by (auto split: if_splits)
  ultimately show ?thesis
    unfolding separate_def by blast
qed

text \<open>No operation maps or unmaps storage.\<close>

definition same_storage :: "lmem \<Rightarrow> lmem \<Rightarrow> bool" where
  "same_storage m m' \<longleftrightarrow> dom (nodes m') = dom (nodes m) \<and> dom (hdrs m') = dom (hdrs m)"

lemma same_storageD:
  assumes "same_storage m m'"
  shows "nodes m' p = None \<longleftrightarrow> nodes m p = None" "hdrs m' l = None \<longleftrightarrow> hdrs m l = None"
  using assms unfolding same_storage_def by (metis domIff)+

lemma same_storage_refl [simp]: "same_storage m m"
  by (simp add: same_storage_def)

lemma same_storage_trans: "same_storage m m1 \<Longrightarrow> same_storage m1 m2 \<Longrightarrow> same_storage m m2"
  by (simp add: same_storage_def)

lemma touched_storage:
  assumes "only_touches m l fp m'" "hdrs m l \<noteq> None" "wf_list m' l off xs"
  shows "same_storage m m'"
proof -
  have "hdrs m' k = None \<longleftrightarrow> hdrs m k = None" for k
    using assms wf_listD(3) [OF assms(3)] by (cases "k = l") (auto simp: only_touches_def)
  then have "dom (hdrs m') = dom (hdrs m)"
    by (simp add: dom_def)
  then show ?thesis
    using assms(1) by (simp add: same_storage_def only_touches_def)
qed

lemma separate_insert_first:
  assumes sep: "separate m L" and l: "L l = Some (off, xs)"
    and x: "x \<noteq> NULL" "nodes m (x + off) \<noteq> None" "x + off \<notin> owned L"
  shows "\<exists>m'. cclist_insert_first bd m l x = Inr m' \<and> separate m' (L(l \<mapsto> (off, x # xs))) \<and>
    same_storage m m'"
proof -
  have "fresh_obj m l off xs x"
    using x ownedI [of L l off xs "x + off"] l by (auto simp: fresh_obj_def)
  from insert_first_yields [OF separateD(1) [OF sep l] this, of bd] obtain m' where
    m': "cclist_insert_first bd m l x = Inr m'" "wf_list m' l off (x # xs)" "only_touches m l (footprint l off (x # xs)) m'"
    by (auto simp: yields_def)
  have "footprint k o' ys \<inter> footprint l off (x # xs) = {}" if "L k = Some (o', ys)" "k \<noteq> l" for k o' ys
    using separateD(2) [OF sep l, of k o' ys] that x(3) ownedI [of L k o' ys "x + off"]
    by (auto simp: footprint_def)
  then have "separate m' (L(l \<mapsto> (off, x # xs)))"
    by (rule separate_update [OF sep m'(2,3)])
  with m'(1) touched_storage [OF m'(3) _ m'(2)] wf_listD(3) [OF separateD(1) [OF sep l]] show ?thesis by auto
qed

lemma separate_init:
  assumes sep: "separate m L" and l: "L l = None" "l \<noteq> NULL" "hdrs m l \<noteq> None" "nodes m (head_of l) \<noteq> None" "head_of l \<notin> owned L"
  shows "\<exists>m'. cclist_init bd m l off = Inr m' \<and> separate m' (L(l \<mapsto> (off, []))) \<and> same_storage m m'"
proof -
  obtain m' where m': "cclist_init bd m l off = Inr m'" "wf_list m' l off []" "only_touches m l {head_of l} m'"
    using init_yields [OF l(2-4), of off bd] by (auto simp: yields_def)
  have t: "only_touches m l (footprint l off []) m'"
    using m'(3) by (simp add: footprint_def)
  have "footprint k o' ys \<inter> footprint l off [] = {}" if "L k = Some (o', ys)" for k o' ys
    using ownedI [of L k o' ys "head_of l"] that l(5) by (auto simp: footprint_def)
  then have "separate m' (L(l \<mapsto> (off, [])))"
    by (rule separate_update [OF sep m'(2) t])
  with m'(1) touched_storage [OF m'(3) l(3) m'(2)] show ?thesis by blast
qed

lemma owned_upd: "owned (L(l \<mapsto> (off, xs))) = footprint l off xs \<union> owned (L(l := None))"
proof (intro equalityI subsetI)
  fix p assume "p \<in> owned (L(l \<mapsto> (off, xs)))"
  then obtain k o' ys where k: "(L(l \<mapsto> (off, xs))) k = Some (o', ys)" "p \<in> footprint k o' ys"
    unfolding owned_def by blast
  then show "p \<in> footprint l off xs \<union> owned (L(l := None))"
    using ownedI [of "L(l := None)" k o' ys p] by (cases "k = l") auto
next
  fix p assume "p \<in> footprint l off xs \<union> owned (L(l := None))"
  then consider "p \<in> footprint l off xs" | k o' ys where "(L(l := None)) k = Some (o', ys)" "p \<in> footprint k o' ys"
    unfolding owned_def by blast
  then show "p \<in> owned (L(l \<mapsto> (off, xs)))"
  proof cases
    case 1
    then show ?thesis using ownedI [of "L(l \<mapsto> (off, xs))" l off xs p] by simp
  next
    case (2 k o' ys)
    then show ?thesis using ownedI [of "L(l \<mapsto> (off, xs))" k o' ys p] by (auto split: if_splits)
  qed
qed

lemma owned_split: "L l = Some (off, xs) \<Longrightarrow> owned L = footprint l off xs \<union> owned (L(l := None))"
  using owned_upd [of L l off xs] by (simp add: fun_upd_idem)

lemma owned_update:
  "L l = Some (off, xs) \<Longrightarrow> owned (L(l \<mapsto> (off, x # xs))) = insert (x + off) (owned L)"
  "L l = None \<Longrightarrow> owned (L(l \<mapsto> (off, []))) = insert (head_of l) (owned L)"
  using owned_split [of L l off xs] by (auto simp: owned_upd footprint_def fun_upd_idem)

section \<open>The table in memory\<close>

text \<open>
  The lists, and per object the key and the value of a node and the value of a
  \<^verbatim>\<open>ccbucket_value_t\<close>.  The union of a node is \<^verbatim>\<open>one_value\<close>, or the list
  \<^verbatim>\<open>many_values\<close>, whose header is at the address of the node.
\<close>

record tmem =
  tm_list :: lmem
  tm_keys :: "addr \<rightharpoonup> byte list"
  tm_one :: "addr \<rightharpoonup> addr"
  tm_value :: "addr \<rightharpoonup> addr"
  tm_capacity :: size_t
  tm_size :: size_t
  tm_allow_multiple :: bool
  tm_buckets :: addr

text \<open>\<^verbatim>\<open>offsetof(ccbucket_node_t, list_node)\<close> and \<^verbatim>\<open>offsetof(ccbucket_value_t, list_node)\<close>.\<close>

definition node_offset :: size_t where "node_offset = 32"
definition value_offset :: size_t where "value_offset = 8"

definition bucket_at :: "tmem \<Rightarrow> size_t \<Rightarrow> addr" where
  "bucket_at c i = tm_buckets c + 32 * i"

definition mem_bucket :: "tmem \<Rightarrow> byte list \<Rightarrow> addr" where
  "mem_bucket c key = bucket_at c (hash_string key AND (tm_capacity c - 1))"

text \<open>The loop over a bucket: the node with the key, or NULL.\<close>

partial_function (option) find_key :: "tmem \<Rightarrow> addr \<Rightarrow> byte list \<Rightarrow> addr \<Rightarrow> addr res option" where
  "find_key c bucket key node =
     (if node = NULL then Some (Inr NULL)
      else (case tm_keys c node of None \<Rightarrow> Some (Inl BadDeref) | Some k \<Rightarrow>
        if key = k then Some (Inr node)
        else (case cclist_next (tm_list c) bucket node of Inl e \<Rightarrow> Some (Inl e) | Inr n \<Rightarrow> find_key c bucket key n)))"

definition mem_find :: "build \<Rightarrow> tmem \<Rightarrow> byte list \<Rightarrow> addr res option" where
  "mem_find bd c key =
     (case cclist_first bd (tm_list c) (mem_bucket c key) of
        Inl e \<Rightarrow> Some (Inl e)
      | Inr node \<Rightarrow> find_key c (mem_bucket c key) key node)"

text \<open>
  The two insertions; \<^term>\<open>new\<close> and \<^term>\<open>val\<close> are the addresses \<^verbatim>\<open>cc_alloc\<close> answers
  with, for the node and for the value.
\<close>

definition mem_insert_single :: "build \<Rightarrow> tmem \<Rightarrow> addr \<Rightarrow> byte list \<Rightarrow> addr \<Rightarrow> tmem res option" where
  "mem_insert_single bd c new key object =
     map_option (\<lambda>r. bindE r (\<lambda>node.
       if node \<noteq> NULL then Inr c
       else
         bindE (cclist_insert_first bd (tm_list c) (mem_bucket c key) new) (\<lambda>m.
         Inr (c\<lparr>tm_keys := (tm_keys c)(new \<mapsto> key), tm_one := (tm_one c)(new \<mapsto> object),
                tm_list := m, tm_size := tm_size c + 1\<rparr>))))
       (mem_find bd c key)"

definition mem_insert_many :: "build \<Rightarrow> tmem \<Rightarrow> addr \<Rightarrow> addr \<Rightarrow> byte list \<Rightarrow> addr \<Rightarrow> tmem res option" where
  "mem_insert_many bd c new val key object =
     map_option (\<lambda>r. bindE r (\<lambda>node.
       if node \<noteq> NULL then
         bindE (cclist_insert_first bd (tm_list c) node val) (\<lambda>m.
         Inr (c\<lparr>tm_value := (tm_value c)(val \<mapsto> object), tm_list := m, tm_size := tm_size c + 1\<rparr>))
       else
         bindE (cclist_init bd (tm_list c) new value_offset) (\<lambda>m.
         bindE (cclist_insert_first bd m (mem_bucket c key) new) (\<lambda>m.
         bindE (cclist_insert_first bd m new val) (\<lambda>m.
         Inr (c\<lparr>tm_keys := (tm_keys c)(new \<mapsto> key), tm_value := (tm_value c)(val \<mapsto> object),
                tm_list := m, tm_size := tm_size c + 1\<rparr>))))))
       (mem_find bd c key)"

definition mem_insert :: "build \<Rightarrow> tmem \<Rightarrow> addr \<Rightarrow> addr \<Rightarrow> byte list \<Rightarrow> addr \<Rightarrow> tmem res option" where
  "mem_insert bd c new val key object =
     (if tm_allow_multiple c then mem_insert_many bd c new val key object
      else mem_insert_single bd c new key object)"

definition mem_get_one :: "build \<Rightarrow> tmem \<Rightarrow> byte list \<Rightarrow> addr res option" where
  "mem_get_one bd c key =
     (case ccassert bd (\<not> tm_allow_multiple c) of
        Inl e \<Rightarrow> Some (Inl e)
      | Inr _ \<Rightarrow> map_option (\<lambda>r. bindE r (\<lambda>node.
          if node = NULL then Inr NULL
          else case tm_one c node of None \<Rightarrow> Inl BadDeref | Some v \<Rightarrow> Inr v)) (mem_find bd c key))"

text \<open>The answer is the address of the list of values, or NULL.\<close>

definition mem_get_many :: "build \<Rightarrow> tmem \<Rightarrow> byte list \<Rightarrow> addr res option" where
  "mem_get_many bd c key =
     (case ccassert bd (tm_allow_multiple c) of
        Inl e \<Rightarrow> Some (Inl e)
      | Inr _ \<Rightarrow> mem_find bd c key)"

text \<open>Initialisation of the bucket array \<^term>\<open>arr\<close> the allocation answers with.\<close>

function init_buckets :: "build \<Rightarrow> addr \<Rightarrow> size_t \<Rightarrow> size_t \<Rightarrow> lmem \<Rightarrow> lmem res" where
  "init_buckets bd arr capacity i m =
     (if i < capacity then
        bindE (cclist_init bd m (arr + 32 * i) node_offset) (\<lambda>m. init_buckets bd arr capacity (i + 1) m)
      else Inr m)"
  by pat_completeness auto
termination
proof (relation "measure (\<lambda>(bd, arr, capacity, i, m). unat (capacity - i))")
  fix i capacity :: size_t assume "i < capacity"
  then have "capacity - (i + 1) < capacity - i"
    by unat_arith
  then show "((bd, arr, capacity, i + 1, m'), bd, arr, capacity, i, m)
      \<in> measure (\<lambda>(bd, arr, capacity, i, m). unat (capacity - i))" for bd :: build and arr :: addr and m m' :: lmem
    by (simp add: word_less_nat_alt)
qed simp

declare init_buckets.simps [simp del]

definition mem_init :: "build \<Rightarrow> lmem \<Rightarrow> addr \<Rightarrow> size_t \<Rightarrow> bool \<Rightarrow> tmem res" where
  "mem_init bd m arr n_items multi =
     (let capacity = next_power_of_2 n_items in
      bindE (init_buckets bd arr capacity 0 m) (\<lambda>m.
      Inr \<lparr>tm_list = m, tm_keys = Map.empty, tm_one = Map.empty, tm_value = Map.empty,
           tm_capacity = capacity, tm_size = 0, tm_allow_multiple = multi, tm_buckets = arr\<rparr>))"

text \<open>The three loops of the iteration; \<^term>\<open>u\<close> is the state of the callback.\<close>

partial_function (option) iter_values ::
  "tmem \<Rightarrow> addr \<Rightarrow> (addr \<Rightarrow> 'u \<Rightarrow> 'u) \<Rightarrow> addr \<Rightarrow> 'u \<Rightarrow> 'u res option" where
  "iter_values c l f v u =
     (if v = NULL then Some (Inr u)
      else (case tm_value c v of None \<Rightarrow> Some (Inl BadDeref) | Some w \<Rightarrow>
        (case cclist_next (tm_list c) l v of
           Inl e \<Rightarrow> Some (Inl e)
         | Inr v' \<Rightarrow> iter_values c l f v' (f w u))))"

partial_function (option) iter_nodes ::
  "build \<Rightarrow> tmem \<Rightarrow> addr \<Rightarrow> (byte list \<Rightarrow> addr \<Rightarrow> 'u \<Rightarrow> 'u) \<Rightarrow> addr \<Rightarrow> 'u \<Rightarrow> 'u res option" where
  "iter_nodes bd c bucket f n u =
     (if n = NULL then Some (Inr u)
      else (case tm_keys c n of None \<Rightarrow> Some (Inl BadDeref) | Some k \<Rightarrow>
        (case (if \<not> tm_allow_multiple c
               then Some (case tm_one c n of None \<Rightarrow> Inl BadDeref | Some v \<Rightarrow> Inr (f k v u))
               else (case cclist_first bd (tm_list c) n of
                       Inl e \<Rightarrow> Some (Inl e)
                     | Inr v \<Rightarrow> iter_values c n (f k) v u)) of
           None \<Rightarrow> None
         | Some (Inl e) \<Rightarrow> Some (Inl e)
         | Some (Inr u') \<Rightarrow>
             (case cclist_next (tm_list c) bucket n of
                Inl e \<Rightarrow> Some (Inl e)
              | Inr n' \<Rightarrow> iter_nodes bd c bucket f n' u'))))"

function iter_from ::
  "build \<Rightarrow> tmem \<Rightarrow> (byte list \<Rightarrow> addr \<Rightarrow> 'u \<Rightarrow> 'u) \<Rightarrow> size_t \<Rightarrow> 'u \<Rightarrow> 'u res option" where
  "iter_from bd c f i u =
     (if i < tm_capacity c then
        (case cclist_first bd (tm_list c) (bucket_at c i) of
           Inl e \<Rightarrow> Some (Inl e)
         | Inr n \<Rightarrow>
             (case iter_nodes bd c (bucket_at c i) f n u of
                None \<Rightarrow> None
              | Some (Inl e) \<Rightarrow> Some (Inl e)
              | Some (Inr u') \<Rightarrow> iter_from bd c f (i + 1) u'))
      else Some (Inr u))"
  by pat_completeness auto
termination
proof (relation "measure (\<lambda>(bd, c, f, i, u). unat (tm_capacity c - i))")
  fix i :: size_t and c :: tmem assume "i < tm_capacity c"
  then have "tm_capacity c - (i + 1) < tm_capacity c - i"
    by unat_arith
  then show "((bd, c, f, i + 1, u'), bd, c, f, i, u)
      \<in> measure (\<lambda>(bd, c, f, i, u). unat (tm_capacity c - i))" for bd :: build and f :: "byte list \<Rightarrow> addr \<Rightarrow> 'u \<Rightarrow> 'u" and u u'
    by (simp add: word_less_nat_alt)
qed simp

declare iter_from.simps [simp del]

definition mem_iter :: "build \<Rightarrow> tmem \<Rightarrow> (byte list \<Rightarrow> addr \<Rightarrow> 'u \<Rightarrow> 'u) \<Rightarrow> 'u \<Rightarrow> 'u res option" where
  "mem_iter bd c callback u = iter_from bd c callback 0 u"

section \<open>What a memory represents\<close>

definition node_rep :: "tmem \<Rightarrow> lists \<Rightarrow> addr \<Rightarrow> bnode \<Rightarrow> bool" where
  "node_rep c L a n \<longleftrightarrow> tm_keys c a = Some (b_key n) \<and>
     (case b_slot n of
        One_value v \<Rightarrow> tm_one c a = Some v
      | Many_values vs \<Rightarrow> \<exists>as. L a = Some (value_offset, as) \<and> map (tm_value c) as = map Some vs)"

definition table_rep :: "tmem \<Rightarrow> lists \<Rightarrow> cctable \<Rightarrow> bool" where
  "table_rep c L t \<longleftrightarrow>
     separate (tm_list c) L \<and>
     tm_capacity c = t_capacity t \<and> tm_size c = t_size t \<and> tm_allow_multiple c = t_allow_multiple t \<and>
     t_capacity t \<noteq> 0 \<and> length (t_buckets t) = unat (t_capacity t) \<and>
     unat (tm_buckets c) + 32 * unat (t_capacity t) \<le> 2 ^ 64 \<and>
     (\<forall>i < t_capacity t. \<exists>ns. L (bucket_at c i) = Some (node_offset, ns) \<and>
        list_all2 (node_rep c L) ns (t_buckets t ! unat i))"

lemma table_repD:
  assumes "table_rep c L t"
  shows "separate (tm_list c) L" "tm_capacity c = t_capacity t" "tm_size c = t_size t"
    "tm_allow_multiple c = t_allow_multiple t" "t_capacity t \<noteq> 0" "length (t_buckets t) = unat (t_capacity t)"
    "unat (tm_buckets c) + 32 * unat (t_capacity t) \<le> 2 ^ 64"
  using assms by (auto simp: table_rep_def)

lemma table_rep_bucket:
  assumes "table_rep c L t" "i < t_capacity t"
  obtains ns where "L (bucket_at c i) = Some (node_offset, ns)" "list_all2 (node_rep c L) ns (t_buckets t ! unat i)"
  using assms unfolding table_rep_def by blast

text \<open>The buckets are at different addresses.\<close>

lemma element_unat:
  fixes arr capacity i :: size_t
  assumes "unat arr + 32 * unat capacity \<le> 2 ^ 64" "i < capacity"
  shows "unat (arr + 32 * i) = unat arr + 32 * unat i"
proof -
  have "unat i < unat capacity"
    using assms(2) by (simp add: word_less_nat_alt)
  then have "unat arr + 32 * unat i < 2 ^ 64" "32 * unat i < 2 ^ 64"
    using assms(1) by linarith+
  then show ?thesis
    by (simp add: unat_word_ariths)
qed

lemma element_inj:
  fixes arr capacity i j :: size_t
  assumes "unat arr + 32 * unat capacity \<le> 2 ^ 64" "i < capacity" "j < capacity" "arr + 32 * i = arr + 32 * j"
  shows "i = j"
  using element_unat [OF assms(1,2)] element_unat [OF assms(1,3)] assms(4) by (simp add: word_unat_eq_iff)

lemma bucket_at_inj:
  assumes "table_rep c L t" "i < t_capacity t" "j < t_capacity t" "bucket_at c i = bucket_at c j"
  shows "i = j"
  using element_inj [OF table_repD(7) [OF assms(1)] assms(2,3)] assms(4) by (simp add: bucket_at_def)

lemma bucket_idx_less: "t_capacity t \<noteq> 0 \<Longrightarrow> bucket_idx t key < t_capacity t"
proof -
  assume "t_capacity t \<noteq> 0"
  then have "t_capacity t - 1 < t_capacity t"
    by (simp add: word_less_nat_alt unat_minus_one unat_gt_0)
  moreover have "bucket_idx t key \<le> t_capacity t - 1"
    by (simp add: bucket_idx_def word_and_le1)
  ultimately show ?thesis by simp
qed

lemma node_rep_keep:
  assumes "node_rep c L a n" "tm_keys c' a = tm_keys c a" "tm_one c' a = tm_one c a"
    and "\<And>as. L a = Some (value_offset, as) \<Longrightarrow> L' a = L a \<and> (\<forall>x \<in> set as. tm_value c' x = tm_value c x)"
  shows "node_rep c' L' a n"
proof (cases "b_slot n")
  case (Many_values vs)
  then obtain as where as: "L a = Some (value_offset, as)" "map (tm_value c) as = map Some vs"
    using assms(1) by (auto simp: node_rep_def)
  then have "map (tm_value c') as = map Some vs"
    using assms(4) [OF as(1)] by (metis map_cong)
  then show ?thesis
    using assms(1,2) assms(4) [OF as(1)] as Many_values by (simp add: node_rep_def)
qed (use assms in \<open>simp add: node_rep_def\<close>)

section \<open>Finding a node\<close>

lemma find_node_split: "find_node key bs = Some (us, n, vs) \<Longrightarrow> bs = us @ n # vs \<and> b_key n = key"
  by (induction bs arbitrary: us) (auto split: if_splits)

lemma find_key_finds:
  assumes "wf_list (tm_list c) l node_offset (xs @ ys)" "list_all2 (node_rep c L) ys bs"
  shows "find_key c l key (case ys of [] \<Rightarrow> NULL | y # _ \<Rightarrow> y) =
    Some (Inr (case find_node key bs of None \<Rightarrow> NULL | Some (us, n, vs) \<Rightarrow> ys ! length us))"
  using assms
proof (induction ys arbitrary: xs bs)
  case Nil
  then show ?case by (simp add: find_key.simps)
next
  case (Cons y ys)
  then obtain b bs' where bs: "bs = b # bs'" "node_rep c L y b" "list_all2 (node_rep c L) ys bs'"
    by (auto simp: list_all2_Cons1)
  have y: "y \<noteq> NULL" "tm_keys c y = Some (b_key b)"
    using wf_listD(2) [OF Cons.prems(1)] bs(2) by (auto simp: node_rep_def)
  have step: "cclist_next (tm_list c) l y = Inr (case ys of [] \<Rightarrow> NULL | y # _ \<Rightarrow> y)"
    by (rule next_of_list [OF Cons.prems(1)])
  show ?case
  proof (cases "key = b_key b")
    case True
    then show ?thesis
      using y bs(1) by (subst find_key.simps) simp
  next
    case False
    have "find_key c l key (case ys of [] \<Rightarrow> NULL | y # _ \<Rightarrow> y) =
        Some (Inr (case find_node key bs' of None \<Rightarrow> NULL | Some (us, n, vs) \<Rightarrow> ys ! length us))"
      using Cons.IH [of "xs @ [y]" bs'] Cons.prems(1) bs(3) by simp
    then show ?thesis
      using False y bs(1) step by (subst find_key.simps) (auto split: option.splits)
  qed
qed

text \<open>The bucket of a key, in the memory and in the table, and the node the loop stops at.\<close>

lemma mem_find_spec:
  assumes rep: "table_rep c L t"
  obtains bs ns where
    "mem_bucket c key = bucket_at c (bucket_idx t key)" "get_bucket t (bucket_idx t key) = Inr bs"
    "L (mem_bucket c key) = Some (node_offset, ns)" "list_all2 (node_rep c L) ns bs"
    "\<And>bd. mem_find bd c key =
       Some (Inr (case find_node key bs of None \<Rightarrow> NULL | Some (us, n, vs) \<Rightarrow> ns ! length us))"
proof -
  let ?i = "bucket_idx t key"
  have i: "?i < t_capacity t"
    by (rule bucket_idx_less [OF table_repD(5) [OF rep]])
  have at: "mem_bucket c key = bucket_at c ?i"
    by (simp add: mem_bucket_def bucket_idx_def table_repD(2) [OF rep])
  obtain ns where ns: "L (bucket_at c ?i) = Some (node_offset, ns)" "list_all2 (node_rep c L) ns (t_buckets t ! unat ?i)"
    by (rule table_rep_bucket [OF rep i])
  have wf: "wf_list (tm_list c) (bucket_at c ?i) node_offset ns"
    by (rule separateD(1) [OF table_repD(1) [OF rep] ns(1)])
  have "get_bucket t ?i = Inr (t_buckets t ! unat ?i)"
    using i table_repD(6) [OF rep] by (simp add: get_bucket_def word_less_nat_alt)
  moreover have "mem_find bd c key = Some (Inr (case find_node key (t_buckets t ! unat ?i) of
      None \<Rightarrow> NULL | Some (us, n, vs) \<Rightarrow> ns ! length us))" for bd
    using first_of_list [OF wf, of bd] find_key_finds [of c "bucket_at c ?i" "[]" ns, OF _ ns(2), of key] wf
    by (simp add: mem_find_def at)
  ultimately show thesis
    using that at ns by metis
qed

lemma found_node:
  assumes "list_all2 (node_rep c L) ns bs" "find_node key bs = Some (us, n, vs)"
  obtains as a zs where "ns = as @ a # zs" "length as = length us" "ns ! length us = a" "node_rep c L a n"
    "list_all2 (node_rep c L) as us" "list_all2 (node_rep c L) zs vs"
proof -
  have "bs = us @ n # vs"
    using find_node_split [OF assms(2)] by simp
  with assms(1) obtain as zs' where s: "ns = as @ zs'" "list_all2 (node_rep c L) as us"
    "list_all2 (node_rep c L) zs' (n # vs)"
    by (auto simp: list_all2_append2)
  then obtain a zs where "zs' = a # zs" "node_rep c L a n" "list_all2 (node_rep c L) zs vs"
    by (auto simp: list_all2_Cons2)
  with s that [of as a zs] show thesis
    by (simp add: list_all2_lengthD nth_append)
qed

section \<open>Insertion\<close>

text \<open>What two allocations that answer \<^term>\<open>new\<close> and \<^term>\<open>val\<close> give.\<close>

definition fresh_storage :: "tmem \<Rightarrow> lists \<Rightarrow> addr \<Rightarrow> addr \<Rightarrow> bool" where
  "fresh_storage c L new val \<longleftrightarrow>
     new \<noteq> NULL \<and> val \<noteq> NULL \<and> L new = None \<and> hdrs (tm_list c) new \<noteq> None \<and>
     distinct [head_of new, new + node_offset, val + value_offset] \<and>
     (\<forall>p \<in> {head_of new, new + node_offset, val + value_offset}. nodes (tm_list c) p \<noteq> None \<and> p \<notin> owned L)"

text \<open>Every node and every value there is can be reached from the buckets: nothing is lost.\<close>

definition table_node :: "tmem \<Rightarrow> lists \<Rightarrow> addr \<Rightarrow> bool" where
  "table_node c L a \<longleftrightarrow> (\<exists>i ns. i < tm_capacity c \<and> L (bucket_at c i) = Some (node_offset, ns) \<and> a \<in> set ns)"

definition table_value :: "tmem \<Rightarrow> lists \<Rightarrow> addr \<Rightarrow> bool" where
  "table_value c L v \<longleftrightarrow>
     tm_allow_multiple c \<and> (\<exists>a as. table_node c L a \<and> L a = Some (value_offset, as) \<and> v \<in> set as)"

definition all_held :: "tmem \<Rightarrow> lists \<Rightarrow> bool" where
  "all_held c L \<longleftrightarrow> (\<forall>a \<in> dom (tm_keys c). table_node c L a) \<and> (\<forall>v \<in> dom (tm_value c). table_value c L v)"

lemma all_held_grows:
  assumes "all_held c L" "tm_capacity c' = tm_capacity c" "tm_buckets c' = tm_buckets c"
    "tm_allow_multiple c' = tm_allow_multiple c"
    and lists: "\<And>l off xs. L l = Some (off, xs) \<Longrightarrow> \<exists>ys. L' l = Some (off, ys) \<and> set xs \<subseteq> set ys"
    and new_keys: "\<And>a. a \<in> dom (tm_keys c') \<Longrightarrow> a \<in> dom (tm_keys c) \<or> table_node c' L' a"
    and new_values: "\<And>v. v \<in> dom (tm_value c') \<Longrightarrow> v \<in> dom (tm_value c) \<or> table_value c' L' v"
  shows "all_held c' L'"
proof -
  have at: "bucket_at c' i = bucket_at c i" for i
    by (simp add: bucket_at_def assms(3))
  have node: "table_node c' L' a" if a: "table_node c L a" for a
  proof -
    obtain i ns where i: "i < tm_capacity c" "L (bucket_at c i) = Some (node_offset, ns)" "a \<in> set ns"
      using a unfolding table_node_def by blast
    then show ?thesis
      using lists [OF i(2)] unfolding table_node_def at assms(2) by blast
  qed
  have "table_value c' L' v" if v: "table_value c L v" for v
  proof -
    obtain a as where a: "table_node c L a" "L a = Some (value_offset, as)" "v \<in> set as" "tm_allow_multiple c"
      using v unfolding table_value_def by blast
    then show ?thesis
      using lists [OF a(2)] node [OF a(1)] unfolding table_value_def assms(4) by blast
  qed
  with node show ?thesis
    using assms(1) new_keys new_values unfolding all_held_def by blast
qed

text \<open>What an insertion may take: the storage of one node and one value; it loses nothing.\<close>

definition grows :: "tmem \<Rightarrow> lists \<Rightarrow> addr \<Rightarrow> addr \<Rightarrow> tmem \<Rightarrow> lists \<Rightarrow> bool" where
  "grows c L new val c' L' \<longleftrightarrow>
     same_storage (tm_list c) (tm_list c') \<and> dom L' \<subseteq> insert new (dom L) \<and>
     owned L' \<subseteq> {head_of new, new + node_offset, val + value_offset} \<union> owned L \<and>
     (all_held c L \<longrightarrow> all_held c' L')"

lemma fresh_after:
  assumes "grows c L new val c' L'" "fresh_storage c L new' val'"
    and "{head_of new, new + node_offset, val + value_offset} \<inter> {head_of new', new' + node_offset, val' + value_offset} = {}"
  shows "fresh_storage c' L' new' val'"
proof -
  have "new' \<noteq> new"
    using assms(3) by auto
  then have "L' new' = None"
    using assms(1,2) by (auto simp: grows_def fresh_storage_def)
  moreover have "p \<notin> owned L'" if "p \<in> {head_of new', new' + node_offset, val' + value_offset}" for p
    using assms that unfolding grows_def fresh_storage_def by blast
  moreover have "same_storage (tm_list c) (tm_list c')"
    using assms(1) by (simp add: grows_def)
  ultimately show ?thesis
    using assms(2) unfolding fresh_storage_def by (simp add: same_storageD)
qed

text \<open>One bucket changed; the lists of the others and their nodes did not.\<close>

lemma table_rep_set_bucket:
  assumes rep: "table_rep c L t" and idx: "idx < t_capacity t"
    and sep: "separate (tm_list c') L'"
    and same: "tm_capacity c' = tm_capacity c" "tm_buckets c' = tm_buckets c" "tm_allow_multiple c' = tm_allow_multiple c"
    and sz: "tm_size c' = tm_size c + 1"
    and b: "L' (bucket_at c idx) = Some (node_offset, ns')" "list_all2 (node_rep c' L') ns' bs'"
    and kept: "\<And>i ns. i < t_capacity t \<Longrightarrow> i \<noteq> idx \<Longrightarrow> L (bucket_at c i) = Some (node_offset, ns) \<Longrightarrow>
      L' (bucket_at c i) = Some (node_offset, ns)"
    and nodes: "\<And>i ns a n. i < t_capacity t \<Longrightarrow> i \<noteq> idx \<Longrightarrow> L (bucket_at c i) = Some (node_offset, ns) \<Longrightarrow>
      a \<in> set ns \<Longrightarrow> node_rep c L a n \<Longrightarrow> node_rep c' L' a n"
  shows "table_rep c' L' ((set_bucket t idx bs')\<lparr>t_size := t_size t + 1\<rparr>)"
proof -
  have at: "bucket_at c' i = bucket_at c i" for i
    by (simp add: bucket_at_def same)
  have "\<exists>ns. L' (bucket_at c' i) = Some (node_offset, ns) \<and>
      list_all2 (node_rep c' L') ns ((t_buckets t)[unat idx := bs'] ! unat i)" if i: "i < t_capacity t" for i
  proof (cases "i = idx")
    case True
    then show ?thesis
      using b i table_repD(6) [OF rep] at by (simp add: word_less_nat_alt)
  next
    case False
    obtain ns where ns: "L (bucket_at c i) = Some (node_offset, ns)" "list_all2 (node_rep c L) ns (t_buckets t ! unat i)"
      by (rule table_rep_bucket [OF rep i])
    have "list_all2 (node_rep c' L') ns (t_buckets t ! unat i)"
      by (rule list.rel_mono_strong [OF ns(2)]) (use nodes [OF i False ns(1)] in blast)
    moreover have "unat idx \<noteq> unat i"
      using False by (simp add: word_unat_eq_iff)
    ultimately show ?thesis
      unfolding at using kept [OF i False ns(1)] by simp
  qed
  then show ?thesis
    using table_repD [OF rep] sep same sz by (simp add: table_rep_def set_bucket_def)
qed

lemma offsets_differ [simp]: "node_offset \<noteq> value_offset" "value_offset \<noteq> node_offset"
  by (simp_all add: node_offset_def value_offset_def)

lemma bucket_node_owned: "L b = Some (node_offset, ns) \<Longrightarrow> a \<in> set ns \<Longrightarrow> a + node_offset \<in> owned L"
  by (rule ownedI [of L b node_offset ns]) (auto simp: footprint_def)

lemma fresh_not_node:
  "fresh_storage c L new val \<Longrightarrow> L b = Some (node_offset, ns) \<Longrightarrow> a \<in> set ns \<Longrightarrow> a \<noteq> new"
  using bucket_node_owned [of L b ns a] by (auto simp: fresh_storage_def)

lemma node_rep_owned:
  assumes "node_rep c L a n" "tm_keys c' a = tm_keys c a" "tm_one c' a = tm_one c a"
    and "\<And>as. L a = Some (value_offset, as) \<Longrightarrow> L' a = L a"
    and "\<And>x. x + value_offset \<in> owned L \<Longrightarrow> tm_value c' x = tm_value c x"
  shows "node_rep c' L' a n"
proof (rule node_rep_keep [OF assms(1-3)])
  fix as assume as: "L a = Some (value_offset, as)"
  then have "x + value_offset \<in> owned L" if "x \<in> set as" for x
    using that by (intro ownedI [of L a value_offset as] as) (simp add: footprint_def)
  then show "L' a = L a \<and> (\<forall>x \<in> set as. tm_value c' x = tm_value c x)"
    using assms(4) [OF as] assms(5) by blast
qed

lemma fresh_value_kept: "fresh_storage c L new val \<Longrightarrow> x + value_offset \<in> owned L \<Longrightarrow> x \<noteq> val"
  by (auto simp: fresh_storage_def)

lemma found_not_null:
  assumes "table_rep c L t" "L b = Some (node_offset, as @ a # zs)"
  shows "a \<noteq> NULL"
  using wf_listD(2) [OF separateD(1) [OF table_repD(1) [OF assms(1)] assms(2)]] by auto

lemma insert_single_rep:
  assumes rep: "table_rep c L t" and fresh: "fresh_storage c L new val"
    and ins: "cctable_insert_single t key obj = Inr t'"
  shows "\<exists>c' L'. mem_insert_single bd c new key obj = Some (Inr c') \<and> table_rep c' L' t' \<and> grows c L new val c' L'"
proof -
  let ?i = "bucket_idx t key"
  obtain bs ns where f: "mem_bucket c key = bucket_at c ?i" "get_bucket t ?i = Inr bs"
    "L (mem_bucket c key) = Some (node_offset, ns)" "list_all2 (node_rep c L) ns bs"
    "mem_find bd c key = Some (Inr (case find_node key bs of None \<Rightarrow> NULL | Some (us, n, vs) \<Rightarrow> ns ! length us))"
    by (rule mem_find_spec [OF rep, of key]) blast
  show ?thesis
  proof (cases "find_node key bs")
    case (Some found)
    then obtain us n vs where n: "find_node key bs = Some (us, n, vs)"
      by (cases found) auto
    obtain as a zs where "ns = as @ a # zs" "ns ! length us = a"
      by (rule found_node [OF f(4) n])
    then have "mem_insert_single bd c new key obj = Some (Inr c)"
      using f n found_not_null [OF rep, of _ as a zs] by (simp add: mem_insert_single_def)
    moreover have "t' = t"
      using ins f(2) n by (simp add: cctable_insert_single_def)
    moreover have "grows c L new val c L"
      by (auto simp: grows_def)
    ultimately show ?thesis
      using rep by blast
  next
    case None
    have new: "new \<noteq> NULL" "nodes (tm_list c) (new + node_offset) \<noteq> None" "new + node_offset \<notin> owned L"
      using fresh by (simp_all add: fresh_storage_def)
    let ?L = "L(mem_bucket c key \<mapsto> (node_offset, new # ns))"
    obtain m where m: "cclist_insert_first bd (tm_list c) (mem_bucket c key) new = Inr m" "separate m ?L"
      "same_storage (tm_list c) m"
      using separate_insert_first [OF table_repD(1) [OF rep] f(3) new] by blast
    let ?c = "c\<lparr>tm_keys := (tm_keys c)(new \<mapsto> key), tm_one := (tm_one c)(new \<mapsto> obj), tm_list := m, tm_size := tm_size c + 1\<rparr>"
    have keep: "node_rep ?c ?L a n" if "node_rep c L a n" "a \<noteq> new" for a n
      by (rule node_rep_owned [OF that(1)]) (use that(2) f(3) in auto)
    have "table_rep ?c ?L ((set_bucket t ?i (\<lparr>b_key = key, b_slot = One_value obj\<rparr> # bs))\<lparr>t_size := t_size t + 1\<rparr>)"
    proof (rule table_rep_set_bucket [OF rep bucket_idx_less [OF table_repD(5) [OF rep]]])
      have "list_all2 (node_rep ?c ?L) ns bs"
        by (rule list.rel_mono_strong [OF f(4)]) (use keep fresh_not_node [OF fresh f(3)] in blast)
      then show "list_all2 (node_rep ?c ?L) (new # ns) (\<lparr>b_key = key, b_slot = One_value obj\<rparr> # bs)"
        by (simp add: node_rep_def)
      show "?L (bucket_at c i) = Some (node_offset, ns')"
        if "i < t_capacity t" "i \<noteq> ?i" "L (bucket_at c i) = Some (node_offset, ns')" for i ns'
        using bucket_at_inj [OF rep that(1) bucket_idx_less [OF table_repD(5) [OF rep]], of key] that f(1) by auto
      show "node_rep ?c ?L a n" if "L (bucket_at c i) = Some (node_offset, ns')" "a \<in> set ns'" "node_rep c L a n" for i ns' a n
        by (rule keep [OF that(3) fresh_not_node [OF fresh that(1,2)]])
    qed (use m f(1) in simp_all)
    moreover have "all_held ?c ?L" if held: "all_held c L"
    proof (rule all_held_grows [OF held])
      have "table_node ?c ?L new"
        using f(1) bucket_idx_less [OF table_repD(5) [OF rep], of key] table_repD(2) [OF rep]
        by (auto simp: table_node_def bucket_at_def)
      then show "a \<in> dom (tm_keys c) \<or> table_node ?c ?L a" if "a \<in> dom (tm_keys ?c)" for a
        using that by auto
      show "\<exists>ys. ?L l = Some (off, ys) \<and> set xs \<subseteq> set ys" if "L l = Some (off, xs)" for l off xs
        using that f(3) by auto
    qed simp_all
    then have "grows c L new val ?c ?L"
      using m(3) f(3) owned_update(1) [where L = L, OF f(3), of new] by (auto simp: grows_def)
    moreover have "mem_insert_single bd c new key obj = Some (Inr ?c)"
      using f(5) None m(1) by (simp add: mem_insert_single_def)
    moreover have "t' = (set_bucket t ?i (\<lparr>b_key = key, b_slot = One_value obj\<rparr> # bs))\<lparr>t_size := t_size t + 1\<rparr>"
      using ins f(2) None by (simp add: cctable_insert_single_def)
    ultimately show ?thesis by blast
  qed
qed

lemma insert_many_found_rep:
  assumes rep: "table_rep c L t" and fresh: "fresh_storage c L new val"
    and f: "mem_bucket c key = bucket_at c (bucket_idx t key)"
      "L (mem_bucket c key) = Some (node_offset, ns)" "list_all2 (node_rep c L) ns bs"
    and n: "find_node key bs = Some (us, n, vs)" "b_slot n = Many_values ws" and multi: "t_allow_multiple t"
  shows "\<exists>m c' L'. cclist_insert_first bd (tm_list c) (ns ! length us) val = Inr m \<and>
    c' = c\<lparr>tm_value := (tm_value c)(val \<mapsto> obj), tm_list := m, tm_size := tm_size c + 1\<rparr> \<and>
    grows c L new val c' L' \<and>
    table_rep c' L' ((set_bucket t (bucket_idx t key) (us @ n\<lparr>b_slot := Many_values (obj # ws)\<rparr> # vs))\<lparr>t_size := t_size t + 1\<rparr>)"
proof -
  obtain as a zs where ns: "ns = as @ a # zs" "ns ! length us = a" "node_rep c L a n"
    "list_all2 (node_rep c L) as us" "list_all2 (node_rep c L) zs vs"
    by (rule found_node [OF f(3) n(1)])
  obtain xs where xs: "L a = Some (value_offset, xs)" "map (tm_value c) xs = map Some ws" "tm_keys c a = Some (b_key n)"
    using ns(3) n(2) by (auto simp: node_rep_def)
  have val: "val \<noteq> NULL" "nodes (tm_list c) (val + value_offset) \<noteq> None" "val + value_offset \<notin> owned L"
    using fresh by (simp_all add: fresh_storage_def)
  let ?L = "L(a \<mapsto> (value_offset, val # xs))"
  obtain m where m: "cclist_insert_first bd (tm_list c) a val = Inr m" "separate m ?L"
    "same_storage (tm_list c) m"
    using separate_insert_first [OF table_repD(1) [OF rep] xs(1) val] by blast
  let ?c = "c\<lparr>tm_value := (tm_value c)(val \<mapsto> obj), tm_list := m, tm_size := tm_size c + 1\<rparr>"
  have untouched: "tm_value ?c x = tm_value c x" if "x + value_offset \<in> owned L" for x
    using fresh_value_kept [OF fresh that] by simp
  have keep: "node_rep ?c ?L b k" if "node_rep c L b k" "b \<noteq> a" for b k
    by (rule node_rep_owned [OF that(1) _ _ _ untouched]) (use that(2) in simp_all)
  have not_bucket: "L b = Some (node_offset, ys) \<Longrightarrow> b \<noteq> a" for b ys
    using xs(1) by auto
  have others: "a \<notin> set as" "a \<notin> set zs"
    using wf_list_distinct [OF separateD(1) [OF table_repD(1) [OF rep] f(2)]] ns(1) by auto
  have "tm_value ?c x = tm_value c x" if "x \<in> set xs" for x
    by (rule untouched, rule ownedI [of L a value_offset xs]) (use xs(1) that in \<open>simp_all add: footprint_def\<close>)
  then have "map (tm_value ?c) xs = map (tm_value c) xs"
    by (simp del: fun_upd_apply)
  then have "map (tm_value ?c) (val # xs) = map Some (obj # ws)"
    using xs(2) by simp
  then have found: "node_rep ?c ?L a (n\<lparr>b_slot := Many_values (obj # ws)\<rparr>)"
    using xs(3) by (simp add: node_rep_def)
  have "table_rep ?c ?L ((set_bucket t (bucket_idx t key) (us @ n\<lparr>b_slot := Many_values (obj # ws)\<rparr> # vs))\<lparr>t_size := t_size t + 1\<rparr>)"
  proof (rule table_rep_set_bucket [OF rep bucket_idx_less [OF table_repD(5) [OF rep]]])
    have "list_all2 (node_rep ?c ?L) as us" "list_all2 (node_rep ?c ?L) zs vs"
      by (rule list.rel_mono_strong [OF ns(4)], use keep others in blast,
          rule list.rel_mono_strong [OF ns(5)], use keep others in blast)
    with found show "list_all2 (node_rep ?c ?L) ns (us @ n\<lparr>b_slot := Many_values (obj # ws)\<rparr> # vs)"
      unfolding ns(1) by (simp add: list_all2_appendI)
    show "?L (bucket_at c (bucket_idx t key)) = Some (node_offset, ns)"
      using f(1,2) not_bucket [OF f(2)] by simp
    show "?L (bucket_at c i) = Some (node_offset, ns')" if "L (bucket_at c i) = Some (node_offset, ns')" for i ns'
      using that not_bucket [OF that] by simp
    show "node_rep ?c ?L b k" if i: "i < t_capacity t" "i \<noteq> bucket_idx t key"
      and b: "L (bucket_at c i) = Some (node_offset, ns')" "b \<in> set ns'" "node_rep c L b k" for i ns' b k
    proof (rule keep [OF b(3)])
      have "bucket_at c i \<noteq> mem_bucket c key"
        using bucket_at_inj [OF rep i(1) bucket_idx_less [OF table_repD(5) [OF rep]], of key] i(2) f(1) by metis
      then have "footprint (bucket_at c i) node_offset ns' \<inter> footprint (mem_bucket c key) node_offset ns = {}"
        by (rule separateD(2) [OF table_repD(1) [OF rep] b(1) f(2)])
      then show "b \<noteq> a"
        using b(2) ns(1) by (auto simp: footprint_def)
    qed
  qed (use m in simp_all)
  moreover have "all_held ?c ?L" if held: "all_held c L"
  proof (rule all_held_grows [OF held])
    have "table_node ?c ?L a"
      using f(1,2) ns(1) not_bucket [OF f(2)] bucket_idx_less [OF table_repD(5) [OF rep], of key] table_repD(2) [OF rep]
      by (auto simp: table_node_def bucket_at_def)
    then have "table_value ?c ?L val"
      using multi table_repD(4) [OF rep] by (auto simp: table_value_def)
    then show "v \<in> dom (tm_value c) \<or> table_value ?c ?L v" if "v \<in> dom (tm_value ?c)" for v
      using that by auto
    show "\<exists>zs. ?L l = Some (off, zs) \<and> set ys \<subseteq> set zs" if "L l = Some (off, ys)" for l off ys
      using that xs(1) by auto
  qed simp_all
  then have "grows c L new val ?c ?L"
    using m(3) xs(1) owned_update(1) [where L = L, OF xs(1), of val] by (auto simp: grows_def)
  ultimately show ?thesis
    using m(1) ns(2) by blast
qed

text \<open>A node with a list of its own: initialise the list, chain the node, chain the value.\<close>

lemma new_node_lists:
  assumes sep: "separate (tm_list c) L" and b: "L b = Some (node_offset, ns)" and fresh: "fresh_storage c L new val"
  shows "\<exists>m1 m2 m3. cclist_init bd (tm_list c) new value_offset = Inr m1 \<and>
    cclist_insert_first bd m1 b new = Inr m2 \<and> cclist_insert_first bd m2 new val = Inr m3 \<and>
    separate m3 (L(b \<mapsto> (node_offset, new # ns), new \<mapsto> (value_offset, [val]))) \<and>
    same_storage (tm_list c) m3 \<and>
    owned (L(b \<mapsto> (node_offset, new # ns), new \<mapsto> (value_offset, [val]))) =
      {head_of new, new + node_offset, val + value_offset} \<union> owned L"
proof -
  have new: "new \<noteq> NULL" "val \<noteq> NULL" "L new = None" "hdrs (tm_list c) new \<noteq> None"
    "distinct [head_of new, new + node_offset, val + value_offset]"
    using fresh unfolding fresh_storage_def by blast+
  have room: "nodes (tm_list c) p \<noteq> None \<and> p \<notin> owned L"
    if "p \<in> {head_of new, new + node_offset, val + value_offset}" for p
    using fresh that unfolding fresh_storage_def by blast
  have bn: "b \<noteq> new" using b new(3) by auto
  let ?L1 = "L(new \<mapsto> (value_offset, []))"
  obtain m1 where m1: "cclist_init bd (tm_list c) new value_offset = Inr m1" "separate m1 ?L1" "same_storage (tm_list c) m1"
    using separate_init [OF sep new(3,1,4)] room [of "head_of new"] by blast
  let ?L2 = "?L1(b \<mapsto> (node_offset, new # ns))"
  have owned1: "owned ?L1 = insert (head_of new) (owned L)"
    by (rule owned_update(2)) (rule new(3))
  have b1: "?L1 b = Some (node_offset, ns)"
    using b bn by simp
  have mapped: "nodes m1 p \<noteq> None" if "p \<in> {head_of new, new + node_offset, val + value_offset}" for p
    using same_storageD(1) [OF m1(3), of p] room [OF that] by blast
  have "new + node_offset \<notin> owned ?L1"
    unfolding owned1 using new(5) room [of "new + node_offset"] by auto
  then obtain m2 where m2: "cclist_insert_first bd m1 b new = Inr m2" "separate m2 ?L2"
    "same_storage m1 m2"
    using separate_insert_first [OF m1(2) b1 new(1) mapped, of bd] by blast
  have owned2: "owned ?L2 = insert (new + node_offset) (owned ?L1)"
    by (rule owned_update(1)) (rule b1)
  have n2: "?L2 new = Some (value_offset, [])"
    using bn by simp
  have mapped2: "nodes m2 (val + value_offset) \<noteq> None"
    using same_storageD(1) [OF m2(3)] mapped by blast
  have "val + value_offset \<notin> owned ?L2"
    unfolding owned2 owned1 using new(5) room [of "val + value_offset"] by auto
  then obtain m3 where m3: "cclist_insert_first bd m2 new val = Inr m3" "separate m3 (?L2(new \<mapsto> (value_offset, [val])))"
    "same_storage m2 m3"
    using separate_insert_first [OF m2(2) n2 new(2) mapped2, of bd] by blast
  have "owned (?L2(new \<mapsto> (value_offset, [val]))) = {head_of new, new + node_offset, val + value_offset} \<union> owned L"
    using owned_update(1) [where L = ?L2, OF n2, of val] unfolding owned2 owned1 by auto
  moreover have "?L2(new \<mapsto> (value_offset, [val])) = L(b \<mapsto> (node_offset, new # ns), new \<mapsto> (value_offset, [val]))"
    using bn by (auto simp: fun_eq_iff)
  ultimately show ?thesis
    using m1(1) m2(1) m3 same_storage_trans [OF same_storage_trans [OF m1(3) m2(3)] m3(3)] by metis
qed

lemma insert_many_missing_rep:
  assumes rep: "table_rep c L t" and fresh: "fresh_storage c L new val"
    and f: "mem_bucket c key = bucket_at c (bucket_idx t key)"
      "L (mem_bucket c key) = Some (node_offset, ns)" "list_all2 (node_rep c L) ns bs"
    and multi: "t_allow_multiple t"
  shows "\<exists>m1 m2 m3 c' L'. cclist_init bd (tm_list c) new value_offset = Inr m1 \<and>
    cclist_insert_first bd m1 (mem_bucket c key) new = Inr m2 \<and> cclist_insert_first bd m2 new val = Inr m3 \<and>
    c' = c\<lparr>tm_keys := (tm_keys c)(new \<mapsto> key), tm_value := (tm_value c)(val \<mapsto> obj), tm_list := m3,
            tm_size := tm_size c + 1\<rparr> \<and>
    grows c L new val c' L' \<and>
    table_rep c' L' ((set_bucket t (bucket_idx t key) (\<lparr>b_key = key, b_slot = Many_values [obj]\<rparr> # bs))\<lparr>t_size := t_size t + 1\<rparr>)"
proof -
  let ?L = "L(mem_bucket c key \<mapsto> (node_offset, new # ns), new \<mapsto> (value_offset, [val]))"
  have new: "L new = None"
    using fresh by (simp add: fresh_storage_def)
  obtain m1 m2 m3 where m: "cclist_init bd (tm_list c) new value_offset = Inr m1"
    "cclist_insert_first bd m1 (mem_bucket c key) new = Inr m2" "cclist_insert_first bd m2 new val = Inr m3" "separate m3 ?L"
    "same_storage (tm_list c) m3" "owned ?L = {head_of new, new + node_offset, val + value_offset} \<union> owned L"
    using new_node_lists [OF table_repD(1) [OF rep] f(2) fresh, of bd] by blast
  let ?c = "c\<lparr>tm_keys := (tm_keys c)(new \<mapsto> key), tm_value := (tm_value c)(val \<mapsto> obj), tm_list := m3,
              tm_size := tm_size c + 1\<rparr>"
  have keep: "node_rep ?c ?L a n" if "node_rep c L a n" "L b = Some (node_offset, ys)" "a \<in> set ys" for a n b ys
    by (rule node_rep_owned [OF that(1)])
      (use fresh_not_node [OF fresh that(2,3)] fresh_value_kept [OF fresh] f(2) in auto)
  have "table_rep ?c ?L ((set_bucket t (bucket_idx t key) (\<lparr>b_key = key, b_slot = Many_values [obj]\<rparr> # bs))\<lparr>t_size := t_size t + 1\<rparr>)"
  proof (rule table_rep_set_bucket [OF rep bucket_idx_less [OF table_repD(5) [OF rep]]])
    have "list_all2 (node_rep ?c ?L) ns bs"
      by (rule list.rel_mono_strong [OF f(3)]) (use keep [OF _ f(2)] in blast)
    then show "list_all2 (node_rep ?c ?L) (new # ns) (\<lparr>b_key = key, b_slot = Many_values [obj]\<rparr> # bs)"
      by (simp add: node_rep_def)
    show "?L (bucket_at c (bucket_idx t key)) = Some (node_offset, new # ns)"
      using f(1,2) new by auto
    show "?L (bucket_at c i) = Some (node_offset, ns')"
      if "i < t_capacity t" "i \<noteq> bucket_idx t key" "L (bucket_at c i) = Some (node_offset, ns')" for i ns'
      using bucket_at_inj [OF rep that(1) bucket_idx_less [OF table_repD(5) [OF rep]], of key] that f(1) new by auto
    show "node_rep ?c ?L a n" if "L (bucket_at c i) = Some (node_offset, ns')" "a \<in> set ns'" "node_rep c L a n" for i ns' a n
      by (rule keep [OF that(3,1,2)])
  qed (use m in simp_all)
  moreover have "all_held ?c ?L" if held: "all_held c L"
  proof (rule all_held_grows [OF held])
    have node: "table_node ?c ?L new"
      using f(1,2) new bucket_idx_less [OF table_repD(5) [OF rep], of key] table_repD(2) [OF rep]
      by (auto simp: table_node_def bucket_at_def)
    then have "table_value ?c ?L val"
      using multi table_repD(4) [OF rep] unfolding table_value_def
      by (intro conjI exI [of _ new] exI [of _ "[val]"]) simp_all
    then show "v \<in> dom (tm_value c) \<or> table_value ?c ?L v" if "v \<in> dom (tm_value ?c)" for v
      using that by auto
    show "a \<in> dom (tm_keys c) \<or> table_node ?c ?L a" if "a \<in> dom (tm_keys ?c)" for a
      using that node by auto
    show "\<exists>zs. ?L l = Some (off, zs) \<and> set ys \<subseteq> set zs" if "L l = Some (off, ys)" for l off ys
      using that f(2) new by auto
  qed simp_all
  then have "grows c L new val ?c ?L"
    using m(5,6) f(2) by (auto simp: grows_def)
  ultimately show ?thesis
    using m by blast
qed

lemma insert_many_rep:
  assumes rep: "table_rep c L t" and fresh: "fresh_storage c L new val"
    and ins: "cctable_insert_many t key obj = Inr t'" and multi: "t_allow_multiple t"
  shows "\<exists>c' L'. mem_insert_many bd c new val key obj = Some (Inr c') \<and> table_rep c' L' t' \<and> grows c L new val c' L'"
proof -
  obtain bs ns where f: "mem_bucket c key = bucket_at c (bucket_idx t key)" "get_bucket t (bucket_idx t key) = Inr bs"
    "L (mem_bucket c key) = Some (node_offset, ns)" "list_all2 (node_rep c L) ns bs"
    "mem_find bd c key = Some (Inr (case find_node key bs of None \<Rightarrow> NULL | Some (us, n, vs) \<Rightarrow> ns ! length us))"
    by (rule mem_find_spec [OF rep, of key]) blast
  show ?thesis
  proof (cases "find_node key bs")
    case None
    with insert_many_missing_rep [OF rep fresh f(1,3,4) multi, of bd obj] f(2,5) ins show ?thesis
      by (auto simp: mem_insert_many_def cctable_insert_many_def)
  next
    case (Some found)
    then obtain us n vs where n: "find_node key bs = Some (us, n, vs)"
      by (cases found) auto
    then obtain ws where ws: "b_slot n = Many_values ws"
      using ins f(2) by (cases "b_slot n") (auto simp: cctable_insert_many_def)
    obtain as a zs where "ns = as @ a # zs" "ns ! length us = a"
      by (rule found_node [OF f(4) n])
    then have "ns ! length us \<noteq> NULL"
      using found_not_null [OF rep, of "mem_bucket c key" as a zs] f(3) by simp
    with insert_many_found_rep [OF rep fresh f(1,3,4) n ws multi, of bd obj] f(2,5) n ws ins show ?thesis
      by (auto simp: mem_insert_many_def cctable_insert_many_def)
  qed
qed

lemma insert_rep:
  assumes "table_rep c L t" "fresh_storage c L new val" "cctable_insert t key obj = Inr t'"
  shows "\<exists>c' L'. mem_insert bd c new val key obj = Some (Inr c') \<and> table_rep c' L' t' \<and> grows c L new val c' L'"
  using insert_single_rep [OF assms(1,2), of key obj t' bd] insert_many_rep [OF assms(1,2), of key obj t' bd]
    assms(3) table_repD(4) [OF assms(1)]
  by (auto simp: mem_insert_def cctable_insert_def)

end
