(* ===== verification/CC_TableMemProps.thy ===== *)
theory CC_TableMemProps
  imports CC_TableMem CC_TableProps
begin

text \<open>
  The table in memory behaves as the table of sequences: lookups and iteration on any memory that
  represents a table, and whole histories from initialisation on.
\<close>

section \<open>Lookups\<close>

lemma get_one_rep:
  assumes rep: "table_rep c L t" and got: "cctable_get_one bd t key = Inr v"
  shows "mem_get_one bd c key = Some (Inr v)"
proof -
  obtain bs ns where f: "get_bucket t (bucket_idx t key) = Inr bs" "L (mem_bucket c key) = Some (node_offset, ns)"
    "list_all2 (node_rep c L) ns bs"
    "mem_find bd c key = Some (Inr (case find_node key bs of None \<Rightarrow> NULL | Some (us, n, vs) \<Rightarrow> ns ! length us))"
    by (rule mem_find_spec [OF rep, of key]) blast
  have ok: "ccassert bd (\<not> t_allow_multiple t) = Inr ()"
    using got by (cases "ccassert bd (\<not> t_allow_multiple t)") (simp_all add: cctable_get_one_def)
  show ?thesis
  proof (cases "find_node key bs")
    case None
    then show ?thesis
      using f ok got table_repD(4) [OF rep] by (simp add: mem_get_one_def cctable_get_one_def)
  next
    case (Some found)
    then obtain us n vs where n: "find_node key bs = Some (us, n, vs)"
      by (cases found) auto
    obtain as a zs where ns: "ns = as @ a # zs" "ns ! length us = a" "node_rep c L a n"
      by (rule found_node [OF f(3) n])
    have "a \<noteq> NULL"
      using found_not_null [OF rep, of "mem_bucket c key" as a zs] f(2) ns(1) by simp
    moreover have "one_value (b_slot n) = Inr v"
      using got ok f(1) n by (simp add: cctable_get_one_def)
    then have "tm_one c a = Some v"
      using ns(3) by (cases "b_slot n") (auto simp: node_rep_def)
    ultimately show ?thesis
      using f(4) ns(2) n ok table_repD(4) [OF rep] by (simp add: mem_get_one_def)
  qed
qed

text \<open>A lookup in a multi-valued table answers the header of the list of values.\<close>

definition holds_values :: "tmem \<Rightarrow> addr \<Rightarrow> addr list \<Rightarrow> bool" where
  "holds_values c l vs \<longleftrightarrow>
     (\<exists>as. wf_list (tm_list c) l value_offset as \<and> map (tm_value c) as = map Some vs)"

lemma get_many_rep:
  assumes rep: "table_rep c L t" and got: "cctable_get_many bd t key = Inr vs"
  shows "\<exists>l. mem_get_many bd c key = Some (Inr l) \<and>
    (case vs of None \<Rightarrow> l = NULL | Some ws \<Rightarrow> holds_values c l ws)"
proof -
  obtain bs ns where f: "get_bucket t (bucket_idx t key) = Inr bs" "L (mem_bucket c key) = Some (node_offset, ns)"
    "list_all2 (node_rep c L) ns bs"
    "mem_find bd c key = Some (Inr (case find_node key bs of None \<Rightarrow> NULL | Some (us, n, vs) \<Rightarrow> ns ! length us))"
    by (rule mem_find_spec [OF rep, of key]) blast
  have ok: "ccassert bd (t_allow_multiple t) = Inr ()"
    using got by (cases "ccassert bd (t_allow_multiple t)") (simp_all add: cctable_get_many_def)
  show ?thesis
  proof (cases "find_node key bs")
    case None
    then show ?thesis
      using f ok got table_repD(4) [OF rep] by (auto simp: mem_get_many_def cctable_get_many_def)
  next
    case (Some found)
    then obtain us n zs where n: "find_node key bs = Some (us, n, zs)"
      by (cases found) auto
    obtain as a ys where ns: "ns ! length us = a" "node_rep c L a n"
      by (rule found_node [OF f(3) n])
    have "\<exists>ws. vs = Some ws \<and> b_slot n = Many_values ws"
      using got ok f(1) n by (cases "b_slot n") (auto simp: cctable_get_many_def)
    then obtain ws xs where "vs = Some ws" "L a = Some (value_offset, xs)" "map (tm_value c) xs = map Some ws"
      using ns(2) by (auto simp: node_rep_def)
    then have "vs = Some ws" "holds_values c a ws"
      using separateD(1) [OF table_repD(1) [OF rep]] by (auto simp: holds_values_def)
    then show ?thesis
      using f(4) ns(1) n ok table_repD(4) [OF rep] by (simp add: mem_get_many_def)
  qed
qed

section \<open>Iteration\<close>

lemma iter_values_fold:
  assumes "wf_list (tm_list c) l value_offset (xs @ ys)" "map (tm_value c) ys = map Some vs"
  shows "iter_values c l f (case ys of [] \<Rightarrow> NULL | y # _ \<Rightarrow> y) u = Some (Inr (fold f vs u))"
  using assms
proof (induction ys arbitrary: xs vs u)
  case Nil
  then show ?case by (simp add: iter_values.simps)
next
  case (Cons y ys)
  then obtain v vs' where vs: "vs = v # vs'" "tm_value c y = Some v" "map (tm_value c) ys = map Some vs'"
    by (cases vs) auto
  have "y \<noteq> NULL" "cclist_next (tm_list c) l y = Inr (case ys of [] \<Rightarrow> NULL | y # _ \<Rightarrow> y)"
    using wf_listD(2) [OF Cons.prems(1)] next_of_list [OF Cons.prems(1)] by auto
  moreover have "iter_values c l f (case ys of [] \<Rightarrow> NULL | y # _ \<Rightarrow> y) (f v u) = Some (Inr (fold f vs' (f v u)))"
    using Cons.IH [of "xs @ [y]" vs' "f v u"] Cons.prems(1) vs(3) by simp
  ultimately show ?case
    using vs by (subst iter_values.simps) simp
qed

lemma iter_nodes_bucket:
  assumes rep: "table_rep c L t"
    and "wf_list (tm_list c) l node_offset (xs @ ys)" "list_all2 (node_rep c L) ys bs"
    and "iter_bucket (t_allow_multiple t) f bs u = Inr u'"
  shows "iter_nodes bd c l f (case ys of [] \<Rightarrow> NULL | y # _ \<Rightarrow> y) u = Some (Inr u')"
  using assms(2-)
proof (induction ys arbitrary: xs bs u)
  case Nil
  then show ?case by (simp add: iter_nodes.simps)
next
  case (Cons y ys)
  then obtain b bs' where bs: "bs = b # bs'" "node_rep c L y b" "list_all2 (node_rep c L) ys bs'"
    by (auto simp: list_all2_Cons1)
  have y: "y \<noteq> NULL" "tm_keys c y = Some (b_key b)" "cclist_next (tm_list c) l y = Inr (case ys of [] \<Rightarrow> NULL | y # _ \<Rightarrow> y)"
    using wf_listD(2) [OF Cons.prems(1)] next_of_list [OF Cons.prems(1)] bs(2) by (auto simp: node_rep_def)
  have rest: "iter_nodes bd c l f (case ys of [] \<Rightarrow> NULL | y # _ \<Rightarrow> y) w = Some (Inr u')"
    if "iter_bucket (t_allow_multiple t) f bs' w = Inr u'" for w
    using Cons.IH [of "xs @ [y]" bs' w] Cons.prems(1) bs(3) that by simp
  show ?case
  proof (cases "t_allow_multiple t")
    case False
    then obtain v where v: "b_slot b = One_value v" "iter_bucket False f bs' (f (b_key b) v u) = Inr u'"
      using Cons.prems(3) bs(1) by (cases "b_slot b") auto
    then show ?thesis
      using y rest False bs(2) table_repD(4) [OF rep] by (subst iter_nodes.simps) (simp add: node_rep_def)
  next
    case True
    then obtain vs where v: "b_slot b = Many_values vs" "iter_bucket True f bs' (fold (f (b_key b)) vs u) = Inr u'"
      using Cons.prems(3) bs(1) by (cases "b_slot b") auto
    then obtain as where as: "L y = Some (value_offset, as)" "map (tm_value c) as = map Some vs"
      using bs(2) by (auto simp: node_rep_def)
    have wf: "wf_list (tm_list c) y value_offset as"
      by (rule separateD(1) [OF table_repD(1) [OF rep] as(1)])
    then have "iter_values c y (f (b_key b)) (case as of [] \<Rightarrow> NULL | a # _ \<Rightarrow> a) u = Some (Inr (fold (f (b_key b)) vs u))"
      using iter_values_fold [of c y "[]" as vs "f (b_key b)" u] as(2) by simp
    then show ?thesis
      using y rest True v first_of_list [OF wf, of bd] table_repD(4) [OF rep]
      by (subst iter_nodes.simps) simp
  qed
qed

lemma iter_from_rep:
  assumes rep: "table_rep c L t" and "i \<le> t_capacity t"
    and "iter_buckets (t_allow_multiple t) f (drop (unat i) (t_buckets t)) u = Inr u'"
  shows "iter_from bd c f i u = Some (Inr u')"
  using assms(2,3)
proof (induction "unat (t_capacity t - i)" arbitrary: i u rule: less_induct)
  case less
  show ?case
  proof (cases "i < t_capacity t")
    case False
    then have "i = t_capacity t"
      using less.prems(1) by simp
    then show ?thesis
      using less.prems(2) table_repD(2,6) [OF rep] by (subst iter_from.simps) simp
  next
    case True
    then have i: "unat i < length (t_buckets t)" "i + 1 \<le> t_capacity t" "unat (i + 1) = Suc (unat i)"
      "unat (t_capacity t - (i + 1)) < unat (t_capacity t - i)"
      using table_repD(6) [OF rep] by (simp_all add: word_less_nat_alt) unat_arith+
    obtain ns where ns: "L (bucket_at c i) = Some (node_offset, ns)" "list_all2 (node_rep c L) ns (t_buckets t ! unat i)"
      by (rule table_rep_bucket [OF rep True])
    have wf: "wf_list (tm_list c) (bucket_at c i) node_offset ns"
      by (rule separateD(1) [OF table_repD(1) [OF rep] ns(1)])
    obtain w where w: "iter_bucket (t_allow_multiple t) f (t_buckets t ! unat i) u = Inr w"
      "iter_buckets (t_allow_multiple t) f (drop (unat (i + 1)) (t_buckets t)) w = Inr u'"
      using less.prems(2) i(1,3) by (auto simp: Cons_nth_drop_Suc [symmetric] bindE_eq_Inr)
    have "iter_nodes bd c (bucket_at c i) f (case ns of [] \<Rightarrow> NULL | y # _ \<Rightarrow> y) u = Some (Inr w)"
      using iter_nodes_bucket [OF rep, of "bucket_at c i" "[]" ns, OF _ ns(2) w(1)] wf by simp
    then show ?thesis
      using less.hyps [OF i(4,2) w(2)] True first_of_list [OF wf, of bd] table_repD(2) [OF rep]
      by (subst iter_from.simps) simp
  qed
qed

lemma iter_rep:
  assumes rep: "table_rep c L t" and "cctable_iter t f u = Inr u'"
  shows "mem_iter bd c f u = Some (Inr u')"
proof -
  have "all_buckets t = Inr (t_buckets t)"
    using table_repD(6) [OF rep] by (simp add: all_buckets_def)
  then show ?thesis
    using iter_from_rep [OF rep, of 0 f u u' bd] assms(2) by (simp add: mem_iter_def cctable_iter_def)
qed

section \<open>Initialisation\<close>

text \<open>The storage of a bucket array.\<close>

definition bucket_storage :: "lmem \<Rightarrow> addr \<Rightarrow> size_t \<Rightarrow> bool" where
  "bucket_storage m arr capacity \<longleftrightarrow>
     arr \<noteq> NULL \<and> unat arr + 32 * unat capacity \<le> 2 ^ 64 \<and>
     (\<forall>i < capacity. hdrs m (arr + 32 * i) \<noteq> None \<and> nodes m (head_of (arr + 32 * i)) \<noteq> None)"

definition empty_lists :: "addr \<Rightarrow> size_t \<Rightarrow> lists" where
  "empty_lists arr k = (\<lambda>l. if \<exists>i < k. l = arr + 32 * i then Some (node_offset, []) else None)"

lemma bucket_inj:
  assumes "bucket_storage m arr capacity" "i < capacity" "j < capacity" "arr + 32 * i = arr + 32 * j"
  shows "i = j"
  using element_inj [OF _ assms(2-4)] assms(1) by (simp add: bucket_storage_def)

lemma bucket_not_null:
  assumes "bucket_storage m arr capacity" "i < capacity"
  shows "arr + 32 * i \<noteq> NULL"
proof -
  have st: "arr \<noteq> NULL" "unat arr + 32 * unat capacity \<le> 2 ^ 64"
    using assms(1) unfolding bucket_storage_def by blast+
  then have "unat arr \<noteq> 0"
    by (simp add: unat_eq_0)
  then show ?thesis
    using element_unat [OF st(2) assms(2)] by (metis add_is_0 unat_0)
qed

lemma owned_empty_lists: "owned (empty_lists arr k) = (\<lambda>i. head_of (arr + 32 * i)) ` {..<k}"
  by (auto simp: owned_def empty_lists_def footprint_def)

lemma init_buckets_separate:
  assumes "bucket_storage m arr capacity" "i \<le> capacity" "separate m (empty_lists arr i)"
  shows "\<exists>m'. init_buckets bd arr capacity i m = Inr m' \<and> separate m' (empty_lists arr capacity) \<and> same_storage m m'"
  using assms
proof (induction "unat (capacity - i)" arbitrary: i m rule: less_induct)
  case less
  show ?case
  proof (cases "i < capacity")
    case False
    then have "i = capacity"
      using less.prems(2) by simp
    then show ?thesis
      using less.prems(3) by (subst init_buckets.simps) simp
  next
    case True
    note st = less.prems(1)
    have i: "i + 1 \<le> capacity" "unat (capacity - (i + 1)) < unat (capacity - i)" "j < i + 1 \<longleftrightarrow> j < i \<or> j = i" for j
      using True by unat_arith+
    have apart: "arr + 32 * j \<noteq> arr + 32 * i" if "j < i" for j
      using bucket_inj [OF st less_trans [OF that True] True] that by blast
    then have "\<not> (\<exists>j < i. arr + 32 * i = arr + 32 * j)"
      by metis
    then have "empty_lists arr i (arr + 32 * i) = None"
      by (simp only: empty_lists_def if_False)
    moreover have "head_of (arr + 32 * i) \<notin> owned (empty_lists arr i)"
      using apart unfolding owned_empty_lists head_of_def
      by (metis (no_types, lifting) add_right_cancel imageE lessThan_iff)
    ultimately obtain m1 where m1: "cclist_init bd m (arr + 32 * i) node_offset = Inr m1"
      "separate m1 ((empty_lists arr i)(arr + 32 * i \<mapsto> (node_offset, [])))" "same_storage m m1"
      using separate_init [OF less.prems(3) _ bucket_not_null [OF st True]] st True
      unfolding bucket_storage_def by blast
    have "(empty_lists arr i)(arr + 32 * i \<mapsto> (node_offset, [])) = empty_lists arr (i + 1)"
      by (auto simp: empty_lists_def fun_eq_iff i(3))
    moreover have "bucket_storage m1 arr capacity"
      using st same_storageD [OF m1(3)] unfolding bucket_storage_def by blast
    ultimately obtain m' where "init_buckets bd arr capacity (i + 1) m1 = Inr m'"
      "separate m' (empty_lists arr capacity)" "same_storage m1 m'"
      using less.hyps [OF i(2) _ i(1)] m1(2) by metis
    then show ?thesis
      using True m1(1) same_storage_trans [OF m1(3)] by (subst init_buckets.simps) simp
  qed
qed

lemma init_rep:
  assumes st: "bucket_storage m arr (next_power_of_2 n)" and t: "cctable_init n multi = Inr t" "next_power_of_2 n \<noteq> 0"
  shows "\<exists>c. mem_init bd m arr n multi = Inr c \<and> table_rep c (empty_lists arr (next_power_of_2 n)) t \<and>
    same_storage m (tm_list c) \<and> all_held c (empty_lists arr (next_power_of_2 n))"
proof -
  let ?n = "next_power_of_2 n"
  have t': "t = \<lparr>t_capacity = ?n, t_size = 0, t_allow_multiple = multi, t_buckets = replicate (unat ?n) []\<rparr>"
    using t(1) by (simp add: cctable_init_def Let_def split: if_splits)
  have "separate m (empty_lists arr 0)"
    by (simp add: separate_def empty_lists_def)
  then obtain m' where m': "init_buckets bd arr ?n 0 m = Inr m'" "separate m' (empty_lists arr ?n)" "same_storage m m'"
    using init_buckets_separate [OF st, of 0] by auto
  have "empty_lists arr ?n (arr + 32 * i) = Some (node_offset, [])" if "i < ?n" for i
    using that by (auto simp: empty_lists_def)
  then show ?thesis
    using m' t' t(2) st
    by (simp add: mem_init_def Let_def table_rep_def bucket_at_def bucket_storage_def word_less_nat_alt all_held_def)
qed

section \<open>Histories\<close>

text \<open>
  A history of insertions, each with its key and object and the addresses its allocations answer.
\<close>

type_synonym insertion = "(byte list \<times> addr) \<times> (addr \<times> addr)"

fun mem_insert_all :: "build \<Rightarrow> insertion list \<Rightarrow> tmem \<Rightarrow> tmem res option" where
  "mem_insert_all bd [] c = Some (Inr c)"
| "mem_insert_all bd (((key, object), (new, val)) # ops) c =
     (case mem_insert bd c new val key object of
        None \<Rightarrow> None
      | Some (Inl e) \<Rightarrow> Some (Inl e)
      | Some (Inr c') \<Rightarrow> mem_insert_all bd ops c')"

fun taken :: "addr \<times> addr \<Rightarrow> addr list" where
  "taken (new, val) = [head_of new, new + node_offset, val + value_offset]"

lemma insert_all_rep:
  assumes "table_rep c L t" "\<forall>(new, val) \<in> snd ` set ops. fresh_storage c L new val"
    and "distinct (concat (map (taken \<circ> snd) ops))" "insert_all cctable_insert (map fst ops) t = Inr t'"
  shows "\<exists>c' L'. mem_insert_all bd ops c = Some (Inr c') \<and> table_rep c' L' t' \<and> (all_held c L \<longrightarrow> all_held c' L')"
  using assms
proof (induction ops arbitrary: c L t)
  case (Cons op ops)
  obtain key obj new val where op: "op = ((key, obj), (new, val))"
    by (metis prod.exhaust)
  obtain t1 where t1: "cctable_insert t key obj = Inr t1" "insert_all cctable_insert (map fst ops) t1 = Inr t'"
    using Cons.prems(4) by (auto simp: op bindE_eq_Inr)
  have "fresh_storage c L new val"
    using Cons.prems(2) op by auto
  then obtain c1 L1 where c1: "mem_insert bd c new val key obj = Some (Inr c1)" "table_rep c1 L1 t1" "grows c L new val c1 L1"
    using insert_rep [OF Cons.prems(1) _ t1(1), of new val bd] by blast
  have "fresh_storage c1 L1 new' val'" if "(new', val') \<in> snd ` set ops" for new' val'
  proof (rule fresh_after [OF c1(3)])
    show "fresh_storage c L new' val'"
      using Cons.prems(2) that by auto
    have "set (taken (new, val)) \<inter> set (taken (new', val')) = {}"
      using Cons.prems(3) that op by fastforce
    then show "{head_of new, new + node_offset, val + value_offset} \<inter>
        {head_of new', new' + node_offset, val' + value_offset} = {}"
      by simp
  qed
  then have "\<forall>(new, val) \<in> snd ` set ops. fresh_storage c1 L1 new val"
    by blast
  then obtain c' L' where "mem_insert_all bd ops c1 = Some (Inr c')" "table_rep c' L' t'" "all_held c1 L1 \<longrightarrow> all_held c' L'"
    using Cons.IH [OF c1(2) _ _ t1(2)] Cons.prems(3) by auto
  moreover have "all_held c L \<longrightarrow> all_held c1 L1"
    using c1(3) by (simp add: grows_def)
  ultimately show ?case
    using c1(1) by (auto simp: op)
qed auto

text \<open>Storage for the bucket array and for every node and value of a history, nowhere shared.\<close>

definition storage_for :: "lmem \<Rightarrow> addr \<Rightarrow> size_t \<Rightarrow> insertion list \<Rightarrow> bool" where
  "storage_for m arr capacity ops \<longleftrightarrow>
     bucket_storage m arr capacity \<and> distinct (concat (map (taken \<circ> snd) ops)) \<and>
     (\<forall>(new, val) \<in> snd ` set ops. new \<noteq> NULL \<and> val \<noteq> NULL \<and> hdrs m new \<noteq> None \<and>
        (\<forall>p \<in> set (taken (new, val)). nodes m p \<noteq> None \<and> (\<forall>i < capacity. p \<noteq> head_of (arr + 32 * i))))"

lemma storage_fresh:
  assumes st: "storage_for m arr capacity ops" and op: "(new, val) \<in> snd ` set ops"
    and same: "same_storage m (tm_list c)"
  shows "fresh_storage c (empty_lists arr capacity) new val"
proof -
  have op': "new \<noteq> NULL" "val \<noteq> NULL" "hdrs m new \<noteq> None"
    "\<And>p. p \<in> set (taken (new, val)) \<Longrightarrow> nodes m p \<noteq> None \<and> (\<forall>i < capacity. p \<noteq> head_of (arr + 32 * i))"
    using st op unfolding storage_for_def by blast+
  have "distinct (taken (new, val))"
    using st op by (auto simp: storage_for_def distinct_concat_iff)
  moreover have "empty_lists arr capacity new = None"
    using op'(4) [of "head_of new"] by (auto simp: empty_lists_def)
  moreover have "p \<notin> owned (empty_lists arr capacity)" if "p \<in> set (taken (new, val))" for p
    using op'(4) [OF that] unfolding owned_empty_lists by blast
  ultimately show ?thesis
    using op' unfolding fresh_storage_def by (simp add: same_storageD [OF same])
qed

lemma filled_rep:
  assumes n: "1 \<le> unat n" "unat n \<le> 2 ^ 32" and st: "storage_for m arr (next_power_of_2 n) ops"
    and t: "cctable_init n multi = Inr t0" "insert_all cctable_insert (map fst ops) t0 = Inr t"
  shows "\<exists>c0 c L. mem_init bd m arr n multi = Inr c0 \<and> mem_insert_all bd ops c0 = Some (Inr c) \<and> table_rep c L t \<and>
    all_held c L"
proof -
  have "next_power_of_2 n \<noteq> 0"
    using init_wf [OF n, of multi] t(1) by (auto simp: wf_table_def cctable_init_def Let_def split: if_splits)
  then obtain c0 where c0: "mem_init bd m arr n multi = Inr c0"
    "table_rep c0 (empty_lists arr (next_power_of_2 n)) t0" "same_storage m (tm_list c0)"
    "all_held c0 (empty_lists arr (next_power_of_2 n))"
    using init_rep [OF _ t(1), of m arr bd] st by (auto simp: storage_for_def)
  have "\<forall>(new, val) \<in> snd ` set ops. fresh_storage c0 (empty_lists arr (next_power_of_2 n)) new val"
    using storage_fresh [OF st _ c0(3)] by blast
  then show ?thesis
    using insert_all_rep [OF c0(2) _ _ t(2), of bd] c0(1,4) st by (auto simp: storage_for_def)
qed

text \<open>
  C9: The table, built in memory out of pointer lists, refines the table of sequences.  From any
  storage for its buckets, nodes and values, initialisation and any history of insertions follow no
  invalid pointer, end, and leave a memory that represents the table the same insertions make of
  sequences; a lookup through the pointers answers the first value inserted, or the header of a
  well-formed list of all values, the last one first, and NULL under a key never inserted; and
  iteration through the pointers makes the same calls.
\<close>

theorem table_in_memory:
  assumes "1 \<le> unat n" "unat n \<le> 2 ^ 32" "storage_for m arr (next_power_of_2 n) ops"
  shows "\<exists>t0 t c0 c L. cctable_init n multi = Inr t0 \<and> insert_all cctable_insert (map fst ops) t0 = Inr t \<and>
    mem_init bd m arr n multi = Inr c0 \<and> mem_insert_all bd ops c0 = Some (Inr c) \<and> table_rep c L t \<and>
    (\<forall>key. let vs = map snd (filter (\<lambda>e. fst e = key) (map fst ops)) in
       if multi then \<exists>l. mem_get_many bd c key = Some (Inr l) \<and> (if vs = [] then l = NULL else holds_values c l (rev vs))
       else mem_get_one bd c key = Some (Inr (case vs of [] \<Rightarrow> NULL | v # _ \<Rightarrow> v))) \<and>
    (\<forall>(f :: byte list \<Rightarrow> addr \<Rightarrow> 'u \<Rightarrow> 'u) u. \<exists>u'. cctable_iter t f u = Inr u' \<and> mem_iter bd c f u = Some (Inr u'))"
proof -
  let ?vs = "\<lambda>key. map snd (filter (\<lambda>e. fst e = key) (map fst ops))"
  obtain t0 t where t: "cctable_init n multi = Inr t0" "insert_all cctable_insert (map fst ops) t0 = Inr t"
    "wf_table t" "t_allow_multiple t = multi"
    "\<forall>k. values_of (entries t) k = (if multi then rev (?vs k) else take 1 (?vs k))"
    using filled_single [OF assms(1,2), of "map fst ops"] filled_multi [OF assms(1,2), of "map fst ops"]
    by (cases multi) auto
  obtain c0 c L where c: "mem_init bd m arr n multi = Inr c0" "mem_insert_all bd ops c0 = Some (Inr c)" "table_rep c L t"
    using filled_rep [OF assms t(1,2), of bd] by blast
  have "mem_get_one bd c key = Some (Inr (case ?vs key of [] \<Rightarrow> NULL | v # _ \<Rightarrow> v))" if "\<not> multi" for key
    by (rule get_one_rep [OF c(3)]) (use that t(3-5) in \<open>auto simp: get_one_value split: list.split\<close>)
  moreover have "\<exists>l. mem_get_many bd c key = Some (Inr l) \<and> (if ?vs key = [] then l = NULL else holds_values c l (rev (?vs key)))"
    if "multi" for key
    using get_many_rep [OF c(3) get_many_values [OF t(3)], of bd key] that t(4,5) by (simp split: if_splits)
  moreover have "\<exists>u'. cctable_iter t f u = Inr u' \<and> mem_iter bd c f u = Some (Inr u')" for f :: "byte list \<Rightarrow> addr \<Rightarrow> 'u \<Rightarrow> 'u" and u
    using iter_rep [OF c(3) iter_entries [OF t(3), of f u], of bd] iter_entries [OF t(3), of f u] by simp
  ultimately show ?thesis
    using t(1,2) c unfolding Let_def by (cases multi) (simp_all only: if_True if_False simp_thms, blast+)
qed

definition ex_table_mem :: lmem where
  "ex_table_mem =
     (let node = \<lparr>n_prev = 0, n_next = 0\<rparr>; header = \<lparr>l_size = 0, l_offset = 0\<rparr> in
      \<lparr>nodes = [4104 \<mapsto> node, 4136 \<mapsto> node, 8200 \<mapsto> node, 8224 \<mapsto> node, 12296 \<mapsto> node,
                16392 \<mapsto> node, 16416 \<mapsto> node, 20488 \<mapsto> node],
       hdrs = [4096 \<mapsto> header, 4128 \<mapsto> header, 8192 \<mapsto> header, 16384 \<mapsto> header]\<rparr>)"

definition ex_insertions :: "insertion list" where
  "ex_insertions = [((bytes ''a'', 10), (8192, 12288)), ((bytes ''a'', 20), (16384, 20480))]"

lemma ex_storage: "storage_for ex_table_mem 4096 (next_power_of_2 2) ex_insertions"
proof -
  have two: "next_power_of_2 2 = 2"
    by (simp add: next_power_of_2_def)
  have small: "i < 2 \<Longrightarrow> i = 0 \<or> i = 1" for i :: size_t
    by unat_arith
  have all: "(\<forall>i < 2. P i) \<longleftrightarrow> P 0 \<and> P 1" for P :: "size_t \<Rightarrow> bool"
    using small by fastforce
  have "bucket_storage ex_table_mem 4096 2"
    by (simp add: bucket_storage_def all ex_table_mem_def Let_def head_of_def)
  moreover have "distinct (concat (map (taken \<circ> snd) ex_insertions))"
    by (simp add: ex_insertions_def head_of_def node_offset_def value_offset_def)
  moreover have "nodes ex_table_mem p \<noteq> None \<and> (\<forall>i < 2. p \<noteq> head_of (4096 + 32 * i))"
    if "(new, val) \<in> snd ` set ex_insertions" "p \<in> set (taken (new, val))" for new val p
    using that unfolding all
    by (auto simp: ex_insertions_def head_of_def node_offset_def value_offset_def ex_table_mem_def Let_def)
  moreover have "new \<noteq> NULL \<and> val \<noteq> NULL \<and> hdrs ex_table_mem new \<noteq> None"
    if "(new, val) \<in> snd ` set ex_insertions" for new val
    using that by (auto simp: ex_insertions_def ex_table_mem_def Let_def)
  ultimately show ?thesis
    unfolding storage_for_def two by blast
qed

theorem table_in_memory_witness:
  "\<exists>c0 c l. mem_init Debug ex_table_mem 4096 2 True = Inr c0 \<and> mem_insert_all Debug ex_insertions c0 = Some (Inr c) \<and>
     mem_get_many Debug c (bytes ''a'') = Some (Inr l) \<and> holds_values c l [20, 10] \<and>
     mem_get_many Debug c (bytes ''b'') = Some (Inr NULL)"
proof -
  obtain c0 c where c: "mem_init Debug ex_table_mem 4096 2 True = Inr c0" "mem_insert_all Debug ex_insertions c0 = Some (Inr c)"
    "\<forall>key. let vs = map snd (filter (\<lambda>e. fst e = key) (map fst ex_insertions)) in
      \<exists>l. mem_get_many Debug c key = Some (Inr l) \<and> (if vs = [] then l = NULL else holds_values c l (rev vs))"
    using table_in_memory [OF _ _ ex_storage, of True Debug] by auto
  show ?thesis
    using c(1,2) c(3) [rule_format, of "bytes ''a''"] c(3) [rule_format, of "bytes ''b''"]
    by (auto simp: ex_insertions_def bytes_def)
qed

end
