(* ===== verification/CC_TableMemFree.thy ===== *)
theory CC_TableMemFree
  imports CC_TableMemProps
begin

text \<open>
  De-initialisation of the table in memory (src/table.c): every node and every value is freed, and
  the loops that do it read the pointer that follows an object before the object is freed.
\<close>

section \<open>Clearing a list whose destructor works on the table's memory\<close>

type_synonym 'u table_des = "addr \<Rightarrow> tmem \<times> 'u \<Rightarrow> (tmem \<times> 'u) res option"

text \<open>\<^verbatim>\<open>cclist_clear\<close>, with a destructor that may itself clear a list.\<close>

partial_function (option) mem_clear_loop :: "'u table_des \<Rightarrow> addr \<Rightarrow> addr \<Rightarrow> tmem \<times> 'u \<Rightarrow> (tmem \<times> 'u) res option" where
  "mem_clear_loop des l item s =
     (if item = head_of l then Some (Inr s)
      else (case get_ptr (tm_list (fst s)) l item of Inl e \<Rightarrow> Some (Inl e) | Inr to_free \<Rightarrow>
        (case rd_next (tm_list (fst s)) item of Inl e \<Rightarrow> Some (Inl e) | Inr item' \<Rightarrow>
          (case des to_free s of
             None \<Rightarrow> None
           | Some (Inl e) \<Rightarrow> Some (Inl e)
           | Some (Inr s') \<Rightarrow> mem_clear_loop des l item' s'))))"

definition mem_clear :: "build \<Rightarrow> 'u table_des \<Rightarrow> addr \<Rightarrow> tmem \<times> 'u \<Rightarrow> (tmem \<times> 'u) res option" where
  "mem_clear bd des l s =
     (case bindE (ccassert bd (l \<noteq> NULL)) (\<lambda>_. rd_next (tm_list (fst s)) (head_of l)) of
        Inl e \<Rightarrow> Some (Inl e)
      | Inr item \<Rightarrow>
          map_option (\<lambda>r. bindE r (\<lambda>(c, u).
            bindE (rd_offset (tm_list c) l) (\<lambda>off.
            bindE (cclist_init bd (tm_list c) l off) (\<lambda>m. Inr (c\<lparr>tm_list := m\<rparr>, u)))))
            (mem_clear_loop des l item s))"

section \<open>The destructors\<close>

text \<open>
  Freed storage is unmapped; freeing it again is an error.  The union of a single-valued node holds no
  list, so it is in a multi-valued table only that a node takes a list header with it.
\<close>

definition forget_node :: "addr \<Rightarrow> lmem \<Rightarrow> lmem" where
  "forget_node p m = m\<lparr>nodes := (nodes m)(p := None)\<rparr>"

definition forget_header :: "addr \<Rightarrow> lmem \<Rightarrow> lmem" where
  "forget_header l m = forget_node (head_of l) (m\<lparr>hdrs := (hdrs m)(l := None)\<rparr>)"

definition free_value :: "tmem \<Rightarrow> addr \<Rightarrow> tmem res" where
  "free_value c v =
     (if tm_value c v = None then Inl BadDeref
      else Inr (c\<lparr>tm_value := (tm_value c)(v := None), tm_list := forget_node (v + value_offset) (tm_list c)\<rparr>))"

definition free_node :: "tmem \<Rightarrow> addr \<Rightarrow> tmem res" where
  "free_node c n =
     (if tm_keys c n = None then Inl BadDeref
      else Inr (c\<lparr>tm_keys := (tm_keys c)(n := None), tm_one := (tm_one c)(n := None),
        tm_list := forget_node (n + node_offset)
          (if tm_allow_multiple c then forget_header n (tm_list c) else tm_list c)\<rparr>))"

definition call_des :: "(addr \<Rightarrow> 'u \<Rightarrow> 'u) option \<Rightarrow> addr \<Rightarrow> 'u \<Rightarrow> 'u" where
  "call_des des v u = (case des of None \<Rightarrow> u | Some d \<Rightarrow> d v u)"

definition value_destructor :: "(addr \<Rightarrow> 'u \<Rightarrow> 'u) option \<Rightarrow> 'u table_des" where
  "value_destructor des v = (\<lambda>(c, u). Some (
     case tm_value c v of
       None \<Rightarrow> Inl BadDeref
     | Some w \<Rightarrow> bindE (free_value c v) (\<lambda>c. Inr (c, call_des des w u))))"

definition mem_destructor_single :: "(addr \<Rightarrow> 'u \<Rightarrow> 'u) option \<Rightarrow> 'u table_des" where
  "mem_destructor_single des n = (\<lambda>(c, u). Some (
     case tm_one c n of
       None \<Rightarrow> Inl BadDeref
     | Some w \<Rightarrow> bindE (free_node c n) (\<lambda>c. Inr (c, call_des des w u))))"

definition mem_destructor_many :: "build \<Rightarrow> (addr \<Rightarrow> 'u \<Rightarrow> 'u) option \<Rightarrow> 'u table_des" where
  "mem_destructor_many bd des n = (\<lambda>s.
     map_option (\<lambda>r. bindE r (\<lambda>(c, u). bindE (free_node c n) (\<lambda>c. Inr (c, u))))
       (mem_clear bd (value_destructor des) n s))"

definition mem_destructor :: "build \<Rightarrow> bool \<Rightarrow> (addr \<Rightarrow> 'u \<Rightarrow> 'u) option \<Rightarrow> 'u table_des" where
  "mem_destructor bd multi des = (if multi then mem_destructor_many bd des else mem_destructor_single des)"

section \<open>De-initialisation\<close>

function clear_from :: "build \<Rightarrow> (addr \<Rightarrow> 'u \<Rightarrow> 'u) option \<Rightarrow> size_t \<Rightarrow> size_t \<Rightarrow> addr \<Rightarrow> bool \<Rightarrow>
    tmem \<times> 'u \<Rightarrow> (tmem \<times> 'u) res option" where
  "clear_from bd des i capacity arr multi s =
     (if i < capacity then
        (case mem_clear bd (mem_destructor bd multi des) (arr + 32 * i) s of
           None \<Rightarrow> None
         | Some (Inl e) \<Rightarrow> Some (Inl e)
         | Some (Inr s') \<Rightarrow> clear_from bd des (i + 1) capacity arr multi s')
      else Some (Inr s))"
  by pat_completeness auto
termination
proof (relation "measure (\<lambda>(bd, des, i, capacity, arr, multi, s). unat (capacity - i))")
  fix i capacity :: size_t assume "i < capacity"
  then have "capacity - (i + 1) < capacity - i"
    by unat_arith
  then show "((bd, des, i + 1, capacity, arr, multi, s'), bd, des, i, capacity, arr, multi, s)
      \<in> measure (\<lambda>(bd, des, i, capacity, arr, multi, s). unat (capacity - i))"
    for bd :: build and des :: "(addr \<Rightarrow> 'u \<Rightarrow> 'u) option" and arr multi s s'
    by (simp add: word_less_nat_alt)
qed simp

declare clear_from.simps [simp del]

definition mem_deinit :: "build \<Rightarrow> tmem \<Rightarrow> (addr \<Rightarrow> 'u \<Rightarrow> 'u) option \<Rightarrow> 'u \<Rightarrow> (tmem \<times> 'u) res option" where
  "mem_deinit bd c des u =
     map_option (\<lambda>r. bindE r (\<lambda>(c, u).
       Inr (c\<lparr>tm_list := fold (\<lambda>i. forget_header (bucket_at c (of_nat i))) [0..<unat (tm_capacity c)] (tm_list c),
              tm_capacity := 0, tm_size := 0, tm_buckets := NULL\<rparr>, u)))
       (clear_from bd des 0 (tm_capacity c) (tm_buckets c) (tm_allow_multiple c) (c, u))"

section \<open>Clearing\<close>

text \<open>
  The loop, for any invariant \<^term>\<open>I\<close> of the objects still to come and the state, that keeps
  their nodes and the header.
\<close>

lemma mem_clear_loop_runs:
  assumes "wf_list m l off (xs @ ys)" "I ys s"
    and keeps: "\<And>zs s. I zs s \<Longrightarrow> hdrs (tm_list (fst s)) l = hdrs m l \<and>
      (\<forall>z \<in> set zs. nodes (tm_list (fst s)) (z + off) = nodes m (z + off))"
    and step: "\<And>z zs s. I (z # zs) s \<Longrightarrow> \<exists>s'. des z s = Some (Inr s') \<and> I zs s'"
  shows "\<exists>s'. mem_clear_loop des l (node_after l off ys) s = Some (Inr s') \<and> I [] s'"
  using assms(1,2)
proof (induction ys arbitrary: xs s)
  case Nil
  then show ?case by (simp add: mem_clear_loop.simps)
next
  case (Cons y ys)
  obtain s' where s': "des y s = Some (Inr s')" "I ys s'"
    using step [OF Cons.prems(2)] by blast
  have kept: "hdrs (tm_list (fst s)) l = hdrs m l" "nodes (tm_list (fst s)) (y + off) = nodes m (y + off)"
    using keeps [OF Cons.prems(2)] by auto
  have "y + off \<noteq> head_of l"
    using wf_list_head_not_node [OF Cons.prems(1)] by simp
  moreover have "get_ptr (tm_list (fst s)) l (y + off) = Inr y"
    using wf_listD(3) [OF Cons.prems(1)] kept(1) by (simp add: get_ptr_mapped)
  moreover have "rd_next m (y + off) = Inr (node_after l off ys)"
    using wf_list_next [of m l off "xs @ [y]" ys] Cons.prems(1) by simp
  then have "rd_next (tm_list (fst s)) (y + off) = Inr (node_after l off ys)"
    using kept(2) by (simp add: rd_next_def)
  moreover have "\<exists>s''. mem_clear_loop des l (node_after l off ys) s' = Some (Inr s'') \<and> I [] s''"
    using Cons.IH [of "xs @ [y]" s'] Cons.prems(1) s'(2) by simp
  ultimately show ?case
    using s'(1) by (subst mem_clear_loop.simps) simp
qed

lemma mem_clear_runs:
  assumes wf: "wf_list (tm_list c) l off xs" and I: "I xs (c, u)"
    and keeps: "\<And>zs s. I zs s \<Longrightarrow> hdrs (tm_list (fst s)) l = hdrs (tm_list c) l \<and>
      nodes (tm_list (fst s)) (head_of l) = nodes (tm_list c) (head_of l) \<and>
      (\<forall>z \<in> set zs. nodes (tm_list (fst s)) (z + off) = nodes (tm_list c) (z + off))"
    and step: "\<And>z zs s. I (z # zs) s \<Longrightarrow> \<exists>s'. des z s = Some (Inr s') \<and> I zs s'"
  shows "\<exists>c' u' m. mem_clear bd des l (c, u) = Some (Inr (c'\<lparr>tm_list := m\<rparr>, u')) \<and> I [] (c', u') \<and>
    only_touches (tm_list c') l {head_of l} m"
proof -
  obtain s' where s': "mem_clear_loop des l (node_after l off xs) (c, u) = Some (Inr s')" "I [] s'"
    using mem_clear_loop_runs [of "tm_list c" l off "[]" xs I "(c, u)" des] wf I keeps step by auto
  obtain c' u' where s: "s' = (c', u')"
    by (cases s')
  have h: "hdrs (tm_list c') l = Some \<lparr>l_size = of_nat (length xs), l_offset = off\<rparr>"
    using keeps [OF s'(2)] wf_listD(3) [OF wf] s by simp
  have "nodes (tm_list c') (head_of l) \<noteq> None"
    using keeps [OF s'(2)] ring_mapped [OF wf_listD(4) [OF wf], of "head_of l"] s by simp
  then obtain m where "cclist_init bd (tm_list c') l off = Inr m" "only_touches (tm_list c') l {head_of l} m"
    using init_yields [of l "tm_list c'" off bd] wf_listD(1) [OF wf] h by (auto simp: yields_def)
  then have "mem_clear bd des l (c, u) = Some (Inr (c'\<lparr>tm_list := m\<rparr>, u'))"
    using s'(1) s h wf_list_next [of "tm_list c" l off "[]" xs] wf wf_listD(1) [OF wf]
    by (simp add: mem_clear_def rd_offset_mapped)
  then show ?thesis
    using s'(2) s \<open>only_touches (tm_list c') l {head_of l} m\<close> by blast
qed

section \<open>What freeing leaves alone\<close>

definition spares :: "tmem \<Rightarrow> addr set \<Rightarrow> addr set \<Rightarrow> tmem \<Rightarrow> bool" where
  "spares c F H c' \<longleftrightarrow>
     (\<forall>p. p \<notin> F \<longrightarrow> nodes (tm_list c') p = nodes (tm_list c) p) \<and>
     (\<forall>l. l \<notin> H \<longrightarrow> hdrs (tm_list c') l = hdrs (tm_list c) l) \<and>
     tm_capacity c' = tm_capacity c \<and> tm_buckets c' = tm_buckets c \<and> tm_allow_multiple c' = tm_allow_multiple c"

lemma restrict_everywhere [simp]: "m |` UNIV = m"
  by (simp add: restrict_map_def)

lemma spares_refl [simp]: "spares c F H c"
  by (simp add: spares_def)

lemma spares_then:
  "spares c F H c1 \<Longrightarrow> spares c1 F' H' c2 \<Longrightarrow> F \<union> F' \<subseteq> G \<Longrightarrow> H \<union> H' \<subseteq> K \<Longrightarrow> spares c G K c2"
  unfolding spares_def by (intro conjI allI impI) (metis Un_iff subsetD)+

lemma sparesD:
  assumes "spares c F H c'"
  shows "p \<notin> F \<Longrightarrow> nodes (tm_list c') p = nodes (tm_list c) p" "l \<notin> H \<Longrightarrow> hdrs (tm_list c') l = hdrs (tm_list c) l"
    "tm_capacity c' = tm_capacity c" "tm_buckets c' = tm_buckets c" "tm_allow_multiple c' = tm_allow_multiple c"
  using assms by (simp_all add: spares_def)

lemma spares_separate:
  assumes sep: "separate (tm_list c) L" and sp: "spares c F H c'"
    and L': "L' \<subseteq>\<^sub>m L" "dom L' \<inter> H = {}" "owned L' \<inter> F = {}"
  shows "separate (tm_list c') L'"
proof -
  have sub: "L l = Some (off, xs)" if "L' l = Some (off, xs)" for l off xs
    using L'(1) that by (auto simp: map_le_def dom_def)
  have "wf_list (tm_list c') l off xs" if l: "L' l = Some (off, xs)" for l off xs
  proof (rule wf_list_local [OF separateD(1) [OF sep sub [OF l]]])
    show "nodes (tm_list c') p = nodes (tm_list c) p" if "p \<in> footprint l off xs" for p
      using sparesD(1) [OF sp, of p] L'(3) ownedI [of L' l off xs p] l that by auto
    show "hdrs (tm_list c') l = hdrs (tm_list c) l"
      using sparesD(2) [OF sp, of l] L'(2) l by auto
  qed
  then show ?thesis
    using separateD(2) [OF sep] sub unfolding separate_def by blast
qed

section \<open>Freeing the values of a node\<close>

lemma clear_values:
  assumes wf: "wf_list (tm_list c) a value_offset as" and vs: "map (tm_value c) as = map Some vs"
  shows "\<exists>c'. mem_clear bd (value_destructor des) a (c, u) = Some (Inr (c', fold (call_des des) vs u)) \<and>
    spares c (footprint a value_offset as) {a} c' \<and> tm_keys c' = tm_keys c \<and> tm_one c' = tm_one c \<and>
    tm_value c' = tm_value c |` (- set as)"
proof -
  let ?I = "\<lambda>zs (s, w). \<exists>done. as = done @ zs \<and> spares c ((\<lambda>v. v + value_offset) ` set done) {} s \<and>
    tm_keys s = tm_keys c \<and> tm_one s = tm_one c \<and> tm_value s = tm_value c |` (- set done) \<and>
    w = fold (call_des des) (map (the \<circ> tm_value c) done) u"
  have dist: "distinct (head_of a # map (\<lambda>x. x + value_offset) as)" "distinct as"
    by (rule wf_list_distinct [OF wf])+
  have "\<exists>c' u' m. mem_clear bd (value_destructor des) a (c, u) = Some (Inr (c'\<lparr>tm_list := m\<rparr>, u')) \<and>
      ?I [] (c', u') \<and> only_touches (tm_list c') a {head_of a} m"
  proof (rule mem_clear_runs [OF wf])
    fix zs and s :: "tmem \<times> 'a" assume I: "?I zs s"
    then obtain "done" where d: "as = done @ zs" "spares c ((\<lambda>v. v + value_offset) ` set done) {} (fst s)"
      by (cases s) auto
    have "head_of a \<notin> (\<lambda>v. v + value_offset) ` set done"
      "\<And>z. z \<in> set zs \<Longrightarrow> z + value_offset \<notin> (\<lambda>v. v + value_offset) ` set done"
      using dist d(1) by auto
    then show "hdrs (tm_list (fst s)) a = hdrs (tm_list c) a \<and>
      nodes (tm_list (fst s)) (head_of a) = nodes (tm_list c) (head_of a) \<and>
      (\<forall>z \<in> set zs. nodes (tm_list (fst s)) (z + value_offset) = nodes (tm_list c) (z + value_offset))"
      using sparesD(1,2) [OF d(2)] by simp
  next
    fix z zs and s :: "tmem \<times> 'a" assume I: "?I (z # zs) s"
    obtain s1 w where s: "s = (s1, w)"
      by (cases s)
    obtain "done" where d: "as = done @ z # zs" "spares c ((\<lambda>v. v + value_offset) ` set done) {} s1"
      "tm_keys s1 = tm_keys c" "tm_one s1 = tm_one c" "tm_value s1 = tm_value c |` (- set done)"
      "w = fold (call_des des) (map (the \<circ> tm_value c) done) u"
      using I s by auto
    have "tm_value c z \<in> set (map Some vs)"
      unfolding vs [symmetric] using d(1) by simp
    then obtain x where x: "tm_value c z = Some x"
      by auto
    have z: "tm_value s1 z = Some x"
      using d(5) x dist(2) d(1) by simp
    let ?s = "s1\<lparr>tm_value := (tm_value s1)(z := None), tm_list := forget_node (z + value_offset) (tm_list s1)\<rparr>"
    have "value_destructor des z s = Some (Inr (?s, call_des des x w))"
      using z s by (simp add: value_destructor_def free_value_def)
    moreover have "spares c ((\<lambda>v. v + value_offset) ` set (done @ [z])) {} ?s"
      by (rule spares_then [OF d(2), of "{z + value_offset}" "{}"]) (auto simp: spares_def forget_node_def)
    moreover have "(tm_value s1)(z := None) = tm_value c |` (- set (done @ [z]))"
      using d(5) by (auto simp: restrict_map_def fun_eq_iff)
    ultimately show "\<exists>s'. value_destructor des z s = Some (Inr s') \<and> ?I zs s'"
      using d(1,3,4,6) x by (intro exI [of _ "(?s, call_des des x w)"]) (auto intro!: exI [of _ "done @ [z]"])
  qed simp
  then obtain c' u' m where r: "mem_clear bd (value_destructor des) a (c, u) = Some (Inr (c'\<lparr>tm_list := m\<rparr>, u'))"
    "spares c ((\<lambda>v. v + value_offset) ` set as) {} c'" "tm_keys c' = tm_keys c" "tm_one c' = tm_one c"
    "tm_value c' = tm_value c |` (- set as)" "u' = fold (call_des des) (map (the \<circ> tm_value c) as) u"
    "only_touches (tm_list c') a {head_of a} m"
    by auto
  have "map (the \<circ> tm_value c) as = map the (map (tm_value c) as)"
    by simp
  then have "map (the \<circ> tm_value c) as = vs"
    unfolding vs by simp
  moreover have "spares c (footprint a value_offset as) {a} (c'\<lparr>tm_list := m\<rparr>)"
    by (rule spares_then [OF r(2), of "{head_of a}" "{a}"])
      (use r(7) in \<open>auto simp: spares_def only_touches_def footprint_def\<close>)
  ultimately show ?thesis
    using r by auto
qed

section \<open>Freeing a node\<close>

lemma fold_call_des: "fold (call_des des) vs u = (case des of None \<Rightarrow> u | Some d \<Rightarrow> fold d vs u)"
  by (induction vs arbitrary: u) (auto simp: call_des_def split: option.split)

text \<open>The values a node owns, and the storage and the header it frees with them.\<close>

definition node_values :: "bool \<Rightarrow> lists \<Rightarrow> addr \<Rightarrow> addr set" where
  "node_values multi L a = {v. multi \<and> (\<exists>as. L a = Some (value_offset, as) \<and> v \<in> set as)}"

definition node_storage :: "bool \<Rightarrow> lists \<Rightarrow> addr \<Rightarrow> addr set" where
  "node_storage multi L a =
     insert (a + node_offset) {p. multi \<and> (\<exists>as. L a = Some (value_offset, as) \<and> p \<in> footprint a value_offset as)}"

definition freed_headers :: "bool \<Rightarrow> addr set \<Rightarrow> addr set" where
  "freed_headers multi A = (if multi then A else {})"

lemma free_node_spares:
  assumes "tm_keys c a \<noteq> None"
  shows "\<exists>c'. free_node c a = Inr c' \<and>
    spares c ({a + node_offset} \<union> (if tm_allow_multiple c then {head_of a} else {})) (freed_headers (tm_allow_multiple c) {a}) c' \<and>
    tm_keys c' = (tm_keys c)(a := None) \<and> tm_one c' = (tm_one c)(a := None) \<and> tm_value c' = tm_value c"
  using assms by (auto simp: free_node_def spares_def forget_header_def forget_node_def freed_headers_def)

lemma node_freed:
  assumes rep: "node_rep c L a n" and slot: "wf_slot (tm_allow_multiple c) (b_slot n)"
    and wf: "\<And>as. L a = Some (value_offset, as) \<Longrightarrow> tm_allow_multiple c \<Longrightarrow> wf_list (tm_list c) a value_offset as"
    and multi: "tm_allow_multiple c = multi"
  shows "\<exists>c' u'. mem_destructor bd multi des a (c, u) = Some (Inr (c', u')) \<and>
    (if multi then node_destructor_many des else node_destructor_single des) n u = Inr u' \<and>
    spares c (node_storage multi L a) (freed_headers multi {a}) c' \<and>
    tm_keys c' = (tm_keys c)(a := None) \<and> tm_one c' = (tm_one c)(a := None) \<and>
    tm_value c' = tm_value c |` (- node_values multi L a)"
proof (cases multi)
  case False
  then obtain v where v: "b_slot n = One_value v" "tm_one c a = Some v" "tm_keys c a \<noteq> None"
    using rep slot multi by (cases "b_slot n") (auto simp: node_rep_def wf_slot_def)
  obtain c' where c': "free_node c a = Inr c'" "spares c {a + node_offset} {} c'"
    "tm_keys c' = (tm_keys c)(a := None)" "tm_one c' = (tm_one c)(a := None)" "tm_value c' = tm_value c"
    using free_node_spares [OF v(3)] False multi by (auto simp: freed_headers_def)
  then show ?thesis
    using False v
    by (auto simp: mem_destructor_def mem_destructor_single_def node_destructor_single_def call_des_def
        node_storage_def node_values_def freed_headers_def split: option.split)
next
  case True
  then obtain vs as where v: "b_slot n = Many_values vs" "L a = Some (value_offset, as)"
    "map (tm_value c) as = map Some vs" "tm_keys c a \<noteq> None"
    using rep slot multi by (cases "b_slot n") (auto simp: node_rep_def wf_slot_def)
  have wf': "wf_list (tm_list c) a value_offset as"
    using wf v(2) True multi by simp
  obtain c1 where c1: "mem_clear bd (value_destructor des) a (c, u) = Some (Inr (c1, fold (call_des des) vs u))"
    "spares c (footprint a value_offset as) {a} c1" "tm_keys c1 = tm_keys c" "tm_one c1 = tm_one c"
    "tm_value c1 = tm_value c |` (- set as)"
    using clear_values [OF wf' v(3), of bd des u] by blast
  have m1: "tm_allow_multiple c1"
    using sparesD(5) [OF c1(2)] True multi by simp
  obtain c' where c': "free_node c1 a = Inr c'" "spares c1 ({a + node_offset} \<union> {head_of a}) {a} c'"
    "tm_keys c' = (tm_keys c1)(a := None)" "tm_one c' = (tm_one c1)(a := None)" "tm_value c' = tm_value c1"
    using free_node_spares [of c1 a] c1(3) v(4) m1 by (auto simp: freed_headers_def)
  have "spares c (node_storage multi L a) (freed_headers multi {a}) c'"
    by (rule spares_then [OF c1(2) c'(2)])
      (use True v(2) in \<open>auto simp: node_storage_def freed_headers_def footprint_def\<close>)
  moreover have "node_values multi L a = set as"
    using True v(2) by (auto simp: node_values_def)
  ultimately show ?thesis
    using True v(1) c1 c' by (simp add: mem_destructor_def mem_destructor_many_def node_destructor_many_def fold_call_des)
qed

section \<open>Clearing a bucket\<close>

text \<open>The list of values of one node has nothing in common with the storage of another node.\<close>

lemma node_storage_apart:
  assumes sep: "separate m L" and l: "L l = Some (node_offset, ns)"
    and z: "L z = Some (value_offset, as)" and a: "a \<in> set ns" "a \<noteq> z"
  shows "node_storage multi L a \<inter> footprint z value_offset as = {}"
proof -
  have "l \<noteq> z"
    using l z by auto
  moreover have "a + node_offset \<in> footprint l node_offset ns"
    using a(1) by (simp add: footprint_def)
  ultimately have "a + node_offset \<notin> footprint z value_offset as"
    using separateD(2) [OF sep l z] by blast
  then show ?thesis
    using separateD(2) [OF sep _ z a(2)] unfolding node_storage_def by blast
qed

lemma node_storage_other:
  assumes sep: "separate m L" and l: "L l = Some (node_offset, ns)" and a: "a \<in> set ns" "a + node_offset \<noteq> p"
    and p: "p \<in> footprint l node_offset ns"
  shows "p \<notin> node_storage multi L a"
proof -
  have "p \<notin> footprint a value_offset as" if "L a = Some (value_offset, as)" for as
    using separateD(2) [OF sep l that] l that p by (cases "l = a") auto
  then show ?thesis
    using a(2) by (auto simp: node_storage_def)
qed

text \<open>The memory after the nodes \<^term>\<open>A\<close> of a bucket have been freed.\<close>

definition cleared :: "bool \<Rightarrow> lists \<Rightarrow> tmem \<Rightarrow> addr set \<Rightarrow> tmem \<Rightarrow> bool" where
  "cleared multi L c A s \<longleftrightarrow>
     spares c (\<Union> (node_storage multi L ` A)) (freed_headers multi A) s \<and>
     tm_keys s = tm_keys c |` (- A) \<and> tm_one s = tm_one c |` (- A) \<and>
     tm_value s = tm_value c |` (- \<Union> (node_values multi L ` A))"

abbreviation destroy :: "bool \<Rightarrow> (addr \<Rightarrow> 'u \<Rightarrow> 'u) option \<Rightarrow> bnode \<Rightarrow> 'u \<Rightarrow> 'u res" where
  "destroy multi des \<equiv> if multi then node_destructor_many des else node_destructor_single des"

lemma nodes_have_lists:
  assumes "list_all2 (node_rep c L) ns bs" "\<forall>n \<in> set bs. wf_slot multi (b_slot n)" "multi" "a \<in> set ns"
  shows "\<exists>as. L a = Some (value_offset, as)"
proof -
  obtain b where "node_rep c L a b" "b \<in> set bs"
    using assms(1,4) by (metis list_all2_conv_all_nth in_set_conv_nth)
  then show ?thesis
    using assms(2,3) by (cases "b_slot b") (auto simp: node_rep_def wf_slot_def)
qed

lemma value_in_storage:
  "x \<in> node_values multi L a \<Longrightarrow> x + value_offset \<in> node_storage multi L a"
  by (auto simp: node_values_def node_storage_def footprint_def)

text \<open>A node whose storage is apart from what was freed is still the node it was.\<close>

lemma cleared_keeps_node:
  assumes c: "cleared multi L c A s" and rep: "node_rep c L z b" and z: "z \<notin> A"
    and apart: "\<And>a as. L z = Some (value_offset, as) \<Longrightarrow> a \<in> A \<Longrightarrow> node_storage multi L a \<inter> footprint z value_offset as = {}"
    and L': "\<And>as. L z = Some (value_offset, as) \<Longrightarrow> L' z = L z"
  shows "node_rep s L' z b"
proof (rule node_rep_keep [OF rep])
  fix as assume as: "L z = Some (value_offset, as)"
  have "x \<notin> node_values multi L a" if "x \<in> set as" "a \<in> A" for x a
  proof
    assume "x \<in> node_values multi L a"
    then have "x + value_offset \<in> node_storage multi L a" "x + value_offset \<in> footprint z value_offset as"
      using value_in_storage that(1) by (auto simp: footprint_def)
    then show False
      using apart [OF as that(2)] by blast
  qed
  then show "L' z = L z \<and> (\<forall>x \<in> set as. tm_value s x = tm_value c x)"
    using c L' [OF as] by (simp add: cleared_def)
qed (use c z in \<open>simp_all add: cleared_def\<close>)

lemma clear_next_node:
  assumes sep: "separate (tm_list c) L" and l: "L l = Some (node_offset, done @ z # zs)"
    and rep: "node_rep c L z b" and slot: "wf_slot multi (b_slot b)" and multi: "tm_allow_multiple c = multi"
    and c: "cleared multi L c (set done) s"
  shows "\<exists>s' w'. mem_destructor bd multi des z (s, w) = Some (Inr (s', w')) \<and> destroy multi des b w = Inr w' \<and>
    cleared multi L c (set (done @ [z])) s'"
proof -
  have sp: "spares c (\<Union> (node_storage multi L ` set done)) (freed_headers multi (set done)) s"
    using c by (simp add: cleared_def)
  have z: "z \<notin> set done"
    using wf_list_distinct(2) [OF separateD(1) [OF sep l]] by auto
  have apart: "node_storage multi L a \<inter> footprint z value_offset as = {}"
    if "L z = Some (value_offset, as)" "a \<in> set done" for as a
    using node_storage_apart [OF sep l that(1), of a multi] that(2) z by auto
  have "node_rep s L z b"
    by (rule cleared_keeps_node [OF c rep z apart]) simp_all
  moreover have "wf_list (tm_list s) z value_offset as" if as: "L z = Some (value_offset, as)" for as
  proof (rule wf_list_local [OF separateD(1) [OF sep as]])
    show "nodes (tm_list s) p = nodes (tm_list c) p" if "p \<in> footprint z value_offset as" for p
      using sparesD(1) [OF sp, of p] apart [OF as] that by blast
    show "hdrs (tm_list s) z = hdrs (tm_list c) z"
      using sparesD(2) [OF sp, of z] z by (auto simp: freed_headers_def)
  qed
  moreover have m: "tm_allow_multiple s = multi"
    using sparesD(5) [OF sp] multi by simp
  ultimately have "\<exists>s2 w2. mem_destructor bd multi des z (s, w) = Some (Inr (s2, w2)) \<and> destroy multi des b w = Inr w2 \<and>
    spares s (node_storage multi L z) (freed_headers multi {z}) s2 \<and> tm_keys s2 = (tm_keys s)(z := None) \<and>
    tm_one s2 = (tm_one s)(z := None) \<and> tm_value s2 = tm_value s |` (- node_values multi L z)"
    by (intro node_freed) (use slot in simp_all)
  then obtain s2 w2 where f: "mem_destructor bd multi des z (s, w) = Some (Inr (s2, w2))" "destroy multi des b w = Inr w2"
    "spares s (node_storage multi L z) (freed_headers multi {z}) s2" "tm_keys s2 = (tm_keys s)(z := None)"
    "tm_one s2 = (tm_one s)(z := None)" "tm_value s2 = tm_value s |` (- node_values multi L z)"
    by blast
  have "spares c (\<Union> (node_storage multi L ` set (done @ [z]))) (freed_headers multi (set (done @ [z]))) s2"
    by (rule spares_then [OF sp f(3)]) (auto simp: freed_headers_def)
  then have "cleared multi L c (set (done @ [z])) s2"
    using c f(4-6) by (auto simp: cleared_def restrict_map_def fun_eq_iff)
  with f(1,2) show ?thesis by blast
qed

lemma cleared_keeps_rest:
  assumes sep: "separate (tm_list c) L" and l: "L l = Some (node_offset, done @ zs)"
    and lists: "\<And>a. multi \<Longrightarrow> a \<in> set done \<Longrightarrow> \<exists>as. L a = Some (value_offset, as)"
    and c: "cleared multi L c (set done) s"
  shows "hdrs (tm_list s) l = hdrs (tm_list c) l \<and> nodes (tm_list s) (head_of l) = nodes (tm_list c) (head_of l) \<and>
    (\<forall>z \<in> set zs. nodes (tm_list s) (z + node_offset) = nodes (tm_list c) (z + node_offset))"
proof -
  have sp: "spares c (\<Union> (node_storage multi L ` set done)) (freed_headers multi (set done)) s"
    using c by (simp add: cleared_def)
  have dist: "distinct (done @ zs)" "head_of l \<notin> (\<lambda>x. x + node_offset) ` set (done @ zs)"
    using wf_list_distinct [OF separateD(1) [OF sep l]] by auto
  have other: "p \<notin> \<Union> (node_storage multi L ` set done)"
    if "p \<in> footprint l node_offset (done @ zs)" "p \<notin> (\<lambda>a. a + node_offset) ` set done" for p
    using node_storage_other [OF sep l _ _ that(1)] that(2) by auto
  have hd: "head_of l \<notin> \<Union> (node_storage multi L ` set done)"
    by (rule other) (use dist(2) in \<open>auto simp: footprint_def\<close>)
  have zs: "z + node_offset \<notin> \<Union> (node_storage multi L ` set done)" if "z \<in> set zs" for z
    by (rule other) (use dist(1) that in \<open>auto simp: footprint_def\<close>)
  have "l \<notin> freed_headers multi (set done)"
    using lists [of l] l by (auto simp: freed_headers_def)
  then show ?thesis
    using sparesD(2) [OF sp] sparesD(1) [OF sp hd] sparesD(1) [OF sp zs] by simp
qed

lemma clear_bucket:
  assumes sep: "separate (tm_list c) L" and l: "L l = Some (node_offset, ns)"
    and rep: "list_all2 (node_rep c L) ns bs" and slots: "\<forall>n \<in> set bs. wf_slot multi (b_slot n)"
    and multi: "tm_allow_multiple c = multi"
  shows "\<exists>c' u' m. mem_clear bd (mem_destructor bd multi des) l (c, u) = Some (Inr (c'\<lparr>tm_list := m\<rparr>, u')) \<and>
    clear_nodes (destroy multi des) bs u = Inr u' \<and> cleared multi L c (set ns) c' \<and> only_touches (tm_list c') l {head_of l} m"
proof -
  let ?I = "\<lambda>zs (s, w). \<exists>done us vs. ns = done @ zs \<and> bs = us @ vs \<and> length us = length done \<and>
    cleared multi L c (set done) s \<and>
    (\<forall>rest. clear_nodes (destroy multi des) (us @ rest) u = clear_nodes (destroy multi des) rest w)"
  have "\<exists>c' u' m. mem_clear bd (mem_destructor bd multi des) l (c, u) = Some (Inr (c'\<lparr>tm_list := m\<rparr>, u')) \<and>
      ?I [] (c', u') \<and> only_touches (tm_list c') l {head_of l} m"
  proof (rule mem_clear_runs [OF separateD(1) [OF sep l]])
    show "?I ns (c, u)"
      by (intro case_prodI exI [of _ "[]"] exI [of _ bs]) (auto simp: cleared_def freed_headers_def)
  next
    fix zs and s :: "tmem \<times> 'a" assume I: "?I zs s"
    then obtain "done" where d: "ns = done @ zs" "cleared multi L c (set done) (fst s)"
      by (cases s) auto
    show "hdrs (tm_list (fst s)) l = hdrs (tm_list c) l \<and>
      nodes (tm_list (fst s)) (head_of l) = nodes (tm_list c) (head_of l) \<and>
      (\<forall>z \<in> set zs. nodes (tm_list (fst s)) (z + node_offset) = nodes (tm_list c) (z + node_offset))"
      by (rule cleared_keeps_rest [OF sep _ _ d(2)]) (use l d(1) nodes_have_lists [OF rep slots] in auto)
  next
    fix z zs and s :: "tmem \<times> 'a" assume I: "?I (z # zs) s"
    obtain s1 w where s: "s = (s1, w)"
      by (cases s)
    obtain "done" us vs0 where d: "ns = done @ z # zs" "bs = us @ vs0" "length us = length done"
      "cleared multi L c (set done) s1"
      "\<And>rest. clear_nodes (destroy multi des) (us @ rest) u = clear_nodes (destroy multi des) rest w"
      using I unfolding s by blast
    obtain b vs where b: "vs0 = b # vs" "node_rep c L z b"
      using rep d(1-3) by (auto simp: list_all2_append list_all2_Cons1)
    obtain s2 w2 where f: "mem_destructor bd multi des z (s1, w) = Some (Inr (s2, w2))" "destroy multi des b w = Inr w2"
      "cleared multi L c (set (done @ [z])) s2"
      using clear_next_node [OF sep l [unfolded d(1)] b(2) _ multi d(4), of bd des w] slots d(2) b(1) by auto
    have "\<forall>rest. clear_nodes (destroy multi des) ((us @ [b]) @ rest) u = clear_nodes (destroy multi des) rest w2"
      using d(5) [of "b # rest" for rest] f(2) by simp
    then have "?I zs (s2, w2)"
      using d(1-3) b(1) f(3) by (intro case_prodI exI [of _ "done @ [z]"] exI [of _ "us @ [b]"] exI [of _ vs]) simp
    then show "\<exists>s'. mem_destructor bd multi des z s = Some (Inr s') \<and> ?I zs s'"
      using f(1) s by blast
  qed
  then obtain c' u' m us vs where r: "mem_clear bd (mem_destructor bd multi des) l (c, u) = Some (Inr (c'\<lparr>tm_list := m\<rparr>, u'))"
    "bs = us @ vs" "length us = length ns" "cleared multi L c (set ns) c'"
    "\<And>rest. clear_nodes (destroy multi des) (us @ rest) u = clear_nodes (destroy multi des) rest u'"
    "only_touches (tm_list c') l {head_of l} m"
    by auto
  have "vs = []"
    using list_all2_lengthD [OF rep] r(2,3) by simp
  then have "clear_nodes (destroy multi des) bs u = Inr u'"
    using r(5) [of "[]"] r(2) by simp
  with r(1,4,6) show ?thesis by blast
qed

section \<open>Clearing the bucket array\<close>

text \<open>The table without the buckets before \<^term>\<open>i\<close>, which have been cleared.\<close>

definition rep_from :: "size_t \<Rightarrow> tmem \<Rightarrow> lists \<Rightarrow> cctable \<Rightarrow> bool" where
  "rep_from i c L t \<longleftrightarrow>
     separate (tm_list c) L \<and> tm_capacity c = t_capacity t \<and> tm_allow_multiple c = t_allow_multiple t \<and>
     length (t_buckets t) = unat (t_capacity t) \<and> unat (tm_buckets c) + 32 * unat (t_capacity t) \<le> 2 ^ 64 \<and>
     (\<forall>j. i \<le> j \<longrightarrow> j < t_capacity t \<longrightarrow> (\<exists>ns. L (bucket_at c j) = Some (node_offset, ns) \<and>
        list_all2 (node_rep c L) ns (t_buckets t ! unat j)))"

definition nodes_from :: "size_t \<Rightarrow> tmem \<Rightarrow> lists \<Rightarrow> addr set" where
  "nodes_from i c L = {a. \<exists>j ns. i \<le> j \<and> j < tm_capacity c \<and> L (bucket_at c j) = Some (node_offset, ns) \<and> a \<in> set ns}"

definition values_from :: "size_t \<Rightarrow> tmem \<Rightarrow> lists \<Rightarrow> addr set" where
  "values_from i c L = \<Union> (node_values (tm_allow_multiple c) L ` nodes_from i c L)"

lemma rep_fromD:
  assumes "rep_from i c L t"
  shows "separate (tm_list c) L" "tm_capacity c = t_capacity t" "tm_allow_multiple c = t_allow_multiple t"
    "length (t_buckets t) = unat (t_capacity t)" "unat (tm_buckets c) + 32 * unat (t_capacity t) \<le> 2 ^ 64"
  using assms by (simp_all add: rep_from_def)

lemma rep_from_bucket:
  assumes "rep_from i c L t" "i \<le> j" "j < t_capacity t"
  obtains ns where "L (bucket_at c j) = Some (node_offset, ns)" "list_all2 (node_rep c L) ns (t_buckets t ! unat j)"
  using assms unfolding rep_from_def by blast

lemma rep_from_inj:
  assumes "rep_from i c L t" "j < t_capacity t" "k < t_capacity t" "bucket_at c j = bucket_at c k"
  shows "j = k"
  using element_inj [OF rep_fromD(5) [OF assms(1)] assms(2,3)] assms(4) by (simp add: bucket_at_def)

lemma table_rep_from: "table_rep c L t \<Longrightarrow> rep_from 0 c L t"
  by (simp add: rep_from_def table_rep_def)

text \<open>What is left of the lists once a bucket is cleared.\<close>

definition without :: "bool \<Rightarrow> addr \<Rightarrow> addr set \<Rightarrow> lists \<Rightarrow> lists" where
  "without multi l A L = L |` (- insert l (freed_headers multi A))"

lemma without_separate:
  assumes sep: "separate (tm_list c) L" and l: "L l = Some (node_offset, ns)"
    and c: "cleared multi L c (set ns) c'" and m: "only_touches (tm_list c') l {head_of l} m"
  shows "separate m (without multi l (set ns) L)"
proof -
  let ?F = "insert (head_of l) (\<Union> (node_storage multi L ` set ns))" and ?H = "insert l (freed_headers multi (set ns))"
  have "spares c (\<Union> (node_storage multi L ` set ns)) (freed_headers multi (set ns)) c'"
    using c by (simp add: cleared_def)
  moreover have "spares c' {head_of l} {l} (c'\<lparr>tm_list := m\<rparr>)"
    using m by (simp add: spares_def only_touches_def)
  ultimately have sp: "spares c ?F ?H (c'\<lparr>tm_list := m\<rparr>)"
    by (rule spares_then) auto
  have apart: "p \<notin> ?F" if k: "L k = Some (off, xs)" "k \<notin> ?H" "p \<in> footprint k off xs" for k off xs p
  proof -
    have "p \<notin> footprint l node_offset ns"
      using separateD(2) [OF sep k(1) l] k(2,3) by blast
    moreover have "p \<notin> footprint a value_offset as" if "multi" "a \<in> set ns" "L a = Some (value_offset, as)" for a as
      using separateD(2) [OF sep k(1) that(3)] k(2,3) that(1,2) by (auto simp: freed_headers_def)
    ultimately show ?thesis
      by (auto simp: node_storage_def footprint_def)
  qed
  have "owned (without multi l (set ns) L) \<inter> ?F = {}"
  proof -
    have "p \<notin> ?F" if "p \<in> owned (without multi l (set ns) L)" for p
    proof -
      obtain k off xs where "(without multi l (set ns) L) k = Some (off, xs)" "p \<in> footprint k off xs"
        using \<open>p \<in> owned _\<close> unfolding owned_def by blast
      then show ?thesis
        using apart [of k off xs p] by (simp add: without_def restrict_map_def split: if_splits)
    qed
    then show ?thesis by blast
  qed
  moreover have "without multi l (set ns) L \<subseteq>\<^sub>m L" "dom (without multi l (set ns) L) \<inter> ?H = {}"
    by (auto simp: without_def map_le_def restrict_map_def split: if_splits)
  ultimately show ?thesis
    using spares_separate [OF sep sp] by simp
qed

lemma without_other [simp]:
  "k \<noteq> l \<Longrightarrow> k \<notin> freed_headers multi A \<Longrightarrow> without multi l A L k = L k"
  by (simp add: without_def)

lemma other_bucket:
  assumes sep: "separate m L" and l: "L l = Some (node_offset, ns)" and k: "L k = Some (node_offset, ns')" "k \<noteq> l"
    and lists: "\<And>a. multi \<Longrightarrow> a \<in> set ns \<Longrightarrow> \<exists>as. L a = Some (value_offset, as)"
  shows "k \<notin> freed_headers multi (set ns)" "z \<in> set ns' \<Longrightarrow> z \<notin> set ns"
    "z \<in> set ns' \<Longrightarrow> L z = Some (value_offset, as) \<Longrightarrow> without multi l (set ns) L z = L z"
proof -
  show "k \<notin> freed_headers multi (set ns)"
    using lists [of k] k(1) by (auto simp: freed_headers_def)
  have apart: "footprint k node_offset ns' \<inter> footprint l node_offset ns = {}"
    by (rule separateD(2) [OF sep k(1) l k(2)])
  show z: "z \<in> set ns' \<Longrightarrow> z \<notin> set ns" for z
    using apart by (auto simp: footprint_def)
  show "without multi l (set ns) L z = L z" if "z \<in> set ns'" "L z = Some (value_offset, as)"
    using z [OF that(1)] that(2) l by (intro without_other) (auto simp: freed_headers_def)
qed

lemma other_node_kept:
  assumes sep: "separate (tm_list c) L" and l: "L l = Some (node_offset, ns)"
    and k: "L k = Some (node_offset, ns')" "k \<noteq> l" "z \<in> set ns'"
    and lists: "\<And>a. multi \<Longrightarrow> a \<in> set ns \<Longrightarrow> \<exists>as. L a = Some (value_offset, as)"
    and c: "cleared multi L c (set ns) c'" and rep: "node_rep c L z b"
  shows "node_rep (c'\<lparr>tm_list := m\<rparr>) (without multi l (set ns) L) z b"
proof -
  note o = other_bucket [OF sep l k(1,2) lists]
  have "node_rep c' (without multi l (set ns) L) z b"
  proof (rule cleared_keeps_node [OF c rep])
    show "z \<notin> set ns"
      by (rule o(2) [OF _ _ k(3)])
    show "without multi l (set ns) L z = L z" if "L z = Some (value_offset, as)" for as
      by (rule o(3) [OF _ _ k(3) that])
    show "node_storage multi L a \<inter> footprint z value_offset as = {}"
      if z: "L z = Some (value_offset, as)" and a: "a \<in> set ns" for a as
      by (rule node_storage_apart [OF sep l z a]) (use a o(2) [OF _ _ k(3)] in blast)
  qed
  then show ?thesis
    by (cases "b_slot b") (simp_all add: node_rep_def)
qed

lemma clear_bucket_from:
  assumes rep: "rep_from i c L t" and i: "i < t_capacity t"
    and slots: "\<forall>b \<in> set (t_buckets t). \<forall>n \<in> set b. wf_slot (t_allow_multiple t) (b_slot n)"
  shows "\<exists>ns c' u' L'. L (bucket_at c i) = Some (node_offset, ns) \<and>
    mem_clear bd (mem_destructor bd (t_allow_multiple t) des) (bucket_at c i) (c, u) = Some (Inr (c', u')) \<and>
    clear_nodes (destroy (t_allow_multiple t) des) (t_buckets t ! unat i) u = Inr u' \<and>
    rep_from (i + 1) c' L' t \<and> tm_buckets c' = tm_buckets c \<and>
    L' = without (t_allow_multiple t) (bucket_at c i) (set ns) L \<and>
    tm_keys c' = tm_keys c |` (- set ns) \<and>
    tm_value c' = tm_value c |` (- \<Union> (node_values (t_allow_multiple t) L ` set ns))"
proof -
  let ?multi = "t_allow_multiple t" and ?l = "bucket_at c i"
  have sep: "separate (tm_list c) L" and multi: "tm_allow_multiple c = ?multi"
    using rep_fromD [OF rep] by auto
  obtain ns where ns: "L ?l = Some (node_offset, ns)" "list_all2 (node_rep c L) ns (t_buckets t ! unat i)"
    by (rule rep_from_bucket [OF rep order_refl i])
  have "t_buckets t ! unat i \<in> set (t_buckets t)"
    using i rep_fromD(4) [OF rep] by (simp add: word_less_nat_alt)
  then have ok: "\<forall>n \<in> set (t_buckets t ! unat i). wf_slot ?multi (b_slot n)"
    using slots by blast
  have lists: "\<And>a. ?multi \<Longrightarrow> a \<in> set ns \<Longrightarrow> \<exists>as. L a = Some (value_offset, as)"
    by (rule nodes_have_lists [OF ns(2) ok])
  obtain c' u' m where c': "mem_clear bd (mem_destructor bd ?multi des) ?l (c, u) = Some (Inr (c'\<lparr>tm_list := m\<rparr>, u'))"
    "clear_nodes (destroy ?multi des) (t_buckets t ! unat i) u = Inr u'" "cleared ?multi L c (set ns) c'"
    "only_touches (tm_list c') ?l {head_of ?l} m"
    using clear_bucket [OF sep ns ok multi, of bd des u] by blast
  let ?c = "c'\<lparr>tm_list := m\<rparr>" and ?L = "without ?multi ?l (set ns) L"
  have same: "tm_capacity c' = tm_capacity c" "tm_buckets c' = tm_buckets c" "tm_allow_multiple c' = tm_allow_multiple c"
    "tm_keys c' = tm_keys c |` (- set ns)" "tm_value c' = tm_value c |` (- \<Union> (node_values ?multi L ` set ns))"
    using c'(3) by (auto simp: cleared_def spares_def)
  have "\<exists>ns'. ?L (bucket_at ?c j) = Some (node_offset, ns') \<and> list_all2 (node_rep ?c ?L) ns' (t_buckets t ! unat j)"
    if j: "i + 1 \<le> j" "j < t_capacity t" for j
  proof -
    have ij: "i \<le> j" "j \<noteq> i"
      using j i by unat_arith+
    obtain ns' where k: "L (bucket_at c j) = Some (node_offset, ns')" "list_all2 (node_rep c L) ns' (t_buckets t ! unat j)"
      by (rule rep_from_bucket [OF rep ij(1) j(2)])
    have kl: "bucket_at c j \<noteq> ?l"
      using rep_from_inj [OF rep j(2) i] ij(2) by blast
    have "list_all2 (node_rep ?c ?L) ns' (t_buckets t ! unat j)"
      by (rule list.rel_mono_strong [OF k(2)]) (rule other_node_kept [OF sep ns(1) k(1) kl _ lists c'(3)])
    moreover have "?L (bucket_at c j) = Some (node_offset, ns')"
      using k(1) kl other_bucket(1) [OF sep ns(1) k(1) kl lists] by simp
    ultimately show ?thesis
      using same(2) by (auto simp: bucket_at_def)
  qed
  then have "rep_from (i + 1) ?c ?L t"
    using without_separate [OF sep ns(1) c'(3,4)] rep_fromD [OF rep] same by (simp add: rep_from_def)
  then show ?thesis
    using ns(1) c'(1,2) same by (intro exI [of _ ns] exI [of _ ?c] exI [of _ u'] exI [of _ ?L]) simp
qed

text \<open>What remains to be freed is what the remaining buckets hold.\<close>

lemma nodes_from_step:
  assumes rep: "rep_from i c L t" and i: "i < t_capacity t" and ns: "L (bucket_at c i) = Some (node_offset, ns)"
  shows "nodes_from i c L = set ns \<union> nodes_from (i + 1) c L"
proof -
  have cap: "i < tm_capacity c"
    using i rep_fromD(2) [OF rep] by simp
  then have range: "i \<le> j \<and> j < tm_capacity c \<longleftrightarrow> j = i \<or> i + 1 \<le> j \<and> j < tm_capacity c" for j
    by unat_arith
  show ?thesis
  proof (intro equalityI subsetI)
    fix a assume "a \<in> nodes_from i c L"
    then obtain j ns' where "j = i \<or> i + 1 \<le> j \<and> j < tm_capacity c" "L (bucket_at c j) = Some (node_offset, ns')" "a \<in> set ns'"
      unfolding nodes_from_def using range by blast
    with ns show "a \<in> set ns \<union> nodes_from (i + 1) c L"
      unfolding nodes_from_def by auto
  next
    fix a assume "a \<in> set ns \<union> nodes_from (i + 1) c L"
    with ns range show "a \<in> nodes_from i c L"
      unfolding nodes_from_def by blast
  qed
qed

lemma nodes_from_cleared:
  assumes rep: "rep_from i c L t" and i: "i < t_capacity t" and ns: "L (bucket_at c i) = Some (node_offset, ns)"
    and lists: "\<And>a. multi \<Longrightarrow> a \<in> set ns \<Longrightarrow> \<exists>as. L a = Some (value_offset, as)"
    and c': "tm_buckets c' = tm_buckets c" "tm_capacity c' = tm_capacity c" "tm_allow_multiple c' = tm_allow_multiple c"
    and multi: "tm_allow_multiple c = multi"
  shows "nodes_from (i + 1) c' (without multi (bucket_at c i) (set ns) L) = nodes_from (i + 1) c L"
    and "values_from (i + 1) c' (without multi (bucket_at c i) (set ns) L) = values_from (i + 1) c L"
proof -
  let ?L = "without multi (bucket_at c i) (set ns) L"
  have sep: "separate (tm_list c) L"
    by (rule rep_fromD(1) [OF rep])
  have at: "bucket_at c' j = bucket_at c j" for j
    by (simp add: bucket_at_def c'(1))
  have later: "bucket_at c j \<noteq> bucket_at c i" if "i + 1 \<le> j" "j < tm_capacity c" for j
  proof
    assume "bucket_at c j = bucket_at c i"
    then have "j = i"
      using rep_from_inj [OF rep _ i] that(2) rep_fromD(2) [OF rep] by simp
    with that(1) i show False
      by unat_arith
  qed
  have same: "?L (bucket_at c j) = Some (node_offset, ns') \<longleftrightarrow> L (bucket_at c j) = Some (node_offset, ns')"
    if "i + 1 \<le> j" "j < tm_capacity c" for j ns'
    using other_bucket(1) [OF sep ns _ later [OF that] lists] later [OF that]
    by (auto simp: without_def restrict_map_def split: if_splits)
  then show n: "nodes_from (i + 1) c' ?L = nodes_from (i + 1) c L"
    unfolding nodes_from_def at c'(2) by blast
  have "node_values multi ?L a = node_values multi L a" if a: "a \<in> nodes_from (i + 1) c L" for a
  proof -
    obtain j ns' where j: "i + 1 \<le> j" "j < tm_capacity c" "L (bucket_at c j) = Some (node_offset, ns')" "a \<in> set ns'"
      using a unfolding nodes_from_def by blast
    have "L a = Some (value_offset, as) \<Longrightarrow> ?L a = L a" for as
      by (rule other_bucket(3) [OF sep ns j(3) later [OF j(1,2)] lists j(4)])
    moreover have "?L a = Some (value_offset, as) \<Longrightarrow> L a = Some (value_offset, as)" for as
      by (auto simp: without_def restrict_map_def split: if_splits)
    ultimately show ?thesis
      unfolding node_values_def by (metis (no_types, lifting))
  qed
  then show "values_from (i + 1) c' ?L = values_from (i + 1) c L"
    unfolding values_from_def n c'(3) multi by simp
qed

lemma clear_nodes_append: "clear_nodes d (xs @ ys) u = bindE (clear_nodes d xs u) (clear_nodes d ys)"
  by (induction xs arbitrary: u) (auto simp: bindE_def split: sum.splits)

lemma clear_from_rep:
  assumes "rep_from i c L t" "i \<le> t_capacity t"
    and slots: "\<forall>b \<in> set (t_buckets t). \<forall>n \<in> set b. wf_slot (t_allow_multiple t) (b_slot n)"
  shows "\<exists>c' u'. clear_from bd des i (t_capacity t) (tm_buckets c) (t_allow_multiple t) (c, u) = Some (Inr (c', u')) \<and>
    clear_nodes (destroy (t_allow_multiple t) des) (concat (drop (unat i) (t_buckets t))) u = Inr u' \<and>
    tm_keys c' = tm_keys c |` (- nodes_from i c L) \<and> tm_value c' = tm_value c |` (- values_from i c L)"
  using assms(1,2)
proof (induction "unat (t_capacity t - i)" arbitrary: i c L u rule: less_induct)
  case less
  note rep = less.prems(1)
  show ?case
  proof (cases "i < t_capacity t")
    case False
    then have i: "i = t_capacity t"
      using less.prems(2) by simp
    then have "nodes_from i c L = {}"
      using rep_fromD(2) [OF rep] by (auto simp: nodes_from_def)
    then show ?thesis
      using i rep_fromD(4) [OF rep] by (subst clear_from.simps) (simp add: values_from_def)
  next
    case True
    let ?multi = "t_allow_multiple t" and ?arr = "tm_buckets c"
    have i: "unat i < length (t_buckets t)" "i + 1 \<le> t_capacity t" "unat (i + 1) = Suc (unat i)"
      "unat (t_capacity t - (i + 1)) < unat (t_capacity t - i)"
      using True rep_fromD(4) [OF rep] by (simp_all add: word_less_nat_alt) unat_arith+
    obtain ns c1 u1 L1 where c1: "L (bucket_at c i) = Some (node_offset, ns)"
      "mem_clear bd (mem_destructor bd ?multi des) (bucket_at c i) (c, u) = Some (Inr (c1, u1))"
      "clear_nodes (destroy ?multi des) (t_buckets t ! unat i) u = Inr u1" "rep_from (i + 1) c1 L1 t"
      "tm_buckets c1 = ?arr" "L1 = without ?multi (bucket_at c i) (set ns) L" "tm_keys c1 = tm_keys c |` (- set ns)"
      "tm_value c1 = tm_value c |` (- \<Union> (node_values ?multi L ` set ns))"
      using clear_bucket_from [OF rep True slots, of bd des u] by blast
    obtain c' u' where c': "clear_from bd des (i + 1) (t_capacity t) ?arr ?multi (c1, u1) = Some (Inr (c', u'))"
      "clear_nodes (destroy ?multi des) (concat (drop (unat (i + 1)) (t_buckets t))) u1 = Inr u'"
      "tm_keys c' = tm_keys c1 |` (- nodes_from (i + 1) c1 L1)" "tm_value c' = tm_value c1 |` (- values_from (i + 1) c1 L1)"
      using less.hyps [OF i(4) c1(4) i(2), of u1] c1(5) by auto
    obtain ns' where ns': "L (bucket_at c i) = Some (node_offset, ns')" "list_all2 (node_rep c L) ns' (t_buckets t ! unat i)"
      by (rule rep_from_bucket [OF rep order_refl True])
    have "\<exists>as. L a = Some (value_offset, as)" if "?multi" "a \<in> set ns" for a
      by (rule nodes_have_lists [OF ns'(2) _ that(1)]) (use ns'(1) c1(1) that(2) slots i(1) in auto)
    then have rest: "nodes_from (i + 1) c1 L1 = nodes_from (i + 1) c L" "values_from (i + 1) c1 L1 = values_from (i + 1) c L"
      using nodes_from_cleared [OF rep True c1(1) _ c1(5)] rep_fromD(2,3) [OF rep] rep_fromD(2,3) [OF c1(4)]
      unfolding c1(6) by auto
    note step = nodes_from_step [OF rep True c1(1)]
    have "values_from i c L = \<Union> (node_values ?multi L ` set ns) \<union> values_from (i + 1) c L"
      using rep_fromD(3) [OF rep] by (simp add: values_from_def step)
    then have "tm_keys c' = tm_keys c |` (- nodes_from i c L)" "tm_value c' = tm_value c |` (- values_from i c L)"
      unfolding c'(3,4) c1(7,8) rest step by (simp_all add: restrict_restrict Int_commute)
    moreover have "clear_nodes (destroy ?multi des) (concat (drop (unat i) (t_buckets t))) u = Inr u'"
      using c1(3) c'(2) i(1,3) by (simp add: Cons_nth_drop_Suc [symmetric] clear_nodes_append)
    ultimately show ?thesis
      using True c1(2) c'(1) by (subst clear_from.simps) (simp add: bucket_at_def)
  qed
qed

text \<open>
  De-initialisation in memory.  On every memory that represents a well-formed table
  cctable_deinit ends, follows no pointer into a node or value already freed, frees every node and
  every value of the table and no other, none twice, and passes each stored value to the caller's
  destructor once, as it does on the table of sequences; the table is then left without buckets.
\<close>

theorem table_memory_deinit:
  assumes rep: "table_rep c L t" and wf: "wf_table t"
  shows "\<exists>c' u'. mem_deinit bd c des u = Some (Inr (c', u')) \<and>
    cctable_deinit t des u = Inr (t\<lparr>t_capacity := 0, t_size := 0, t_buckets := []\<rparr>, u') \<and>
    u' = (case des of None \<Rightarrow> u | Some d \<Rightarrow> fold d (map snd (entries t)) u) \<and>
    tm_keys c' = tm_keys c |` (- nodes_from 0 c L) \<and> tm_value c' = tm_value c |` (- values_from 0 c L) \<and>
    tm_capacity c' = 0 \<and> tm_size c' = 0 \<and> tm_buckets c' = NULL"
proof -
  obtain c' u' where c': "clear_from bd des 0 (t_capacity t) (tm_buckets c) (t_allow_multiple t) (c, u) = Some (Inr (c', u'))"
    "clear_nodes (destroy (t_allow_multiple t) des) (concat (t_buckets t)) u = Inr u'"
    "tm_keys c' = tm_keys c |` (- nodes_from 0 c L)" "tm_value c' = tm_value c |` (- values_from 0 c L)"
    using clear_from_rep [OF table_rep_from [OF rep] _ wf_table_slots [OF wf], of bd des u] by auto
  have "u' = (case des of None \<Rightarrow> u | Some d \<Rightarrow> fold d (map snd (entries t)) u)"
    using c'(2) deinit_entries [OF wf, of des u]
    by (simp add: cctable_deinit_def wf_table_all_buckets [OF wf] Let_def split: if_splits)
  then show ?thesis
    using c' table_repD(2,4) [OF rep] deinit_entries [OF wf, of des u] by (simp add: mem_deinit_def)
qed

text \<open>The table of two values under one key, built in memory and de-initialised.\<close>

theorem table_memory_deinit_witness:
  "\<exists>c0 c c'. mem_init Debug ex_table_mem 4096 2 True = Inr c0 \<and> mem_insert_all Debug ex_insertions c0 = Some (Inr c) \<and>
     mem_deinit Debug c (Some (#)) [] = Some (Inr (c', [10, 20])) \<and> tm_buckets c' = NULL"
proof -
  obtain t0 t where t: "cctable_init 2 True = Inr t0" "insert_all cctable_insert (map fst ex_insertions) t0 = Inr t" "wf_table t"
    "\<forall>k. values_of (entries t) k = rev (map snd (filter (\<lambda>e. fst e = k) (map fst ex_insertions)))"
    using filled_multi [of 2 "map fst ex_insertions"] by auto
  obtain c0 c L where c: "mem_init Debug ex_table_mem 4096 2 True = Inr c0" "mem_insert_all Debug ex_insertions c0 = Some (Inr c)" "table_rep c L t"
    using filled_rep [OF _ _ ex_storage t(1,2), of Debug] by auto
  have "fst e = bytes ''a''" if "e \<in> set (entries t)" for e
  proof -
    have "snd e \<in> set (values_of (entries t) (fst e))"
      using entries_set [of "fst e" "snd e" "entries t"] that by simp
    then show ?thesis
      unfolding t(4) [rule_format] by (auto simp: ex_insertions_def split: if_splits)
  qed
  then have "filter (\<lambda>e. fst e = bytes ''a'') (entries t) = entries t"
    by (simp add: filter_id_conv)
  then have "map snd (entries t) = values_of (entries t) (bytes ''a'')"
    by (simp add: values_of_def)
  then have "map snd (entries t) = [20, 10]"
    unfolding t(4) [rule_format] by (simp add: ex_insertions_def)
  then show ?thesis
    using table_memory_deinit [OF c(3) t(3), of Debug "Some (#)" "[]"] c(1,2) by auto
qed

text \<open>
  C20: The whole life of a table in memory.  From any storage for its buckets, nodes and values,
  initialisation, any history of insertions and de-initialisation end without following an invalid
  pointer; no node and no value that was ever allocated is left; and the caller's destructor has been
  given, under each key, every value inserted there, or the first one in a table of single values.
\<close>

theorem table_history_frees_all:
  assumes "1 \<le> unat n" "unat n \<le> 2 ^ 32" "storage_for m arr (next_power_of_2 n) ops"
  shows "\<exists>c0 c c' es. mem_init bd m arr n multi = Inr c0 \<and> mem_insert_all bd ops c0 = Some (Inr c) \<and>
    mem_deinit bd c des u = Some (Inr (c', case des of None \<Rightarrow> u | Some d \<Rightarrow> fold d (map snd es) u)) \<and>
    tm_keys c' = Map.empty \<and> tm_value c' = Map.empty \<and> tm_buckets c' = NULL \<and> tm_size c' = 0 \<and>
    (\<forall>key. let vs = map snd (filter (\<lambda>e. fst e = key) (map fst ops)) in
       map snd (filter (\<lambda>e. fst e = key) es) = (if multi then rev vs else take 1 vs))"
proof -
  let ?vs = "\<lambda>key. map snd (filter (\<lambda>e. fst e = key) (map fst ops))"
  obtain t0 t where t: "cctable_init n multi = Inr t0" "insert_all cctable_insert (map fst ops) t0 = Inr t"
    "wf_table t" "t_allow_multiple t = multi"
    "\<forall>k. values_of (entries t) k = (if multi then rev (?vs k) else take 1 (?vs k))"
    using filled_single [OF assms(1,2), of "map fst ops"] filled_multi [OF assms(1,2), of "map fst ops"]
    by (cases multi) auto
  obtain c0 c L where c: "mem_init bd m arr n multi = Inr c0" "mem_insert_all bd ops c0 = Some (Inr c)" "table_rep c L t"
    "all_held c L"
    using filled_rep [OF assms t(1,2), of bd] by blast
  obtain c' u' where c': "mem_deinit bd c des u = Some (Inr (c', u'))"
    "u' = (case des of None \<Rightarrow> u | Some d \<Rightarrow> fold d (map snd (entries t)) u)"
    "tm_keys c' = tm_keys c |` (- nodes_from 0 c L)" "tm_value c' = tm_value c |` (- values_from 0 c L)"
    "tm_size c' = 0" "tm_buckets c' = NULL"
    using table_memory_deinit [OF c(3) t(3), of bd des u] by blast
  have reach: "table_node c L a \<Longrightarrow> a \<in> nodes_from 0 c L" "table_value c L v \<Longrightarrow> v \<in> values_from 0 c L" for a v
    by (auto simp: table_node_def table_value_def nodes_from_def values_from_def node_values_def)
  have "dom (tm_keys c) \<subseteq> nodes_from 0 c L" "dom (tm_value c) \<subseteq> values_from 0 c L"
    using c(4) reach unfolding all_held_def by blast+
  then have "tm_keys c' = Map.empty" "tm_value c' = Map.empty"
    unfolding c'(3,4) by (auto simp: restrict_map_def fun_eq_iff)
  then show ?thesis
    using c(1,2) c' t(5) unfolding values_of_def Let_def by blast
qed

theorem table_history_frees_all_witness:
  "\<exists>c0 c c'. mem_init Debug ex_table_mem 4096 2 True = Inr c0 \<and> mem_insert_all Debug ex_insertions c0 = Some (Inr c) \<and>
     mem_deinit Debug c (None :: (addr \<Rightarrow> unit \<Rightarrow> unit) option) () = Some (Inr (c', ())) \<and>
     tm_keys c' = Map.empty \<and> tm_value c' = Map.empty \<and> tm_buckets c' = NULL"
  using table_history_frees_all [OF _ _ ex_storage, of Debug True "None :: (addr \<Rightarrow> unit \<Rightarrow> unit) option" "()"]
  by auto

end
