(* ===== verification/CC_PoolMem.thy ===== *)
theory CC_PoolMem
  imports CC_ListProps CC_PoolLive
begin

text \<open>
  The thread pool in memory (src/tpool.c): the queue is the pointer list at the start of the pool's
  block, a task is a block with its function and argument that \<^verbatim>\<open>ccpool_submit\<close>
  allocates and a worker, or the stop, frees.  The rest of the pool, its threads and its history are
  those of CC_Pool, where a task is known by its address.
\<close>

section \<open>State\<close>

text \<open>
  \<^verbatim>\<open>task_t\<close>, without its list node, which the list memory holds; and
  \<^verbatim>\<open>offsetof(task_t, list_node)\<close>.
\<close>

record task_block =
  t_fn :: addr
  t_refcon :: addr

definition task_offset :: size_t where "task_offset = 16"

text \<open>
  \<^term>\<open>mp\<close> is the pool without its queue (\<^term>\<open>p_tasks\<close> of it is not used),
  \<^term>\<open>mp_at\<close> the address of its block, whose first field is the queue.  The last two fields
  are history: the functions and arguments given to \<^verbatim>\<open>ccpool_submit\<close>, and those called.
\<close>

record mpool =
  mp :: pool
  mp_at :: addr
  mp_list :: lmem
  mp_blocks :: "addr \<rightharpoonup> task_block"
  mp_given :: "(addr \<times> addr) list"
  mp_calls :: "(addr \<times> addr) list"

definition unmap_node :: "addr \<Rightarrow> lmem \<Rightarrow> lmem" where
  "unmap_node p m = m\<lparr>nodes := (nodes m)(p := None)\<rparr>"

definition free_task :: "addr \<Rightarrow> lmem \<times> (addr \<rightharpoonup> task_block) \<Rightarrow> (lmem \<times> (addr \<rightharpoonup> task_block)) res" where
  "free_task t = (\<lambda>(m, blocks).
     if blocks t = None then Inl BadDeref
     else Inr (unmap_node (t + task_offset) m, blocks(t := None)))"

section \<open>Start\<close>

text \<open>\<^term>\<open>at\<close> is the address of the new block.\<close>

definition mem_start :: "build \<Rightarrow> addr \<Rightarrow> lmem \<Rightarrow> nat \<Rightarrow> nat \<Rightarrow> mpool res" where
  "mem_start bd at m n k =
     bindE (cclist_init bd m at task_offset) (\<lambda>m.
     Inr \<lparr>mp = started n k, mp_at = at, mp_list = m, mp_blocks = Map.empty, mp_given = [], mp_calls = []\<rparr>)"

definition pool_storage :: "addr \<Rightarrow> lmem \<Rightarrow> bool" where
  "pool_storage at m \<longleftrightarrow> at \<noteq> NULL \<and> hdrs m at \<noteq> None \<and> nodes m (head_of at) \<noteq> None"

section \<open>Steps\<close>

text \<open>
  A step is not enabled (\<^const>\<open>None\<close>), fails, or leads to a state.  A thread that uses the pool
  after it has been freed fails.
\<close>

definition with_pool :: "pool option \<Rightarrow> mpool \<Rightarrow> mpool res option" where
  "with_pool p s = map_option (\<lambda>p. Inr (s\<lparr>mp := p\<rparr>)) p"

definition mem_take :: "build \<Rightarrow> nat \<Rightarrow> mpool \<Rightarrow> mpool res" where
  "mem_take bd i s =
     bindE (rd_size (mp_list s) (mp_at s)) (\<lambda>sz.
     if sz = 0 \<and> \<not> p_stop (mp s) then Inr (s\<lparr>mp := unlock (set_worker i WWait (mp s))\<rparr>)
     else if p_stop (mp s) then Inr (s\<lparr>mp := unlock (set_worker i WExit (mp s))\<rparr>)
     else
       bindE (cclist_first bd (mp_list s) (mp_at s)) (\<lambda>t.
       bindE (cclist_remove_first bd (mp_list s) (mp_at s)) (\<lambda>m.
       Inr (s\<lparr>mp_list := m, mp := unlock (set_worker i (WRun (unat t))
         ((mp s)\<lparr>p_in_work := p_in_work (mp s) + 1, h_started := h_started (mp s) @ [unat t]\<rparr>))\<rparr>))))"

definition mem_run :: "build \<Rightarrow> nat \<Rightarrow> addr \<Rightarrow> mpool \<Rightarrow> mpool res" where
  "mem_run bd i t s =
     bindE (ccassert bd (t \<noteq> NULL)) (\<lambda>_.
     case mp_blocks s t of
       None \<Rightarrow> Inl BadDeref
     | Some b \<Rightarrow>
         bindE (ccassert bd (t_fn b \<noteq> NULL)) (\<lambda>_.
         if t_fn b = NULL then Inl BadDeref
         else
           bindE (free_task t (mp_list s, mp_blocks s)) (\<lambda>(m, blocks).
           Inr (s\<lparr>mp_calls := mp_calls s @ [(t_fn b, t_refcon b)], mp_list := m, mp_blocks := blocks,
                  mp := set_worker i WDoneLock ((mp s)\<lparr>h_finished := h_finished (mp s) @ [unat t]\<rparr>)\<rparr>))))"

definition mem_worker :: "build \<Rightarrow> nat \<Rightarrow> nat option \<Rightarrow> mpool \<Rightarrow> mpool res option" where
  "mem_worker bd i c s =
     (if i < length (p_workers (mp s)) then
        case p_workers (mp s) ! i of
          WRun t \<Rightarrow> Some (mem_run bd i (of_nat t) s)
        | WWait \<Rightarrow> None
        | WExit \<Rightarrow> None
        | w \<Rightarrow>
            if \<not> p_live (mp s) then Some (Inl BadDeref)
            else if w = WCheck then Some (mem_take bd i s)
            else with_pool (pool_worker i c (mp s)) s
      else None)"

text \<open>
  \<^verbatim>\<open>ccpool_submit\<close> allocates and fills its task before it takes the mutex; \<^term>\<open>t\<close>
  is the block \<^verbatim>\<open>cc_alloc\<close> answers, one not in use, and \<^term>\<open>junk\<close> what its node
  holds.
\<close>

datatype mem_call = MSubmit addr lnode addr addr | MWait | MStop

definition mem_call :: "build \<Rightarrow> nat \<Rightarrow> mem_call \<Rightarrow> mpool \<Rightarrow> mpool res option" where
  "mem_call bd i op s =
     (case op of
        MSubmit t junk fn refcon \<Rightarrow>
          if t \<noteq> NULL \<and> mp_blocks s t = None \<and> nodes (mp_list s) (t + task_offset) = None then
            map_option (\<lambda>p.
              bindE (ccassert bd (fn \<noteq> NULL)) (\<lambda>_.
              Inr (s\<lparr>mp := p, mp_given := mp_given s @ [(fn, refcon)], mp_blocks := (mp_blocks s)(t \<mapsto> \<lparr>t_fn = fn, t_refcon = refcon\<rparr>),
                     mp_list := (mp_list s)\<lparr>nodes := (nodes (mp_list s))(t + task_offset \<mapsto> junk)\<rparr>\<rparr>)))
              (call_pool i (Submit (unat t)) (mp s))
          else None
      | MWait \<Rightarrow> with_pool (call_pool i Wait (mp s)) s
      | MStop \<Rightarrow> with_pool (call_pool i Stop (mp s)) s)"

definition mem_submit :: "build \<Rightarrow> nat \<Rightarrow> nat option \<Rightarrow> addr \<Rightarrow> mpool \<Rightarrow> mpool res option" where
  "mem_submit bd i c t s =
     map_option (\<lambda>ws.
       bindE (cclist_insert_last bd (mp_list s) (mp_at s) t) (\<lambda>m.
       Inr (s\<lparr>mp_list := m, mp := unlock (set_client i CIdle
         ((mp s)\<lparr>h_submitted := h_submitted (mp s) @ [unat t], p_workers := ws\<rparr>))\<rparr>)))
       (signal WWait WRelock c (p_workers (mp s)))"

definition mem_wait :: "nat \<Rightarrow> mpool \<Rightarrow> mpool res" where
  "mem_wait i s =
     bindE (rd_size (mp_list s) (mp_at s)) (\<lambda>sz.
     Inr (s\<lparr>mp := unlock (set_client i (if p_in_work (mp s) \<noteq> 0 \<or> sz \<noteq> 0 then CWaitWait else CIdle) (mp s))\<rparr>))"

definition mem_stop :: "build \<Rightarrow> nat \<Rightarrow> mpool \<Rightarrow> mpool res option" where
  "mem_stop bd i s =
     map_option (\<lambda>r. bindE r (\<lambda>(m, blocks).
       Inr (s\<lparr>mp_list := m, mp_blocks := blocks, mp := unlock (set_client i (CJoin 0)
         ((mp s)\<lparr>p_stop := True, p_workers := broadcast WWait WRelock (p_workers (mp s))\<rparr>))\<rparr>)))
       (cclist_clear bd (Some free_task) (mp_list s) (mp_at s) (mp_blocks s))"

text \<open>After the last join the pool's block, with the queue in it, is freed.\<close>

definition mem_join :: "nat \<Rightarrow> byte \<Rightarrow> mpool \<Rightarrow> mpool res option" where
  "mem_join i j s =
     map_option (\<lambda>p. Inr (if p_live p then s\<lparr>mp := p\<rparr>
       else s\<lparr>mp := p, mp_list := unmap_node (head_of (mp_at s))
                ((mp_list s)\<lparr>hdrs := (hdrs (mp_list s))(mp_at s := None)\<rparr>)\<rparr>))
       (join_workers i j (mp s))"

definition mem_client :: "build \<Rightarrow> nat \<Rightarrow> nat option \<Rightarrow> mpool \<Rightarrow> mpool res option" where
  "mem_client bd i c s =
     (if i < length (p_clients (mp s)) then
        case p_clients (mp s) ! i of
          CIdle \<Rightarrow> None
        | CWaitWait \<Rightarrow> None
        | CStopSingle \<Rightarrow> with_pool (client_step i c (mp s)) s
        | pc \<Rightarrow>
            if \<not> p_live (mp s) then Some (Inl BadDeref)
            else (case pc of
                CSubmit t \<Rightarrow> mem_submit bd i c (of_nat t) s
              | CWaitCheck \<Rightarrow> Some (mem_wait i s)
              | CStop \<Rightarrow> mem_stop bd i s
              | CJoin j \<Rightarrow> mem_join i j s
              | _ \<Rightarrow> with_pool (client_step i c (mp s)) s)
      else None)"

datatype mem_action =
    MWorkerStep nat "nat option" | MClientStep nat "nat option" | MCall nat mem_call
  | MSpuriousWorker nat | MSpuriousClient nat

fun mem_exec :: "build \<Rightarrow> mem_action \<Rightarrow> mpool \<Rightarrow> mpool res option" where
  "mem_exec bd (MWorkerStep i c) s = mem_worker bd i c s"
| "mem_exec bd (MClientStep i c) s = mem_client bd i c s"
| "mem_exec bd (MCall i op) s = mem_call bd i op s"
| "mem_exec bd (MSpuriousWorker i) s = with_pool (spurious_worker i (mp s)) s"
| "mem_exec bd (MSpuriousClient i) s = with_pool (spurious_client i (mp s)) s"

text \<open>
  The transition system of the steps that lead to a state, for clients that submit a function, not
  NULL.
\<close>

fun proper :: "mem_action \<Rightarrow> bool" where
  "proper (MCall i (MSubmit t junk fn refcon)) \<longleftrightarrow> fn \<noteq> NULL"
| "proper a \<longleftrightarrow> True"

definition mem_next :: "build \<Rightarrow> mem_action \<Rightarrow> mpool \<Rightarrow> mpool option" where
  "mem_next bd a s = (if proper a then case mem_exec bd a s of Some (Inr s') \<Rightarrow> Some s' | _ \<Rightarrow> None else None)"

end
