(* ===== verification/CC_PoolMemSim.thy ===== *)
theory CC_PoolMemSim
  imports CC_PoolMem
begin

text \<open>
  The pool in memory simulates the pool of CC_Pool, step for step: its list is the queue, and its
  blocks are exactly the tasks somebody still has.
\<close>

section \<open>What a memory represents\<close>

text \<open>The task of a client that has not queued it yet.\<close>

fun pending :: "client \<Rightarrow> task multiset" where
  "pending (CSubmitLock t) = {# t #}"
| "pending (CSubmit t) = {# t #}"
| "pending c = {#}"

definition tasks_held :: "pool \<Rightarrow> task multiset" where
  "tasks_held a = mset (p_tasks a) + sum_over running (p_workers a) + sum_over pending (p_clients a)"

definition strip :: "pool \<Rightarrow> pool" where
  "strip a = a\<lparr>p_tasks := [], h_dropped := []\<rparr>"

definition blocks_rep :: "mpool \<Rightarrow> task multiset \<Rightarrow> bool" where
  "blocks_rep s ts \<longleftrightarrow> finite (dom (mp_blocks s)) \<and> mset_set (unat ` dom (mp_blocks s)) = ts \<and>
     (\<forall>t b. mp_blocks s t = Some b \<longrightarrow> t \<noteq> NULL \<and> t_fn b \<noteq> NULL \<and>
        nodes (mp_list s) (t + task_offset) \<noteq> None \<and> t + task_offset \<noteq> head_of (mp_at s))"

definition pool_rep :: "mpool \<Rightarrow> pool \<Rightarrow> bool" where
  "pool_rep s a \<longleftrightarrow> mp s = strip a \<and> blocks_rep s (tasks_held a) \<and>
     (p_live a \<longrightarrow> wf_list (mp_list s) (mp_at s) task_offset (map of_nat (p_tasks a)))"

lemma pool_repD:
  assumes "pool_rep s a"
  shows "mp s = strip a" "blocks_rep s (tasks_held a)"
    "p_live a \<Longrightarrow> wf_list (mp_list s) (mp_at s) task_offset (map of_nat (p_tasks a))"
  using assms by (simp_all add: pool_rep_def)

lemma strip_simps [simp]:
  "p_live (strip a) = p_live a" "p_single_mt (strip a) = p_single_mt a" "p_mt (strip a) = p_mt a"
  "p_tasks (strip a) = []" "p_stop (strip a) = p_stop a" "p_in_work (strip a) = p_in_work a"
  "p_thread_count (strip a) = p_thread_count a" "p_workers (strip a) = p_workers a"
  "p_clients (strip a) = p_clients a" "h_submitted (strip a) = h_submitted a"
  "h_started (strip a) = h_started a" "h_finished (strip a) = h_finished a"
  by (simp_all add: strip_def)

section \<open>Steps that leave the queue alone\<close>

lemma strip_call: "call_pool i op (strip a) = map_option strip (call_pool i op a)"
  by (auto simp: call_pool_def set_client_def strip_def split: call.splits)

lemma strip_spurious:
  "spurious_worker i (strip a) = map_option strip (spurious_worker i a)"
  "spurious_client i (strip a) = map_option strip (spurious_client i a)"
  by (auto simp: spurious_worker_def spurious_client_def set_worker_def set_client_def strip_def)

lemma strip_join: "join_workers i j (strip a) = map_option strip (join_workers i j a)"
  by (auto simp: join_workers_def set_client_def strip_def)

lemma strip_worker:
  "i < length (p_workers a) \<Longrightarrow> p_workers a ! i \<in> {WLock, WRelock, WDoneLock, WDone} \<Longrightarrow>
   pool_worker i c (strip a) = map_option strip (pool_worker i c a)"
  by (cases "signal CWaitWait CWaitRelock c (p_clients a)")
    (auto simp: pool_worker_def lock_def unlock_def set_worker_def strip_def)

lemma strip_client:
  "i < length (p_clients a) \<Longrightarrow>
   p_clients a ! i \<in> {CWaitLock, CWaitRelock, CStopSingle, CStopLock} \<union> range CSubmitLock \<Longrightarrow>
   client_step i c (strip a) = map_option strip (client_step i c a)"
  by (auto simp: client_step_def lock_def set_client_def strip_def)

text \<open>What such a step keeps.\<close>

definition same_tasks :: "pool \<Rightarrow> pool \<Rightarrow> bool" where
  "same_tasks a a' \<longleftrightarrow> p_tasks a' = p_tasks a \<and> tasks_held a' = tasks_held a \<and> (p_live a' \<longrightarrow> p_live a)"

lemma pending_set:
  "i < length cs \<Longrightarrow> pending (cs ! i) = pending c \<Longrightarrow> sum_over pending (cs[i := c]) = sum_over pending cs"
  by (rule sum_over_same) auto

lemma running_same:
  "i < length ws \<Longrightarrow> running (ws ! i) = running w \<Longrightarrow> sum_over running (ws[i := w]) = sum_over running ws"
  by (rule sum_over_same) auto

lemmas task_sums = tasks_held_def pending_set running_same sum_over_signal sum_over_broadcast

lemma same_tasks_spurious:
  "spurious_worker i a = Some a' \<Longrightarrow> same_tasks a a'" "spurious_client i a = Some a' \<Longrightarrow> same_tasks a a'"
  by (auto simp: same_tasks_def pool_defs task_sums split: if_splits)

lemma same_tasks_worker:
  assumes "p_workers a ! i \<in> {WLock, WRelock, WDoneLock, WDone}" "pool_worker i c a = Some a'"
  shows "same_tasks a a'"
  using assms by (auto simp: same_tasks_def pool_defs task_sums split: if_splits)

lemma same_tasks_client:
  assumes "p_clients a ! i \<in> {CWaitLock, CWaitRelock, CStopSingle, CStopLock} \<union> range CSubmitLock \<union> range CJoin"
    "client_step i c a = Some a'"
  shows "same_tasks a a'"
  using assms by (auto simp: same_tasks_def pool_defs task_sums split: if_splits)

lemma same_tasks_call:
  "call_pool i Wait a = Some a' \<Longrightarrow> same_tasks a a'" "call_pool i Stop a = Some a' \<Longrightarrow> same_tasks a a'"
  by (auto simp: same_tasks_def pool_defs task_sums split: if_splits)

lemma rep_control:
  assumes "pool_rep s a" "same_tasks a a'"
  shows "pool_rep (s\<lparr>mp := strip a'\<rparr>) a'"
  using assms by (simp add: pool_rep_def same_tasks_def blocks_rep_def)

text \<open>How a step of the memory and the step it stands for correspond.\<close>

definition simulates :: "mpool res option \<Rightarrow> pool option \<Rightarrow> bool" where
  "simulates r p \<longleftrightarrow> rel_option (\<lambda>r a. \<exists>s. r = Inr s \<and> pool_rep s a) r p"

lemma simulates_simps [simp]:
  "simulates None None" "simulates (Some (Inr s)) (Some a) \<longleftrightarrow> pool_rep s a"
  by (simp_all add: simulates_def)

lemma simulates_control:
  assumes "pool_rep s a" "\<And>a'. p = Some a' \<Longrightarrow> same_tasks a a'"
  shows "simulates (with_pool (map_option strip p) s) p"
  using rep_control [OF assms(1)] assms(2) by (cases p) (auto simp: with_pool_def)

section \<open>Blocks\<close>

lemma blocks_repD:
  assumes "blocks_rep s ts"
  shows "finite (dom (mp_blocks s))" "mset_set (unat ` dom (mp_blocks s)) = ts"
    "mp_blocks s t = Some b \<Longrightarrow> t \<noteq> NULL" "mp_blocks s t = Some b \<Longrightarrow> t_fn b \<noteq> NULL"
    "mp_blocks s t = Some b \<Longrightarrow> nodes (mp_list s) (t + task_offset) \<noteq> None"
    "mp_blocks s t = Some b \<Longrightarrow> t + task_offset \<noteq> head_of (mp_at s)"
  using assms unfolding blocks_rep_def by blast+

lemma block_of_task:
  assumes "blocks_rep s ts" "n \<in># ts"
  shows "\<exists>b. mp_blocks s (of_nat n) = Some b" "unat (of_nat n :: addr) = n"
proof -
  have "n \<in> unat ` dom (mp_blocks s)"
    using assms blocks_repD(1,2) [OF assms(1)] by (metis finite_imageI finite_set_mset_mset_set)
  then show "\<exists>b. mp_blocks s (of_nat n) = Some b" "unat (of_nat n :: addr) = n"
    by auto
qed

lemma blocks_distinct:
  assumes "blocks_rep s ts"
  shows "count ts n \<le> 1"
  using blocks_repD(2) [OF assms] by (simp add: count_mset_set' flip: blocks_repD(2) [OF assms])

lemma blocks_cong:
  assumes "blocks_rep s ts" "mp_blocks s' = mp_blocks s" "mp_at s' = mp_at s"
    and "\<And>p. nodes (mp_list s) p \<noteq> None \<Longrightarrow> nodes (mp_list s') p \<noteq> None"
  shows "blocks_rep s' ts"
  using assms unfolding blocks_rep_def by metis

text \<open>A task that is not in the queue is apart from the queue's nodes.\<close>

lemma task_apart:
  assumes "blocks_rep s ts" "mp_blocks s t = Some b" "unat t \<notin> set ns" "set ns \<subseteq> set_mset ts"
  shows "t + task_offset \<notin> footprint (mp_at s) task_offset (map of_nat ns)"
proof -
  have "t \<noteq> of_nat n" if "n \<in> set ns" for n
    using assms(3,4) that block_of_task(2) [OF assms(1), of n] by auto
  then show ?thesis
    using blocks_repD(6) [OF assms(1,2)] by (auto simp: footprint_def)
qed

section \<open>Workers\<close>

lemma held_tasks: "set (p_tasks a) \<subseteq> set_mset (tasks_held a)"
  by (auto simp: tasks_held_def)

text \<open>A worker takes the first task, waits, or ends.\<close>

lemma take_simulates:
  assumes rep: "pool_rep s a" and live: "p_live a" and i: "i < length (p_workers a)" "p_workers a ! i = WCheck"
  shows "simulates (Some (mem_take bd i s)) (pool_worker i c a)"
proof -
  note r = pool_repD [OF rep]
  have wf: "wf_list (mp_list s) (mp_at s) task_offset (map of_nat (p_tasks a))"
    by (rule r(3) [OF live])
  have sz: "rd_size (mp_list s) (mp_at s) = Inr (of_nat (length (p_tasks a)))"
    "(of_nat (length (p_tasks a)) :: size_t) = 0 \<longleftrightarrow> p_tasks a = []"
    using wf_list_size [OF wf] by simp_all
  show ?thesis
  proof (cases "p_stop a \<or> p_tasks a = []")
    case True
    let ?a = "unlock (set_worker i (if p_stop a then WExit else WWait) a)"
    have "same_tasks a ?a"
      using i by (auto simp: same_tasks_def task_sums unlock_def set_worker_def)
    moreover have "mem_take bd i s = Inr (s\<lparr>mp := strip ?a\<rparr>)" "pool_worker i c a = Some ?a"
      using True i sz r(1)
      by (auto simp: mem_take_def pool_worker_def strip_def unlock_def set_worker_def split: list.splits)
    ultimately show ?thesis
      using rep_control [OF rep] by simp
  next
    case False
    then obtain n ns where ns: "p_tasks a = n # ns"
      by (cases "p_tasks a") auto
    let ?a = "unlock (set_worker i (WRun n) (a\<lparr>p_tasks := ns, p_in_work := p_in_work a + 1, h_started := h_started a @ [n]\<rparr>))"
    have n: "unat (of_nat n :: addr) = n"
      by (rule block_of_task(2) [OF r(2)]) (simp add: tasks_held_def ns)
    obtain m where m: "cclist_remove_first bd (mp_list s) (mp_at s) = Inr m"
      "wf_list m (mp_at s) task_offset (map of_nat ns)" "only_touches (mp_list s) (mp_at s) (footprint (mp_at s) task_offset (map of_nat (n # ns))) m"
      using remove_first_yields [of "mp_list s" "mp_at s" task_offset "of_nat n" "map of_nat ns" bd] wf ns
      by (auto simp: yields_def)
    let ?s = "s\<lparr>mp_list := m, mp := strip ?a\<rparr>"
    have "mem_take bd i s = Inr ?s"
      using False sz m(1) n ns r(1) first_of_list [OF wf, of bd]
      by (simp add: mem_take_def strip_def unlock_def set_worker_def)
    moreover have "pool_worker i c a = Some ?a"
      using False i ns by (simp add: pool_worker_def)
    moreover have "tasks_held ?a = tasks_held a"
      using i running_set(1) [OF i(1), of "WRun n"] by (simp add: tasks_held_def unlock_def set_worker_def ns)
    then have "blocks_rep ?s (tasks_held ?a)"
      using blocks_cong [OF r(2), of ?s] only_touches_mapped [OF m(3)] by simp
    then have "pool_rep ?s ?a"
      using m(2) by (simp add: pool_rep_def unlock_def set_worker_def)
    ultimately show ?thesis
      by simp
  qed
qed

text \<open>Freeing a task.\<close>

lemma inj_unat: "inj (unat :: addr \<Rightarrow> nat)"
  by (metis injI unsigned_word_eqI)

lemma free_task_rep:
  assumes rep: "blocks_rep s (add_mset n ts)"
  shows "\<exists>b m blocks. mp_blocks s (of_nat n) = Some b \<and>
    free_task (of_nat n) (mp_list s, mp_blocks s) = Inr (m, blocks) \<and>
    m = unmap_node (of_nat n + task_offset) (mp_list s) \<and> blocks = (mp_blocks s)(of_nat n := None) \<and>
    (\<forall>s'. mp_list s' = m \<longrightarrow> mp_blocks s' = blocks \<longrightarrow> mp_at s' = mp_at s \<longrightarrow> blocks_rep s' ts)"
proof -
  have n: "\<exists>b. mp_blocks s (of_nat n) = Some b" "unat (of_nat n :: addr) = n"
    using block_of_task [OF rep, of n] by simp_all
  let ?m = "unmap_node (of_nat n + task_offset) (mp_list s)" and ?b = "(mp_blocks s)(of_nat n := None)"
  have "unat ` dom ?b = unat ` dom (mp_blocks s) - {n}"
    using image_set_diff [OF inj_unat, of "dom (mp_blocks s)" "{of_nat n}"] n(2) by simp
  moreover have "n \<in> unat ` dom (mp_blocks s)"
    using n by force
  ultimately have "mset_set (unat ` dom ?b) = ts"
    using blocks_repD(1,2) [OF rep] by (simp add: mset_set_Diff)
  then have "blocks_rep s' ts" if "mp_list s' = ?m" "mp_blocks s' = ?b" "mp_at s' = mp_at s" for s'
    using that rep by (auto simp: blocks_rep_def unmap_node_def)
  then show ?thesis
    using n(1) by (auto simp: free_task_def)
qed

lemma run_simulates:
  assumes rep: "pool_rep s a" and i: "i < length (p_workers a)" "p_workers a ! i = WRun n"
  shows "simulates (Some (mem_run bd i (of_nat n) s)) (pool_worker i c a)"
proof -
  note r = pool_repD [OF rep]
  let ?a = "set_worker i WDoneLock (a\<lparr>h_finished := h_finished a @ [n]\<rparr>)"
  have held: "tasks_held a = add_mset n (tasks_held ?a)"
    using running_set(2) [OF i(1), of WDoneLock] i(2) by (simp add: tasks_held_def set_worker_def)
  obtain b where b: "mp_blocks s (of_nat n) = Some b"
    "free_task (of_nat n) (mp_list s, mp_blocks s) =
      Inr (unmap_node (of_nat n + task_offset) (mp_list s), (mp_blocks s)(of_nat n := None))"
    "\<And>s'. mp_list s' = unmap_node (of_nat n + task_offset) (mp_list s) \<Longrightarrow> mp_blocks s' = (mp_blocks s)(of_nat n := None) \<Longrightarrow>
      mp_at s' = mp_at s \<Longrightarrow> blocks_rep s' (tasks_held ?a)"
    using free_task_rep [OF r(2) [unfolded held]] by blast
  have n: "unat (of_nat n :: addr) = n" "of_nat n \<noteq> (NULL :: addr)" "t_fn b \<noteq> NULL"
    using block_of_task(2) [OF r(2), of n] blocks_repD(3,4) [OF r(2) b(1)] held by simp_all
  let ?s = "s\<lparr>mp_calls := mp_calls s @ [(t_fn b, t_refcon b)], mp_list := unmap_node (of_nat n + task_offset) (mp_list s),
    mp_blocks := (mp_blocks s)(of_nat n := None), mp := strip ?a\<rparr>"
  have "mem_run bd i (of_nat n) s = Inr ?s"
    using b(1,2) n r(1) by (simp add: mem_run_def strip_def set_worker_def)
  moreover have "pool_worker i c a = Some ?a"
    using i by (simp add: pool_worker_def)
  moreover have "wf_list (mp_list ?s) (mp_at s) task_offset (map of_nat (p_tasks a))" if "p_live a"
  proof (rule wf_list_local [OF r(3) [OF that]])
    have "n \<notin> set (p_tasks a)"
      using blocks_distinct [OF r(2), of n] held
      by (auto simp: tasks_held_def set_worker_def)
    then have "of_nat n + task_offset \<notin> footprint (mp_at s) task_offset (map of_nat (p_tasks a))"
      using task_apart [OF r(2) b(1) _ held_tasks] n(1) by simp
    then show "nodes (mp_list ?s) p = nodes (mp_list s) p"
      if "p \<in> footprint (mp_at s) task_offset (map of_nat (p_tasks a))" for p
      using that by (auto simp: unmap_node_def)
  qed (simp add: unmap_node_def)
  then have "pool_rep ?s ?a"
    using b(3) by (simp add: pool_rep_def set_worker_def)
  ultimately show ?thesis by simp
qed

lemma worker_simulates:
  assumes rep: "pool_rep s a" and live: "p_live a"
  shows "simulates (mem_worker bd i c s) (pool_worker i c a)"
proof (cases "i < length (p_workers a)")
  case True
  note r = pool_repD(1) [OF rep]
  show ?thesis
  proof (cases "p_workers a ! i \<in> {WLock, WRelock, WDoneLock, WDone}")
    case other: True
    have "simulates (with_pool (map_option strip (pool_worker i c a)) s) (pool_worker i c a)"
      by (rule simulates_control [OF rep]) (rule same_tasks_worker [OF other])
    then show ?thesis
      using True other live r strip_worker [OF True other, of c] by (auto simp: mem_worker_def)
  next
    case False
    then consider "p_workers a ! i = WCheck" | n where "p_workers a ! i = WRun n" | "p_workers a ! i \<in> {WWait, WExit}"
      by (cases "p_workers a ! i") auto
    then show ?thesis
    proof cases
      case 1
      then show ?thesis
        using take_simulates [OF rep live True 1] True live r by (simp add: mem_worker_def)
    next
      case 2
      then show ?thesis
        using run_simulates [OF rep True 2] True r by (simp add: mem_worker_def)
    qed (use True r in \<open>auto simp: mem_worker_def pool_worker_def\<close>)
  qed
qed (use pool_repD(1) [OF rep] in \<open>simp add: mem_worker_def pool_worker_def\<close>)

section \<open>Clients\<close>

lemma submit_simulates:
  assumes rep: "pool_rep s a" and live: "p_live a" and i: "i < length (p_clients a)" "p_clients a ! i = CSubmit n"
  shows "simulates (mem_submit bd i c (of_nat n) s) (client_step i c a)"
proof (cases "signal WWait WRelock c (p_workers a)")
  case None
  then show ?thesis
    using i pool_repD(1) [OF rep] by (simp add: mem_submit_def client_step_def ccpool_submit_def)
next
  case (Some ws)
  note r = pool_repD [OF rep]
  let ?a = "unlock (set_client i CIdle (a\<lparr>p_tasks := p_tasks a @ [n], h_submitted := h_submitted a @ [n], p_workers := ws\<rparr>))"
  have "sum_over pending ((p_clients a)[i := CIdle]) + {#n#} = sum_over pending (p_clients a)"
    using sum_over_update [OF i(1), of pending CIdle] i(2) by simp
  then have held: "tasks_held ?a = tasks_held a" and notin: "tasks_held a = add_mset n (mset (p_tasks a) +
      sum_over running (p_workers a) + sum_over pending ((p_clients a)[i := CIdle]))"
    using sum_over_signal [OF Some, of running] by (simp_all add: tasks_held_def unlock_def set_client_def flip: \<open>_ = sum_over pending (p_clients a)\<close>)
  obtain b where b: "mp_blocks s (of_nat n) = Some b" and n: "unat (of_nat n :: addr) = n"
    using block_of_task [OF r(2), of n] notin by auto
  have "n \<notin> set (p_tasks a)"
    using blocks_distinct [OF r(2), of n] notin by auto
  then have "fresh_obj (mp_list s) (mp_at s) task_offset (map of_nat (p_tasks a)) (of_nat n)"
    using task_apart [OF r(2) b _ held_tasks] blocks_repD(3,5) [OF r(2) b] n by (simp add: fresh_obj_def)
  then obtain m where m: "cclist_insert_last bd (mp_list s) (mp_at s) (of_nat n) = Inr m"
    "wf_list m (mp_at s) task_offset (map of_nat (p_tasks a @ [n]))"
    "only_touches (mp_list s) (mp_at s) (footprint (mp_at s) task_offset (map of_nat (p_tasks a @ [n]))) m"
    using insert_last_yields [OF r(3) [OF live], of "of_nat n" bd] by (auto simp: yields_def)
  let ?s = "s\<lparr>mp_list := m, mp := strip ?a\<rparr>"
  have "mem_submit bd i c (of_nat n) s = Some (Inr ?s)"
    using Some m(1) n r(1) by (simp add: mem_submit_def strip_def unlock_def set_client_def)
  moreover have "client_step i c a = Some ?a"
    using Some i by (simp add: client_step_def ccpool_submit_def)
  moreover have "blocks_rep ?s (tasks_held ?a)"
    unfolding held using blocks_cong [OF r(2), of ?s] only_touches_mapped [OF m(3)] by simp
  then have "pool_rep ?s ?a"
    using m(2) by (simp add: pool_rep_def unlock_def set_client_def)
  ultimately show ?thesis by simp
qed

lemma wait_simulates:
  assumes rep: "pool_rep s a" and live: "p_live a" and i: "i < length (p_clients a)" "p_clients a ! i = CWaitCheck"
  shows "simulates (Some (mem_wait i s)) (client_step i c a)"
proof -
  note r = pool_repD [OF rep]
  let ?a = "unlock (set_client i (if p_in_work a \<noteq> 0 \<or> p_tasks a \<noteq> [] then CWaitWait else CIdle) a)"
  have "mem_wait i s = Inr (s\<lparr>mp := strip ?a\<rparr>)"
    using wf_list_size [OF r(3) [OF live]] r(1) by (simp add: mem_wait_def strip_def unlock_def set_client_def)
  moreover have "client_step i c a = Some ?a"
    using i by (simp add: client_step_def ccpool_wait_def)
  moreover have "same_tasks a ?a"
    using i by (simp add: same_tasks_def task_sums unlock_def set_client_def)
  ultimately show ?thesis
    using rep_control [OF rep] by simp
qed

text \<open>The stop frees every task of the queue.\<close>

lemma free_tasks:
  assumes "blocks_rep s (mset ns + ts)"
  shows "\<exists>m blocks. run_des (Some free_task) (map of_nat ns) (mp_list s, mp_blocks s) = Inr (m, blocks) \<and>
    blocks \<subseteq>\<^sub>m mp_blocks s \<and>
    (\<forall>s'. mp_list s' = m \<longrightarrow> mp_blocks s' = blocks \<longrightarrow> mp_at s' = mp_at s \<longrightarrow> blocks_rep s' ts)"
  using assms
proof (induction ns arbitrary: s)
  case Nil
  then show ?case
    by (auto simp: blocks_rep_def)
next
  case (Cons n ns)
  obtain m blocks where f: "free_task (of_nat n) (mp_list s, mp_blocks s) = Inr (m, blocks)" "blocks \<subseteq>\<^sub>m mp_blocks s"
    "\<And>s'. mp_list s' = m \<Longrightarrow> mp_blocks s' = blocks \<Longrightarrow> mp_at s' = mp_at s \<Longrightarrow> blocks_rep s' (mset ns + ts)"
    using free_task_rep [of s n "mset ns + ts"] Cons.prems by (auto simp: map_le_def)
  have "blocks_rep (s\<lparr>mp_list := m, mp_blocks := blocks\<rparr>) (mset ns + ts)"
    by (rule f(3)) simp_all
  from Cons.IH [OF this] f(1,2) show ?case
    by (auto intro: map_le_trans)
qed

lemma free_task_local: "local_des (Some free_task) l task_offset"
  by (auto simp: local_des_def free_task_def unmap_node_def split: if_splits)

lemma stop_frees:
  assumes rep: "pool_rep s a" and live: "p_live a" and i: "i < length (p_clients a)" "p_clients a ! i = CStop"
  shows "\<exists>s' a'. mem_stop bd i s = Some (Inr s') \<and> client_step i c a = Some a' \<and> pool_rep s' a' \<and>
    mp_blocks s' \<subseteq>\<^sub>m mp_blocks s \<and> mp_given s' = mp_given s \<and> mp_calls s' = mp_calls s \<and> p_stop (mp s')"
proof -
  note r = pool_repD [OF rep]
  let ?a = "unlock (set_client i (CJoin 0) (a\<lparr>p_stop := True, p_tasks := [], h_dropped := h_dropped a @ p_tasks a,
    p_workers := broadcast WWait WRelock (p_workers a)\<rparr>))"
  have "tasks_held ?a + mset (p_tasks a) = tasks_held a"
    using pending_set [OF i(1), of "CJoin 0"] i(2)
    by (simp add: tasks_held_def unlock_def set_client_def sum_over_broadcast)
  then have "blocks_rep s (mset (p_tasks a) + tasks_held ?a)"
    using r(2) by (simp add: add.commute)
  then obtain m blocks where f: "run_des (Some free_task) (map of_nat (p_tasks a)) (mp_list s, mp_blocks s) = Inr (m, blocks)"
    "\<And>s'. mp_list s' = m \<Longrightarrow> mp_blocks s' = blocks \<Longrightarrow> mp_at s' = mp_at s \<Longrightarrow> blocks_rep s' (tasks_held ?a)"
    "blocks \<subseteq>\<^sub>m mp_blocks s"
    using free_tasks by blast
  obtain m' where m': "cclist_clear bd (Some free_task) (mp_list s) (mp_at s) (mp_blocks s) = Some (Inr (m', blocks))"
    "wf_list m' (mp_at s) task_offset []" "only_touches m (mp_at s) {head_of (mp_at s)} m'"
    using clear_result [OF r(3) [OF live] free_task_local f(1), of bd] by blast
  let ?s = "s\<lparr>mp_list := m', mp_blocks := blocks, mp := strip ?a\<rparr>"
  have "mem_stop bd i s = Some (Inr ?s)"
    using m'(1) r(1) by (simp add: mem_stop_def strip_def unlock_def set_client_def)
  moreover have "client_step i c a = Some ?a"
    using i by (simp add: client_step_def ccpool_stop_def)
  moreover have "blocks_rep ?s (tasks_held ?a)"
    using blocks_cong [OF f(2) [of "s\<lparr>mp_list := m, mp_blocks := blocks\<rparr>"], of ?s] only_touches_mapped [OF m'(3)] by simp
  then have "pool_rep ?s ?a"
    using m'(2) by (simp add: pool_rep_def unlock_def set_client_def)
  ultimately show ?thesis
    using f(3) by (intro exI [of _ ?s] exI [of _ ?a]) (simp add: unlock_def set_client_def)
qed

lemma stop_simulates:
  assumes "pool_rep s a" "p_live a" "i < length (p_clients a)" "p_clients a ! i = CStop"
  shows "simulates (mem_stop bd i s) (client_step i c a)"
  using stop_frees [OF assms, of bd c] by auto

lemma join_simulates:
  assumes rep: "pool_rep s a" and i: "i < length (p_clients a)" "p_clients a ! i = CJoin j"
  shows "simulates (mem_join i j s) (client_step i c a)"
proof (cases "join_workers i j a")
  case None
  then show ?thesis
    using i pool_repD(1) [OF rep] strip_join [of i j a] by (simp add: mem_join_def client_step_def)
next
  case (Some a')
  have step: "client_step i c a = Some a'"
    using Some i by (simp add: client_step_def)
  have "same_tasks a a'"
    using same_tasks_client [OF _ step] i(2) by auto
  then have "pool_rep (s\<lparr>mp := strip a'\<rparr>) a'"
    by (rule rep_control [OF rep])
  then show ?thesis
    using Some step strip_join [of i j a] pool_repD(1) [OF rep]
    by (auto simp: mem_join_def pool_rep_def blocks_rep_def unmap_node_def)
qed

lemma client_simulates:
  assumes rep: "pool_rep s a" and live: "p_live a"
  shows "simulates (mem_client bd i c s) (client_step i c a)"
proof (cases "i < length (p_clients a)")
  case True
  note r = pool_repD(1) [OF rep]
  let ?plain = "{CWaitLock, CWaitRelock, CStopSingle, CStopLock} \<union> range CSubmitLock"
  show ?thesis
  proof (cases "p_clients a ! i \<in> ?plain")
    case other: True
    have "simulates (with_pool (map_option strip (client_step i c a)) s) (client_step i c a)"
      by (rule simulates_control [OF rep]) (rule same_tasks_client, use other in auto)
    then show ?thesis
      using True other live r strip_client [OF True other, of c] by (auto simp: mem_client_def)
  next
    case False
    then consider n where "p_clients a ! i = CSubmit n" | "p_clients a ! i = CWaitCheck" | "p_clients a ! i = CStop"
      | j where "p_clients a ! i = CJoin j" | "p_clients a ! i \<in> {CIdle, CWaitWait}"
      by (cases "p_clients a ! i") auto
    then show ?thesis
    proof cases
      case 1
      then show ?thesis
        using submit_simulates [OF rep live True 1] True live r by (simp add: mem_client_def)
    next
      case 2
      then show ?thesis
        using wait_simulates [OF rep live True 2] True live r by (simp add: mem_client_def)
    next
      case 3
      then show ?thesis
        using stop_simulates [OF rep live True 3] True live r by (simp add: mem_client_def)
    next
      case 4
      then show ?thesis
        using join_simulates [OF rep True 4] True live r by (simp add: mem_client_def)
    qed (use True r in \<open>auto simp: mem_client_def client_step_def\<close>)
  qed
qed (use pool_repD(1) [OF rep] in \<open>simp add: mem_client_def client_step_def\<close>)

section \<open>Calls\<close>

fun pool_call :: "mem_call \<Rightarrow> call" where
  "pool_call (MSubmit t junk fn refcon) = Submit (unat t)"
| "pool_call MWait = Wait"
| "pool_call MStop = Stop"

fun pool_action :: "mem_action \<Rightarrow> action" where
  "pool_action (MWorkerStep i c) = WorkerStep i c"
| "pool_action (MClientStep i c) = ClientStep i c"
| "pool_action (MCall i op) = Call i (pool_call op)"
| "pool_action (MSpuriousWorker i) = SpuriousWorker i"
| "pool_action (MSpuriousClient i) = SpuriousClient i"

text \<open>An allocation can answer with this block.\<close>

fun allocates :: "mem_action \<Rightarrow> mpool \<Rightarrow> bool" where
  "allocates (MCall i (MSubmit t junk fn refcon)) s \<longleftrightarrow>
     t \<noteq> NULL \<and> mp_blocks s t = None \<and> nodes (mp_list s) (t + task_offset) = None"
| "allocates a s \<longleftrightarrow> True"

lemma footprint_mapped:
  "wf_list m l off xs \<Longrightarrow> p \<in> footprint l off xs \<Longrightarrow> nodes m p \<noteq> None"
  by (rule ring_mapped [OF wf_listD(4)]) (auto simp: footprint_def)

lemma new_block:
  assumes rep: "blocks_rep s ts" and t: "t \<noteq> NULL" "mp_blocks s t = None" "fn \<noteq> NULL" "t + task_offset \<noteq> head_of (mp_at s)"
    and s': "mp_blocks s' = (mp_blocks s)(t \<mapsto> \<lparr>t_fn = fn, t_refcon = arg\<rparr>)" "mp_at s' = mp_at s"
      "nodes (mp_list s') = (nodes (mp_list s))(t + task_offset \<mapsto> junk)"
  shows "blocks_rep s' (add_mset (unat t) ts)"
proof -
  have "unat t \<notin> unat ` dom (mp_blocks s)"
    using t(2) inj_image_mem_iff [OF inj_unat] by auto
  then have "mset_set (unat ` dom (mp_blocks s')) = add_mset (unat t) ts"
    using blocks_repD(1,2) [OF rep] s'(1) by simp
  then show ?thesis
    using rep t s' unfolding blocks_rep_def by auto
qed

lemma call_simulates:
  assumes rep: "pool_rep s a" and ok: "allocates (MCall i op) s" "proper (MCall i op)"
  shows "simulates (mem_call bd i op s) (call_pool i (pool_call op) a)"
proof (cases op)
  case (MSubmit t junk fn arg)
  note r = pool_repD [OF rep]
  have t: "t \<noteq> NULL" "mp_blocks s t = None" "nodes (mp_list s) (t + task_offset) = None" "fn \<noteq> NULL"
    using ok MSubmit by simp_all
  show ?thesis
  proof (cases "call_pool i (Submit (unat t)) a")
    case None
    then show ?thesis
      using r(1) MSubmit t strip_call [of i "Submit (unat t)" a] by (simp add: mem_call_def)
  next
    case (Some a')
    then have a': "i < length (p_clients a)" "p_clients a ! i = CIdle" "p_live a" "a' = set_client i (CSubmitLock (unat t)) a"
      by (auto simp: call_pool_def split: if_splits)
    have wf: "wf_list (mp_list s) (mp_at s) task_offset (map of_nat (p_tasks a))"
      by (rule r(3) [OF a'(3)])
    let ?m = "(mp_list s)\<lparr>nodes := (nodes (mp_list s))(t + task_offset \<mapsto> junk)\<rparr>"
    let ?s = "s\<lparr>mp := strip a', mp_given := mp_given s @ [(fn, arg)], mp_blocks := (mp_blocks s)(t \<mapsto> \<lparr>t_fn = fn, t_refcon = arg\<rparr>),
      mp_list := ?m\<rparr>"
    have "p \<noteq> t + task_offset" if "p \<in> footprint (mp_at s) task_offset (map of_nat (p_tasks a))" for p
      using footprint_mapped [OF wf that] t(3) by blast
    then have "head_of (mp_at s) \<noteq> t + task_offset" "wf_list ?m (mp_at s) task_offset (map of_nat (p_tasks a))"
      by (auto simp: footprint_def intro: wf_list_local [OF wf])
    moreover have "tasks_held a' = add_mset (unat t) (tasks_held a)"
      using sum_over_update [OF a'(1), of pending "CSubmitLock (unat t)"] a' by (simp add: tasks_held_def set_client_def)
    ultimately have "pool_rep ?s a'"
      using new_block [OF r(2) t(1,2,4), of ?s arg junk] a'(4) by (simp add: pool_rep_def set_client_def)
    moreover have "mem_call bd i op s = Some (Inr ?s)"
      using MSubmit t Some r(1) strip_call [of i "Submit (unat t)" a] by (simp add: mem_call_def)
    ultimately show ?thesis
      using Some MSubmit by simp
  qed
next
  case MWait
  then show ?thesis
    using simulates_control [OF rep same_tasks_call(1), of "call_pool i Wait a"] pool_repD(1) [OF rep] strip_call [of i Wait a]
    by (simp add: mem_call_def)
next
  case MStop
  then show ?thesis
    using simulates_control [OF rep same_tasks_call(2), of "call_pool i Stop a"] pool_repD(1) [OF rep] strip_call [of i Stop a]
    by (simp add: mem_call_def)
qed

section \<open>Simulation\<close>

text \<open>While the pool is there, every step of the memory is the step of the pool, and none fails.\<close>

lemma live_step:
  assumes rep: "pool_rep s a" and live: "p_live a" and act: "proper act" "allocates act s"
  shows "simulates (mem_exec bd act s) (exec (pool_action act) a)"
proof (cases act)
  case (MSpuriousWorker i)
  then show ?thesis
    using simulates_control [OF rep same_tasks_spurious(1)] pool_repD(1) [OF rep] strip_spurious(1) by simp
next
  case (MSpuriousClient i)
  then show ?thesis
    using simulates_control [OF rep same_tasks_spurious(2)] pool_repD(1) [OF rep] strip_spurious(2) by simp
qed (use worker_simulates [OF rep live] client_simulates [OF rep live] call_simulates [OF rep] act in simp_all)

lemma not_allocated: "\<not> allocates act s \<Longrightarrow> mem_exec bd act s = None"
  by (cases "(act, s)" rule: allocates.cases) (auto simp: mem_call_def)

text \<open>After it was freed, all workers having ended, a client that is not inside a call is safe too.\<close>

lemma freed_step:
  assumes rep: "pool_rep s a" and freed: "\<not> p_live a" "set (p_workers a) \<subseteq> {WExit}" and act: "proper act" "allocates act s"
    and out: "\<And>i c. act = MClientStep i c \<Longrightarrow> i < length (p_clients a) \<Longrightarrow> p_clients a ! i \<in> {CIdle, CWaitWait, CStopSingle}"
  shows "simulates (mem_exec bd act s) (exec (pool_action act) a)"
proof (cases act)
  case (MWorkerStep i c)
  have "i < length (p_workers a) \<Longrightarrow> p_workers a ! i = WExit"
    using freed(2) nth_mem by blast
  then show ?thesis
    using MWorkerStep pool_repD(1) [OF rep] by (auto simp: mem_worker_def pool_worker_def)
next
  case (MClientStep i c)
  show ?thesis
  proof (cases "i < length (p_clients a)")
    case True
    have "simulates (with_pool (map_option strip (client_step i c a)) s) (client_step i c a)" if "p_clients a ! i = CStopSingle"
      by (rule simulates_control [OF rep]) (rule same_tasks_client, use that in auto)
    then show ?thesis
      using out [OF MClientStep True] MClientStep True pool_repD(1) [OF rep] strip_client [OF True, of c]
      by (auto simp: mem_client_def client_step_def)
  qed (use MClientStep pool_repD(1) [OF rep] in \<open>simp add: mem_client_def client_step_def\<close>)
next
  case (MCall i op)
  then show ?thesis
    using call_simulates [OF rep, of i op] act by simp
next
  case (MSpuriousWorker i)
  then show ?thesis
    using simulates_control [OF rep same_tasks_spurious(1)] pool_repD(1) [OF rep] strip_spurious(1) by simp
next
  case (MSpuriousClient i)
  then show ?thesis
    using simulates_control [OF rep same_tasks_spurious(2)] pool_repD(1) [OF rep] strip_spurious(2) by simp
qed

end
