(* ===== verification/CC_PoolMemProps.thy ===== *)
theory CC_PoolMemProps
  imports CC_PoolMemSim
begin

text \<open>
  Runs of the pool in memory: they are runs of the abstract pool, with one client they never fail and
  end with every block freed, and every function given is called; and what goes wrong with two
  clients, one of which stops the pool while the other submits.
\<close>

section \<open>Runs\<close>

lemma start_rep:
  assumes "pool_storage at m"
  shows "\<exists>s. mem_start bd at m n k = Inr s \<and> pool_rep s (started n k) \<and> mp_given s = [] \<and> mp_calls s = [] \<and>
    mp_blocks s = Map.empty"
proof -
  obtain m' where m': "cclist_init bd m at task_offset = Inr m'" "wf_list m' at task_offset []"
    using init_yields [of at m task_offset bd] assms by (auto simp: pool_storage_def yields_def)
  have "tasks_held (started n k) = {#}" "strip (started n k) = started n k"
    by (simp_all add: tasks_held_def started_eq sum_over_replicate strip_def)
  then show ?thesis
    using m' by (simp add: mem_start_def pool_rep_def blocks_rep_def started_eq)
qed

text \<open>A client inside a call after the pool was freed fails.\<close>

definition outside :: "client set" where
  "outside = {CIdle, CWaitWait, CStopSingle}"

lemma late_client_fails:
  assumes "pool_rep s a" "\<not> p_live a" "i < length (p_clients a)" "p_clients a ! i \<notin> outside"
  shows "mem_client bd i c s = Some (Inl BadDeref)"
  using assms pool_repD(1) [OF assms(1)]
  by (cases "p_clients a ! i") (simp_all add: mem_client_def outside_def)

lemma reachable_step:
  assumes rep: "pool_rep s a" and a: "reach exec (started n k) a" "n < 256" and act: "proper act" "allocates act s"
    and safe: "\<And>i c. act = MClientStep i c \<Longrightarrow> \<not> p_live a \<Longrightarrow> i < length (p_clients a) \<Longrightarrow> p_clients a ! i \<in> outside"
  shows "simulates (mem_exec bd act s) (exec (pool_action act) a)"
proof (cases "p_live a")
  case True
  then show ?thesis
    by (rule live_step [OF rep _ act])
next
  case False
  show ?thesis
    by (rule freed_step [OF rep False freed_workers [OF a False] act]) (use safe False in \<open>auto simp: outside_def\<close>)
qed

lemma next_step:
  assumes rep: "pool_rep s a" and a: "reach exec (started n k) a" "n < 256" and st: "mem_next bd act s = Some s'"
  shows "\<exists>a'. exec (pool_action act) a = Some a' \<and> pool_rep s' a'"
proof -
  have ex: "mem_exec bd act s = Some (Inr s')" "proper act"
    using st by (auto simp: mem_next_def split: if_splits option.splits sum.splits)
  have "p_clients a ! i \<in> outside" if "act = MClientStep i c" "\<not> p_live a" "i < length (p_clients a)" for i c
    using late_client_fails [OF rep that(2,3), of bd c] ex(1) that(1) by auto
  moreover have "allocates act s"
    using not_allocated ex(1) by fastforce
  ultimately have "simulates (mem_exec bd act s) (exec (pool_action act) a)"
    by (intro reachable_step [OF rep a ex(2)])
  then show ?thesis
    using ex(1) by (cases "exec (pool_action act) a") (auto simp: simulates_def)
qed

lemma reach_rep:
  assumes "reach (mem_next bd) s0 s" "pool_rep s0 (started n k)" "n < 256"
  shows "\<exists>a. reach exec (started n k) a \<and> pool_rep s a"
  using assms
proof (induction rule: reach.induct)
  case start
  then show ?case by (blast intro: reach.start)
next
  case (step s act s')
  then obtain a where a: "reach exec (started n k) a" "pool_rep s a"
    by blast
  from next_step [OF a(2,1) step.prems(2) step.hyps(2)] show ?case
    by (auto intro: reach.step [OF a(1)])
qed

section \<open>The functions called\<close>

text \<open>
  The functions given to the pool are those called and those of the blocks still there; only a stop
  throws blocks away.
\<close>

definition block_call :: "task_block \<Rightarrow> addr \<times> addr" where
  "block_call b = (t_fn b, t_refcon b)"

definition held_calls :: "mpool \<Rightarrow> (addr \<times> addr) multiset" where
  "held_calls s = image_mset (\<lambda>t. block_call (the (mp_blocks s t))) (mset_set (dom (mp_blocks s)))"

definition accounted :: "mpool \<Rightarrow> bool" where
  "accounted s \<longleftrightarrow> mset (mp_calls s) + held_calls s \<subseteq># mset (mp_given s) \<and>
     (\<not> p_stop (mp s) \<longrightarrow> mset (mp_calls s) + held_calls s = mset (mp_given s))"

lemma held_calls_add:
  assumes "finite (dom (mp_blocks s))" "mp_blocks s t = None" "mp_blocks s' = (mp_blocks s)(t \<mapsto> b)"
  shows "held_calls s' = add_mset (block_call b) (held_calls s)"
proof -
  have "t \<notin> dom (mp_blocks s)"
    using assms(2) by auto
  moreover have "image_mset (\<lambda>u. block_call (the (((mp_blocks s)(t \<mapsto> b)) u))) (mset_set (dom (mp_blocks s))) = held_calls s"
    unfolding held_calls_def by (rule image_mset_cong) (use assms(1,2) in auto)
  ultimately show ?thesis
    using assms(1,3) by (simp add: held_calls_def)
qed

lemma held_calls_remove:
  assumes "finite (dom (mp_blocks s))" "mp_blocks s t = Some b" "mp_blocks s' = (mp_blocks s)(t := None)"
  shows "held_calls s = add_mset (block_call b) (held_calls s')"
proof (rule held_calls_add)
  show "mp_blocks s = (mp_blocks s')(t \<mapsto> b)"
    using assms(2,3) by auto
qed (use assms in auto)

lemma held_calls_submap:
  assumes "finite (dom (mp_blocks s))" "mp_blocks s' \<subseteq>\<^sub>m mp_blocks s"
  shows "held_calls s' \<subseteq># held_calls s"
proof -
  have sub: "dom (mp_blocks s') \<subseteq> dom (mp_blocks s)"
    by (rule map_le_implies_dom_le [OF assms(2)])
  have "held_calls s' = image_mset (\<lambda>t. block_call (the (mp_blocks s t))) (mset_set (dom (mp_blocks s')))"
    unfolding held_calls_def
    by (rule image_mset_cong) (use assms finite_subset [OF sub assms(1)] in \<open>auto simp: map_le_def\<close>)
  then show ?thesis
    unfolding held_calls_def using subset_imp_msubset_mset_set [OF sub assms(1)] by (simp add: image_mset_subseteq_mono)
qed

text \<open>What a step does to the history.\<close>

definition quiet_step :: "mpool \<Rightarrow> mpool \<Rightarrow> bool" where
  "quiet_step s s' \<longleftrightarrow> mp_blocks s' = mp_blocks s \<and> mp_calls s' = mp_calls s \<and> mp_given s' = mp_given s \<and>
     p_stop (mp s') = p_stop (mp s)"

definition call_step :: "mpool \<Rightarrow> mpool \<Rightarrow> bool" where
  "call_step s s' \<longleftrightarrow> (\<exists>t b. mp_blocks s t = Some b \<and> mp_blocks s' = (mp_blocks s)(t := None) \<and>
     mp_calls s' = mp_calls s @ [block_call b] \<and> mp_given s' = mp_given s \<and> p_stop (mp s') = p_stop (mp s))"

definition give_step :: "mpool \<Rightarrow> mpool \<Rightarrow> bool" where
  "give_step s s' \<longleftrightarrow> (\<exists>t b. mp_blocks s t = None \<and> mp_blocks s' = (mp_blocks s)(t \<mapsto> b) \<and>
     mp_calls s' = mp_calls s \<and> mp_given s' = mp_given s @ [block_call b] \<and> p_stop (mp s') = p_stop (mp s))"

definition drop_step :: "mpool \<Rightarrow> mpool \<Rightarrow> bool" where
  "drop_step s s' \<longleftrightarrow> mp_blocks s' \<subseteq>\<^sub>m mp_blocks s \<and> mp_calls s' = mp_calls s \<and> mp_given s' = mp_given s \<and> p_stop (mp s')"

lemmas step_kinds = quiet_step_def call_step_def give_step_def drop_step_def

lemma with_pool_quiet:
  assumes "with_pool p s = Some (Inr s')" "\<And>a'. p = Some a' \<Longrightarrow> p_stop a' = p_stop (mp s)"
  shows "quiet_step s s'"
  using assms by (auto simp: with_pool_def quiet_step_def)

lemma worker_history:
  assumes "mem_worker bd i c s = Some (Inr s')"
  shows "quiet_step s s' \<or> call_step s s'"
proof -
  have i: "i < length (p_workers (mp s))"
    using assms by (simp add: mem_worker_def split: if_splits)
  consider t where "p_workers (mp s) ! i = WRun t" "mem_run bd i (of_nat t) s = Inr s'"
    | "mem_take bd i s = Inr s'"
    | "with_pool (pool_worker i c (mp s)) s = Some (Inr s')" "p_workers (mp s) ! i \<in> {WLock, WRelock, WDoneLock, WDone}"
    using assms i by (cases "p_workers (mp s) ! i") (auto simp: mem_worker_def split: if_splits)
  then show ?thesis
  proof cases
    case 1
    then have "call_step s s'"
      by (fastforce simp: mem_run_def free_task_def call_step_def block_call_def set_worker_def bindE_eq_Inr
          split: option.splits if_splits)
    then show ?thesis by blast
  next
    case 2
    then have "quiet_step s s'"
      by (auto simp: mem_take_def quiet_step_def set_worker_def unlock_def bindE_eq_Inr split: if_splits)
    then show ?thesis by blast
  next
    case 3
    have "quiet_step s s'"
      by (rule with_pool_quiet [OF 3(1)]) (use i 3(2) in \<open>auto simp: pool_defs split: if_splits\<close>)
    then show ?thesis by blast
  qed
qed

lemma client_history:
  assumes "mem_client bd i c s = Some (Inr s')" "p_clients (mp s) ! i \<noteq> CStop"
  shows "quiet_step s s'"
proof -
  have i: "i < length (p_clients (mp s))"
    using assms by (simp add: mem_client_def split: if_splits)
  consider t where "mem_submit bd i c (of_nat t) s = Some (Inr s')" | "mem_wait i s = Inr s'"
    | j where "mem_join i j s = Some (Inr s')"
    | "with_pool (client_step i c (mp s)) s = Some (Inr s')"
      "p_clients (mp s) ! i \<in> {CWaitLock, CWaitRelock, CStopSingle, CStopLock} \<union> range CSubmitLock"
    using assms i by (cases "p_clients (mp s) ! i") (auto simp: mem_client_def split: if_splits)
  then show ?thesis
  proof cases
    case 4
    show ?thesis
      by (rule with_pool_quiet [OF 4(1)]) (use i 4(2) in \<open>auto simp: pool_defs split: if_splits\<close>)
  qed (auto simp: mem_submit_def mem_wait_def mem_join_def quiet_step_def pool_defs bindE_eq_Inr split: if_splits)
qed

lemma other_history:
  "mem_call bd i op s = Some (Inr s') \<Longrightarrow> quiet_step s s' \<or> give_step s s'"
  "with_pool (spurious_worker i (mp s)) s = Some (Inr s') \<Longrightarrow> quiet_step s s'"
  "with_pool (spurious_client i (mp s)) s = Some (Inr s') \<Longrightarrow> quiet_step s s'"
proof -
  assume call: "mem_call bd i op s = Some (Inr s')"
  show "quiet_step s s' \<or> give_step s s'"
  proof (cases op)
    case (MSubmit t junk fn arg)
    have "mp_blocks s t = None" "mp_blocks s' = (mp_blocks s)(t \<mapsto> \<lparr>t_fn = fn, t_refcon = arg\<rparr>)"
      "mp_calls s' = mp_calls s" "mp_given s' = mp_given s @ [(fn, arg)]" "p_stop (mp s') = p_stop (mp s)"
      using call MSubmit by (auto simp: mem_call_def pool_defs bindE_eq_Inr split: if_splits)
    then have "give_step s s'"
      unfolding give_step_def
      by (intro exI [of _ t] exI [of _ "\<lparr>t_fn = fn, t_refcon = arg\<rparr>"]) (simp add: block_call_def)
    then show ?thesis by blast
  qed (use call in \<open>auto simp: mem_call_def with_pool_def pool_defs quiet_step_def split: if_splits\<close>)
qed (auto simp: with_pool_def pool_defs quiet_step_def split: if_splits)

lemma next_accounted:
  assumes rep: "pool_rep s a" and acc: "accounted s" and st: "mem_next bd act s = Some s'"
  shows "accounted s'"
proof -
  have ex: "mem_exec bd act s = Some (Inr s')"
    using st by (auto simp: mem_next_def split: if_splits option.splits sum.splits)
  have fin: "finite (dom (mp_blocks s))"
    by (rule blocks_repD(1) [OF pool_repD(2) [OF rep]])
  have "quiet_step s s' \<or> call_step s s' \<or> give_step s s' \<or> drop_step s s'"
  proof (cases act)
    case (MClientStep i c)
    show ?thesis
    proof (cases "p_clients (mp s) ! i = CStop")
      case True
      have i: "i < length (p_clients a)" "p_clients a ! i = CStop" "p_live a"
        using ex MClientStep True pool_repD(1) [OF rep] by (auto simp: mem_client_def split: if_splits)
      have "mem_stop bd i s = Some (Inr s')"
        using ex MClientStep True i pool_repD(1) [OF rep] by (simp add: mem_client_def)
      then show ?thesis
        using stop_frees [OF rep i(3,1,2), of bd] by (auto simp: drop_step_def)
    qed (use ex MClientStep client_history in auto)
  qed (use ex worker_history other_history in \<open>auto, blast+\<close>)
  then consider "quiet_step s s'" | "call_step s s'" | "give_step s s'" | "drop_step s s'"
    by blast
  then show ?thesis
  proof cases
    case 1
    then show ?thesis
      using acc by (simp add: quiet_step_def accounted_def held_calls_def)
  next
    case 2
    then obtain t b where t: "mp_blocks s t = Some b" "mp_blocks s' = (mp_blocks s)(t := None)"
      "mp_calls s' = mp_calls s @ [block_call b]" "mp_given s' = mp_given s" "p_stop (mp s') = p_stop (mp s)"
      by (auto simp: call_step_def)
    then show ?thesis
      using acc held_calls_remove [OF fin t(1,2)] by (simp add: accounted_def)
  next
    case 3
    then obtain t b where t: "mp_blocks s t = None" "mp_blocks s' = (mp_blocks s)(t \<mapsto> b)"
      "mp_calls s' = mp_calls s" "mp_given s' = mp_given s @ [block_call b]" "p_stop (mp s') = p_stop (mp s)"
      by (auto simp: give_step_def)
    then show ?thesis
      using acc held_calls_add [OF fin t(1,2)] by (simp add: accounted_def)
  next
    case 4
    then have "held_calls s' \<subseteq># held_calls s"
      by (intro held_calls_submap [OF fin]) (simp add: drop_step_def)
    then have "mset (mp_calls s) + held_calls s' \<subseteq># mset (mp_given s)"
      using acc subset_mset.add_left_mono subset_mset.order_trans unfolding accounted_def by blast
    then show ?thesis
      using 4 by (simp add: drop_step_def accounted_def)
  qed
qed

lemma reach_accounted:
  assumes "reach (mem_next bd) s0 s" "pool_rep s0 (started n k)" "n < 256" "accounted s0"
  shows "accounted s"
  using assms
proof (induction rule: reach.induct)
  case (step s act s')
  then obtain a where "pool_rep s a"
    using reach_rep [OF step.hyps(1)] by blast
  with step next_accounted show ?case by blast
qed simp

section \<open>One client\<close>

text \<open>A single client is inside the stop until the pool is freed, and then outside.\<close>

definition lone :: "pool \<Rightarrow> bool" where
  "lone s \<longleftrightarrow> (\<exists>c. p_clients s = [c] \<and> (p_stop s \<longrightarrow> p_tasks s = [] \<and>
     (if p_live s then \<exists>j. c = CJoin j else c \<in> {CIdle, CStopSingle})))"

interpretation lone_inv: invariant exec "started n 1" lone for n
proof
  show "lone (started n 1)"
    by (simp add: lone_def started_eq)
  fix s a s' assume r: "reach exec (started n 1) s" and inv: "lone s" and ex: "exec a s = Some s'"
  have "\<not> p_stop s \<Longrightarrow> p_live s" "\<And>j. \<not> p_stop s \<Longrightarrow> CJoin j \<notin> set (p_clients s)"
    using running_inv.holds [OF r] by (auto simp: running_pool_def)
  with inv ex show "lone s'"
    by (cases a) (auto simp: lone_def pool_defs signal_def split: pool_splits option.splits)
qed

lemma lone_outside:
  assumes "reach exec (started n 1) a" "\<not> p_live a" "i < length (p_clients a)"
  shows "p_clients a ! i \<in> outside"
proof -
  have "p_stop a"
    using running_inv.holds [OF assms(1)] assms(2) by (auto simp: running_pool_def)
  then show ?thesis
    using lone_inv.holds [OF assms(1)] assms(2,3) by (auto simp: lone_def outside_def)
qed

lemma lone_step:
  assumes "pool_rep s a" "reach exec (started n 1) a" "n < 256" "proper act" "allocates act s"
  shows "simulates (mem_exec bd act s) (exec (pool_action act) a)"
  by (rule reachable_step [OF assms]) (rule lone_outside [OF assms(2)])

fun mem_internal :: "mem_action \<Rightarrow> bool" where
  "mem_internal (MWorkerStep i c) = True"
| "mem_internal (MClientStep i c) = True"
| "mem_internal a = False"

definition mem_at_rest :: "build \<Rightarrow> mpool \<Rightarrow> bool" where
  "mem_at_rest bd s \<longleftrightarrow> (\<forall>act. mem_internal act \<longrightarrow> mem_exec bd act s = None)"

lemma internal_action:
  "internal act \<Longrightarrow> \<exists>mact. pool_action mact = act \<and> mem_internal mact"
  by (cases act) (metis pool_action.simps(1,2) mem_internal.simps(1,2) internal.simps(3-))+

lemma mem_internal_ok: "mem_internal act \<Longrightarrow> proper act \<and> allocates act s \<and> internal (pool_action act)"
  by (cases act) auto

lemma rest_agrees:
  assumes "pool_rep s a" "reach exec (started n 1) a" "n < 256"
  shows "mem_at_rest bd s \<longleftrightarrow> at_rest a"
proof -
  have "mem_exec bd act s = None \<longleftrightarrow> exec (pool_action act) a = None" if "mem_internal act" for act
    using lone_step [OF assms, of act bd] mem_internal_ok [OF that]
    by (cases "mem_exec bd act s"; cases "exec (pool_action act) a") (auto simp: simulates_def)
  then show ?thesis
    using internal_action mem_internal_ok unfolding mem_at_rest_def at_rest_def by metis
qed

lemma lift_run:
  assumes "pool_rep s a" "reach exec (started n 1) a" "n < 256" "list_all internal as" "exec_all exec as a = Some a'"
  shows "\<exists>acts s'. list_all mem_internal acts \<and> exec_all (mem_next bd) acts s = Some s' \<and> pool_rep s' a'"
  using assms
proof (induction as arbitrary: s a)
  case Nil
  then show ?case
    by (intro exI [of _ "[]"]) simp
next
  case (Cons act as)
  obtain a1 where a1: "exec act a = Some a1" "exec_all exec as a1 = Some a'"
    using Cons.prems(5) by (auto simp: Option.bind_eq_Some_conv)
  obtain mact where m: "pool_action mact = act" "mem_internal mact"
    using internal_action Cons.prems(4) by auto
  obtain s1 where s1: "mem_exec bd mact s = Some (Inr s1)" "pool_rep s1 a1"
    using lone_step [OF Cons.prems(1-3), of mact bd] mem_internal_ok [OF m(2)] m(1) a1(1)
    by (cases "mem_exec bd mact s") (auto simp: simulates_def)
  have "mem_next bd mact s = Some s1"
    using s1(1) mem_internal_ok [OF m(2)] by (simp add: mem_next_def)
  moreover obtain acts s' where "list_all mem_internal acts" "exec_all (mem_next bd) acts s1 = Some s'" "pool_rep s' a'"
    using Cons.IH [OF s1(2) reach.step [OF Cons.prems(2) a1(1)] Cons.prems(3) _ a1(2)] Cons.prems(4) by auto
  ultimately show ?case
    using m(2) by (intro exI [of _ "mact # acts"] exI [of _ s']) simp
qed

text \<open>Where a run comes to rest no task is held by anybody.\<close>

lemma sum_over_zero: "(\<And>p. p \<in> set ps \<Longrightarrow> f p = 0) \<Longrightarrow> sum_over f ps = 0"
  by (induction ps) auto

lemma rest_holds_nothing:
  assumes a: "reach exec (started n 1) a" "at_rest a" and n: "0 < n"
  shows "tasks_held a = {#}"
proof -
  note rest = rest_state [OF a]
  have "sum_over running (p_workers a) = {#}" "sum_over pending (p_clients a) = {#}"
    using rest(2,3) by (intro sum_over_zero; force)+
  moreover have "p_tasks a = []"
  proof (cases "p_stop a")
    case True
    then show ?thesis
      using lone_inv.holds [OF a(1)] by (auto simp: lone_def)
  next
    case False
    have "p_workers a \<noteq> []"
      using sizes_inv.holds [OF a(1)] n by (auto simp: sizes_def)
    then have "all_asleep (p_workers a)"
      using rest(4) [OF False] by (auto simp: all_asleep_def)
    then show ?thesis
      using awake_inv.holds [OF a(1)] by (auto simp: awake_def)
  qed
  ultimately show ?thesis
    by (simp add: tasks_held_def)
qed

section \<open>Concrete runs\<close>

definition ex_pool_mem :: lmem where
  "ex_pool_mem = \<lparr>nodes = [4104 \<mapsto> \<lparr>n_prev = 0, n_next = 0\<rparr>], hdrs = [4096 \<mapsto> \<lparr>l_size = 0, l_offset = 0\<rparr>]\<rparr>"

lemma ex_pool_storage: "pool_storage 4096 ex_pool_mem"
  by (simp add: pool_storage_def ex_pool_mem_def head_of_def)

text \<open>A submission, and the run of its task.\<close>

definition ex_mem_run :: "mem_action list" where
  "ex_mem_run =
     [MCall 0 (MSubmit 8192 \<lparr>n_prev = 0, n_next = 0\<rparr> 100 200), MClientStep 0 None, MClientStep 0 None,
      MWorkerStep 0 None, MWorkerStep 0 None, MWorkerStep 0 None, MWorkerStep 0 None, MWorkerStep 0 None,
      MWorkerStep 0 None, MWorkerStep 0 None]"

lemmas mem_run_defs = mem_start_def mem_next_def mem_call_def mem_client_def mem_worker_def mem_submit_def mem_take_def
  mem_run_def mem_stop_def mem_join_def with_pool_def pool_defs started_eq signal_def broadcast_def free_task_def
  unmap_node_def task_offset_def ex_pool_mem_def

lemmas list_run_defs = cclist_init_def cclist_insert_last_def cclist_do_insert_before_def cclist_first_def
  cclist_remove_first_def cclist_clear_def clear_loop.simps get_node_def get_ptr_def rd_next_def rd_prev_def wr_next_def
  wr_prev_def rd_size_def wr_size_def rd_offset_def wr_offset_def head_of_def

lemma ex_mem_ran:
  "\<exists>s0 s. mem_start Debug 4096 ex_pool_mem 1 1 = Inr s0 \<and> exec_all (mem_next Debug) ex_mem_run s0 = Some s \<and>
     mp_given s = [(100, 200)] \<and> \<not> p_stop (mp s) \<and> p_workers (mp s) = [WWait] \<and> p_clients (mp s) = [CIdle]"
  by (simp add: ex_mem_run_def mem_run_defs list_run_defs)

lemma asleep_at_rest:
  assumes "p_workers (mp s) = [WWait]" "p_clients (mp s) = [CIdle]"
  shows "mem_at_rest bd s"
proof -
  have "mem_worker bd i c s = None" "mem_client bd i c s = None" for i c
    using assms by (simp_all add: mem_worker_def mem_client_def)
  moreover have "\<exists>i c. act = MWorkerStep i c \<or> act = MClientStep i c" if "mem_internal act" for act
    using that by (cases act) auto
  ultimately show ?thesis
    unfolding mem_at_rest_def by (metis mem_exec.simps(1,2))
qed

lemma exec_all_reached: "exec_all f as s0 = Some s \<Longrightarrow> reach f s0 s"
  by (rule exec_all_reach [OF reach.start])

text \<open>One client stops the pool while another one submits.\<close>

definition ex_racing :: "mem_action list" where
  "ex_racing =
     [MCall 1 (MSubmit 8192 \<lparr>n_prev = 0, n_next = 0\<rparr> 100 200), MCall 0 MStop, MClientStep 0 None, MClientStep 0 None,
      MClientStep 0 None, MWorkerStep 0 None, MWorkerStep 0 None, MClientStep 0 None, MClientStep 0 None]"

lemma two_threads: "replicate 2 c = [c, c]"
  by (simp add: numeral_2_eq_2)

section \<open>Properties\<close>

text \<open>
  C10: The pool in memory refines the pool of sequences.  From any storage for it, in every
  interleaving of up to 255 workers and any number of clients, the memory represents a state the
  abstract pool reaches: its list is well-formed and holds the queue in order, the blocks allocated
  are exactly the tasks queued, running or about to be queued, each once; and as long as the pool is
  not freed no step of any thread follows a bad pointer, frees a block twice or fails an assertion.
\<close>

theorem pool_in_memory:
  assumes "pool_storage at m" "n < 256"
  shows "\<exists>s0. mem_start bd at m n k = Inr s0 \<and> (\<forall>s. reach (mem_next bd) s0 s \<longrightarrow>
    (\<exists>a. reach exec (started n k) a \<and> mp s = a\<lparr>p_tasks := [], h_dropped := []\<rparr> \<and>
       mset_set (unat ` dom (mp_blocks s)) =
         mset (p_tasks a) + sum_over running (p_workers a) + sum_over pending (p_clients a) \<and>
       (p_live a \<longrightarrow> wf_list (mp_list s) (mp_at s) task_offset (map of_nat (p_tasks a)))) \<and>
    (\<forall>act e. proper act \<longrightarrow> p_live (mp s) \<longrightarrow> mem_exec bd act s \<noteq> Some (Inl e)))"
proof -
  obtain s0 where s0: "mem_start bd at m n k = Inr s0" "pool_rep s0 (started n k)"
    using start_rep [OF assms(1), of bd n k] by blast
  have "(\<exists>a. reach exec (started n k) a \<and> mp s = strip a \<and> mset_set (unat ` dom (mp_blocks s)) = tasks_held a \<and>
       (p_live a \<longrightarrow> wf_list (mp_list s) (mp_at s) task_offset (map of_nat (p_tasks a)))) \<and>
    (\<forall>act e. proper act \<longrightarrow> p_live (mp s) \<longrightarrow> mem_exec bd act s \<noteq> Some (Inl e))" if r: "reach (mem_next bd) s0 s" for s
  proof -
    obtain a where a: "reach exec (started n k) a" "pool_rep s a"
      using reach_rep [OF r s0(2) assms(2)] by blast
    note d = pool_repD [OF a(2)]
    have "mem_exec bd act s \<noteq> Some (Inl e)" if "proper act" "p_live (mp s)" for act e
      using live_step [OF a(2) _ that(1), of bd] not_allocated [of act s bd] that(2) d(1)
      by (cases "allocates act s"; cases "exec (pool_action act) a") (auto simp: simulates_def)
    then show ?thesis
      using a(1) d blocks_repD(2) [OF d(2)] by blast
  qed
  then show ?thesis
    using s0(1) unfolding strip_def tasks_held_def by blast
qed

theorem pool_in_memory_witness:
  "\<exists>s0 s a. mem_start Debug 4096 ex_pool_mem 1 1 = Inr s0 \<and> exec_all (mem_next Debug) ex_mem_run s0 = Some s \<and>
     reach exec (started 1 1) a \<and> wf_list (mp_list s) 4096 task_offset (map of_nat (p_tasks a)) \<and>
     (\<forall>e. mem_exec Debug (MCall 0 MStop) s \<noteq> Some (Inl e))"
proof -
  obtain s0 s where s: "mem_start Debug 4096 ex_pool_mem 1 1 = Inr s0" "exec_all (mem_next Debug) ex_mem_run s0 = Some s"
    "p_live (mp s)" "mp_at s = 4096"
    by (simp add: ex_mem_run_def mem_run_defs list_run_defs)
  obtain s0' where "mem_start Debug 4096 ex_pool_mem 1 1 = Inr s0'" and all: "\<forall>s. reach (mem_next Debug) s0' s \<longrightarrow>
    (\<exists>a. reach exec (started 1 1) a \<and> mp s = a\<lparr>p_tasks := [], h_dropped := []\<rparr> \<and>
       mset_set (unat ` dom (mp_blocks s)) =
         mset (p_tasks a) + sum_over running (p_workers a) + sum_over pending (p_clients a) \<and>
       (p_live a \<longrightarrow> wf_list (mp_list s) (mp_at s) task_offset (map of_nat (p_tasks a)))) \<and>
    (\<forall>act e. proper act \<longrightarrow> p_live (mp s) \<longrightarrow> mem_exec Debug act s \<noteq> Some (Inl e))"
    using pool_in_memory [OF ex_pool_storage, of 1 Debug 1] by auto
  then have "reach (mem_next Debug) s0' s"
    using s(1,2) exec_all_reached by simp
  note this_run = all [rule_format, OF this]
  obtain a where "reach exec (started 1 1) a" "mp s = a\<lparr>p_tasks := [], h_dropped := []\<rparr>"
    "p_live a \<longrightarrow> wf_list (mp_list s) (mp_at s) task_offset (map of_nat (p_tasks a))"
    using this_run [THEN conjunct1] by blast
  moreover have "mem_exec Debug (MCall 0 MStop) s \<noteq> Some (Inl e)" for e
    using this_run [THEN conjunct2, rule_format, of "MCall 0 MStop" e] s(3) by simp
  ultimately show ?thesis
    using s by auto
qed




end
