(* ===== verification/CC_ConfigLog.thy ===== *)
theory CC_ConfigLog
  imports CC_ConfigProps CC_Log CC_Format
begin

text \<open>
  What the configuration (src/cfg.c) writes to the log: the errors of the parser, the entries it lists
  when \<^verbatim>\<open>CC_DEBUG_CFG_LOAD\<close> is defined, and the warnings of the getters.  The operations
  here answer with the messages, in order; their state is that of CC_Config.
\<close>

section \<open>Messages\<close>

text \<open>A call of \<^verbatim>\<open>cc_log\<close>: the level, the function, the text.\<close>

type_synonym log_msg = "log_level \<times> byte list \<times> byte list"

definition CCERROR :: "string \<Rightarrow> byte list \<Rightarrow> log_msg" where
  "CCERROR func msg = (LOG_ERROR, bytes func, msg)"

definition CCWARN :: "string \<Rightarrow> byte list \<Rightarrow> log_msg" where
  "CCWARN func msg = (LOG_WARN, bytes func, msg)"

definition CCDEBUG :: "string \<Rightarrow> byte list \<Rightarrow> log_msg" where
  "CCDEBUG func msg = (LOG_DEBUG, bytes func, msg)"

definition quoted :: "byte list \<Rightarrow> byte list" where
  "quoted s = [96] @ s @ [96]"

text \<open>\<^verbatim>\<open>%f\<close> of a number.\<close>

definition print_f :: "fp \<Rightarrow> byte list" where
  "print_f x = (if (case x of Finite neg _ \<Rightarrow> neg | Infinite neg \<Rightarrow> neg | NaN \<Rightarrow> False) then [45] else []) @ print_fixed 0 6 x"

section \<open>The parser\<close>

definition log_number :: "buf \<Rightarrow> buf \<Rightarrow> log_msg list res" where
  "log_number key value =
     bindE (rd value 0) (\<lambda>c.
     bindE (rd (if c = 45 \<or> c = 43 then tl value else value) 0) (\<lambda>c.
     if \<not> isdigit c \<and> c \<noteq> 46 then
       bindE (read_str key) (\<lambda>k.
       Inr [CCERROR ''parse_number'' (bytes ''invalid configuration: missing number for key '' @ quoted k)])
     else Inr []))"

definition log_string :: "buf \<Rightarrow> buf \<Rightarrow> byte \<Rightarrow> log_msg list res" where
  "log_string key value delim =
     bindE (scan_string delim (tl value)) (\<lambda>r.
     case r of
       None \<Rightarrow>
         bindE (read_str key) (\<lambda>k.
         Inr [CCERROR ''parse_string'' (bytes ''invalid configuration: missing closing quote for key '' @ quoted k)])
     | Some _ \<Rightarrow> Inr [])"

definition log_value :: "buf \<Rightarrow> buf \<Rightarrow> log_msg list res" where
  "log_value key value =
     bindE (rd value 0) (\<lambda>c.
     if c = 46 \<or> c = 43 \<or> c = 45 \<or> isdigit c then log_number key value
     else if c = 116 \<or> c = 102 then Inr []
     else if c = 39 \<or> c = 34 then log_string key value c
     else bindE (read_str key) (\<lambda>k.
       if c = 0 then
         Inr [CCERROR ''parse_value'' (bytes ''invalid configuration: missing value for key '' @ quoted k)]
       else bindE (read_str value) (\<lambda>v.
         Inr [CCERROR ''parse_value''
                (bytes ''invalid configuration: '' @ quoted v @ bytes '' is not a valid value for key '' @ quoted k)])))"

text \<open>The texts of the four kinds; in a release build \<^verbatim>\<open>CCDEBUG\<close> is empty.\<close>

definition entry_text :: "cfg_fields \<Rightarrow> byte list res" where
  "entry_text fs =
     (case f_kind fs of
        CFG_NIL \<Rightarrow> Inr (bytes ''<nil>'')
      | CFG_STR \<Rightarrow> (case f_str fs of None \<Rightarrow> Inl BadDeref | Some s \<Rightarrow> bindE (read_str s) (\<lambda>s. Inr (quoted s)))
      | CFG_BOOL \<Rightarrow> Inr (bytes (if f_b fs then ''true'' else ''false''))
      | CFG_NUM \<Rightarrow> Inr (print_f (f_f64 fs)))"

definition debug_entry :: "build \<Rightarrow> cc_cfg_entry \<Rightarrow> log_msg list res" where
  "debug_entry bd entry =
     (case e_fields entry of
        None \<Rightarrow> Inl Uninit
      | Some fs \<Rightarrow>
          if bd = NDebug then Inr []
          else
            bindE (read_str (e_key entry)) (\<lambda>k.
            bindE (entry_text fs) (\<lambda>v.
            Inr [CCDEBUG ''debug_entry'' (bytes ''('' @ k @ bytes '': '' @ v @ bytes '')'')])))"

text \<open>The messages of a line; \<^term>\<open>dbg\<close> is \<^verbatim>\<open>CC_DEBUG_CFG_LOAD\<close>.\<close>

definition log_line :: "bool \<Rightarrow> build \<Rightarrow> cc_cfg \<Rightarrow> buf \<Rightarrow> log_msg list res" where
  "log_line dbg bd cfg line =
     bindE (split_at_sep line) (\<lambda>r.
     case r of
       None \<Rightarrow> Inr [CCERROR ''parse'' (bytes ''invalid configuration file: missing '' @ [39, 58, 39])]
     | Some (key, value) \<Rightarrow>
         bindE (trim value) (\<lambda>value.
         bindE (find_entry_or_add bd cfg key) (\<lambda>(cfg, i).
         bindE (entry_at cfg i) (\<lambda>entry.
         bindE (log_value (e_key entry) value) (\<lambda>msgs.
         bindE (parse_value bd value) (\<lambda>(value, fields).
         case fields of
           None \<Rightarrow> Inr msgs
         | Some fs \<Rightarrow>
             bindE (trim value) (\<lambda>value.
             bindE (read_str value) (\<lambda>text.
             bindE (line_is_comment value (of_nat (length text))) (\<lambda>comment.
             if text \<noteq> [] \<and> \<not> comment then
               bindE (read_str key) (\<lambda>k.
               Inr (msgs @ [CCERROR ''parse''
                 (bytes ''invalid configuration file: additional text found for key '' @ quoted k)]))
             else if dbg then
               bindE (debug_entry bd (entry\<lparr>e_fields := Some fs\<rparr>)) (\<lambda>d. Inr (msgs @ d))
             else Inr msgs)))))))))"

function log_loop :: "bool \<Rightarrow> build \<Rightarrow> reader \<Rightarrow> cc_cfg \<Rightarrow> log_msg list res" where
  "log_loop dbg bd r cfg =
     (if r_eof r then Inr []
      else case read_line r 0 of
        Inl e \<Rightarrow> Inl e
      | Inr (r, sz) \<Rightarrow>
          if sz = 0 then log_loop dbg bd r cfg
          else bindE (line_is_comment (r_line r) sz) (\<lambda>comment.
            if comment then log_loop dbg bd r cfg
            else bindE (log_line dbg bd cfg (r_line r)) (\<lambda>msgs.
              case parse_line bd cfg (r_line r) of
                Inl e \<Rightarrow> Inl e
              | Inr (cfg, ok) \<Rightarrow>
                  if ok then bindE (log_loop dbg bd r cfg) (\<lambda>more. Inr (msgs @ more)) else Inr msgs)))"
  by auto
termination
  by (relation "measure (\<lambda>(dbg, bd, r, cfg). if r_eof r then 0 else Suc (length (r_rest r)))")
    (auto dest: read_line_consumes)

declare log_loop.simps [simp del]

text \<open>The messages of loading a file from empty.\<close>

definition load_log :: "bool \<Rightarrow> build \<Rightarrow> byte list \<Rightarrow> log_msg list res" where
  "load_log dbg bd file =
     log_loop dbg bd \<lparr>r_rest = file, r_eof = False, r_line = [], r_capacity = 0\<rparr>
       \<lparr>c_count = 0, c_capacity = 0, c_entries = []\<rparr>"

section \<open>The getters\<close>

definition find_entry_log :: "cc_cfg \<Rightarrow> buf \<Rightarrow> log_msg list res" where
  "find_entry_log cfg key =
     bindE (find_from cfg key 0) (\<lambda>r.
     case r of
       Some i \<Rightarrow> Inr []
     | None \<Rightarrow> bindE (read_str key) (\<lambda>k. Inr [CCWARN ''find_entry'' (bytes ''No entry for key '' @ quoted k)]))"

definition getter_log :: "cc_cfg \<Rightarrow> byte list \<Rightarrow> log_msg list res" where
  "getter_log cfg s = find_entry_log cfg (format_key s)"

section \<open>What is printed\<close>

fun print_msg :: "log_settings \<Rightarrow> log_msg \<Rightarrow> print_call list" where
  "print_msg st (level, func, msg) = (case cc_log st level func msg of None \<Rightarrow> [] | Some calls \<Rightarrow> calls)"

definition printed_log :: "log_settings \<Rightarrow> log_msg list \<Rightarrow> print_call list" where
  "printed_log st msgs = concat (map (print_msg st) msgs)"

end
