(* ===== verification/CC_ConfigLogProps.thy ===== *)
theory CC_ConfigLogProps
  imports CC_ConfigLog
begin

text \<open>
  What the messages of CC_ConfigLog say: a specification of them on byte lists, line by line, proved of
  the parser, and what follows for files of settings and for files with an error.
\<close>

section \<open>Messages of a line\<close>

text \<open>The error of a value that is not accepted: a word that starts like a boolean has none.\<close>

definition value_error :: "byte list \<Rightarrow> byte list \<Rightarrow> log_msg list" where
  "value_error k v =
     (case v of
        [] \<Rightarrow> [CCERROR ''parse_value'' (bytes ''invalid configuration: missing value for key '' @ quoted k)]
      | c # _ \<Rightarrow>
          if c = 46 \<or> c = 43 \<or> c = 45 \<or> isdigit c then
            [CCERROR ''parse_number'' (bytes ''invalid configuration: missing number for key '' @ quoted k)]
          else if c = 116 \<or> c = 102 then []
          else if c = 39 \<or> c = 34 then
            [CCERROR ''parse_string'' (bytes ''invalid configuration: missing closing quote for key '' @ quoted k)]
          else
            [CCERROR ''parse_value''
               (bytes ''invalid configuration: '' @ quoted v @ bytes '' is not a valid value for key '' @ quoted k)])"

definition line_value :: "byte list \<Rightarrow> byte list" where
  "line_value s = dropWhile isspace (behind 58 s)"

lemma line_value_cstr: "is_cstr s \<Longrightarrow> is_cstr (line_value s)"
  using parts_cstr(2) [of s 58] by (auto simp: line_value_def is_cstr_def dest: set_dropWhileD)

text \<open>The error of a line that is not accepted.\<close>

definition line_errors :: "byte list \<Rightarrow> log_msg list" where
  "line_errors s =
     (if 58 \<notin> set s then [CCERROR ''parse'' (bytes ''invalid configuration file: missing '' @ [39, 58, 39])]
      else if value_spec (line_value s) = Inr None then value_error (before 58 s) (line_value s)
      else [CCERROR ''parse'' (bytes ''invalid configuration file: additional text found for key '' @ quoted (before 58 s))])"

definition line_report :: "bool \<Rightarrow> byte list \<Rightarrow> (log_msg list \<times> bool) res" where
  "line_report dbg s =
     (if 58 \<notin> set s then Inr (line_errors s, False)
      else
        bindE (value_spec (line_value s)) (\<lambda>v.
        case v of
          None \<Rightarrow> Inr (line_errors s, False)
        | Some (rest, fs) \<Rightarrow>
            if \<not> is_comment (dropWhile isspace rest) then Inr (line_errors s, False)
            else if dbg then bindE (debug_entry Debug (entry_of (before 58 s, Some fs))) (\<lambda>d. Inr (d, True))
            else Inr ([], True)))"

lemma line_errors_single: "length (line_errors s) \<le> 1"
  by (auto simp: line_errors_def value_error_def split: list.split)

lemma line_errors_none:
  "line_errors s = [] \<longleftrightarrow> 58 \<in> set s \<and> value_spec (line_value s) = Inr None \<and>
     (\<exists>c t. line_value s = c # t \<and> (c = 116 \<or> c = 102))"
  by (auto simp: line_errors_def value_error_def isdigit_def split: list.split)

lemma line_errors_level: "m \<in> set (line_errors s) \<Longrightarrow> fst m = LOG_ERROR"
  by (auto simp: line_errors_def value_error_def CCERROR_def split: list.splits if_splits)

lemma log_number_spec:
  assumes "read_str b = Inr (c # t)" "c = 46 \<or> c = 43 \<or> c = 45 \<or> isdigit c" "read_str key = Inr k"
  shows "log_number key b =
    Inr (if number_spec (c # t) = Inr None
         then [CCERROR ''parse_number'' (bytes ''invalid configuration: missing number for key '' @ quoted k)] else [])"
proof -
  have "rd (tl b) 0 = Inr (case t of [] \<Rightarrow> 0 | d # _ \<Rightarrow> d)"
    using read_str_rd [OF read_str_tl [OF assms(1)]] .
  then show ?thesis
    using read_str_rd [OF assms(1)] assms(2,3)
    by (cases t) (auto simp: log_number_def number_spec_def scan_sign_def Let_def bindE_eq_Inr isdigit_def)
qed

lemma log_string_spec:
  assumes "read_str b = Inr (c # t)" "c = 39 \<or> c = 34" "read_str key = Inr k"
  shows "log_string key b c =
    Inr (if c \<in> set t then []
         else [CCERROR ''parse_string'' (bytes ''invalid configuration: missing closing quote for key '' @ quoted k)])"
  using scan_string_spec [OF read_str_tl [OF assms(1)], of c] assms(2,3)
  by (auto simp: log_string_def)

lemma log_value_spec:
  assumes "read_str b = Inr v" "read_str key = Inr k"
  shows "log_value key b = Inr (if value_spec v = Inr None then value_error k v else [])"
proof (cases v)
  case Nil
  then show ?thesis
    using read_str_rd [OF assms(1)] assms(2)
    by (simp add: log_value_def value_spec_def value_error_def isdigit_def)
next
  case (Cons c t)
  then have b: "read_str b = Inr (c # t)" and rd: "rd b 0 = Inr c" and nz: "c \<noteq> 0"
    using assms(1) read_str_rd [OF assms(1)] read_str_cstr [OF assms(1)] by (auto simp: is_cstr_def)
  show ?thesis
    using log_number_spec [OF b _ assms(2)] log_string_spec [OF b _ assms(2)] assms nz
    by (auto simp: log_value_def rd value_spec_def value_error_def Cons)
qed

lemma value_spec_text:
  assumes "is_cstr v" "value_spec v = Inr (Some (rest, fs))"
  shows "\<exists>t. entry_text fs = Inr t"
  using assms parts_cstr
  by (auto simp: entry_text_def value_spec_def number_spec_def number_fields_def str_fields_def bool_fields_def Let_def
      bindE_eq_Inr is_cstr_def split: list.splits if_splits)

lemma debug_entry_finished:
  assumes "is_cstr k" "entry_text fs = Inr t"
  shows "debug_entry bd (entry_of (k, Some fs)) =
    Inr (if bd = Debug then [CCDEBUG ''debug_entry'' (bytes ''('' @ k @ bytes '': '' @ t @ bytes '')'')] else [])"
  using assms by (cases bd) (simp_all add: debug_entry_def entry_of_def)

text \<open>The report of a line fails where its meaning does, and accepts it when the parser does.\<close>

lemma line_report_spec:
  assumes "is_cstr s"
  shows "case line_spec es s of
      Inl e \<Rightarrow> line_report dbg s = Inl e
    | Inr (es', ok) \<Rightarrow> \<exists>msgs. line_report dbg s = Inr (msgs, ok) \<and>
        filter (\<lambda>m. fst m = LOG_ERROR) msgs = (if ok then [] else line_errors s)"
proof -
  have err: "filter (\<lambda>m. fst m = LOG_ERROR) (line_errors s) = line_errors s"
    using line_errors_level by (simp add: filter_id_conv)
  show ?thesis
  proof (cases "58 \<in> set s \<and> (\<exists>rest fs. value_spec (line_value s) = Inr (Some (rest, fs)))")
    case False
    then have "value_spec (line_value s) = Inr None \<or> (\<exists>e. value_spec (line_value s) = Inl e) \<or> 58 \<notin> set s"
      by (metis option.exhaust sum.exhaust prod.exhaust)
    then show ?thesis
      using err by (auto simp: line_spec_def line_report_def line_value_def Let_def)
  next
    case True
    then obtain rest fs where v: "58 \<in> set s" "value_spec (line_value s) = Inr (Some (rest, fs))" by blast
    have "is_cstr (line_value s)" "is_cstr (before 58 s)"
      by (rule line_value_cstr [OF assms], rule parts_cstr(1) [OF assms])
    then obtain t where "debug_entry Debug (entry_of (before 58 s, Some fs)) = Inr [CCDEBUG ''debug_entry'' t]"
      using value_spec_text [OF _ v(2)] debug_entry_finished by fastforce
    then show ?thesis
      using v err by (auto simp: line_spec_def line_report_def line_value_def Let_def CCDEBUG_def LOG_DEBUG_def LOG_ERROR_def)
  qed
qed

lemma log_line_spec:
  assumes rep: "represents cfg es" and line: "read_str b = Inr s"
    and small: "length s < 2 ^ 56" "length es + 1 < 2 ^ 56"
  shows "log_line dbg bd cfg b = bindE (line_report (dbg \<and> bd = Debug) s) (\<lambda>(msgs, ok). Inr msgs)"
proof (cases "58 \<in> set s")
  case False
  then show ?thesis
    using split_at_sep_spec [OF line] by (simp add: log_line_def line_report_def line_errors_def)
next
  case True
  define k where "k = before 58 s"
  define v where "v = line_value s"
  obtain b1 b2 cfg1 n where b1: "split_at_sep b = Inr (Some (cbuf k, b1))" "trim b1 = Inr b2" "read_str b2 = Inr v"
    and add: "find_entry_or_add bd cfg (cbuf k) = Inr (cfg1, of_nat n)" "represents cfg1 (ensure_key es k)"
      "n < length (ensure_key es k)" "fst (ensure_key es k ! n) = k"
    and val: "implements (parse_value bd b2) (value_spec v)"
    using line_parts [OF rep line True small, of bd] unfolding k_def v_def line_value_def by blast
  have cstr: "is_cstr k" "is_cstr v"
    using read_str_cstr [OF line] read_str_cstr [OF b1(3)] parts_cstr by (auto simp: k_def)
  then have key: "read_str (cbuf k) = Inr k" by simp
  let ?e = "entry_of (ensure_key es k ! n)"
  have e: "e_key ?e = cbuf k" "?e\<lparr>e_fields := Some fs\<rparr> = entry_of (k, Some fs)" for fs
    using add(4) by (simp_all add: entry_of_def)
  note code = log_line_def b1(1,2) add(1) represents_entry [OF add(2,3)] e(1) log_value_spec [OF b1(3) key]
  note spec = line_report_def line_errors_def k_def [symmetric] v_def [symmetric]
  consider er where "value_spec v = Inl er" | "value_spec v = Inr None" | rest fs where "value_spec v = Inr (Some (rest, fs))"
    by (metis option.exhaust sum.exhaust prod.exhaust)
  then show ?thesis
  proof cases
    case 1
    then show ?thesis
      using val True by (simp add: code spec implements_def)
  next
    case 2
    then obtain b3 where "parse_value bd b2 = Inr (b3, None)"
      using val by (auto simp: implements_def)
    then show ?thesis
      using 2 True by (simp add: code spec)
  next
    case (3 rest fs)
    obtain b3 where b3: "parse_value bd b2 = Inr (b3, Some fs)" "read_str b3 = Inr rest"
      using val 3 by (auto simp: implements_def)
    have "length rest < 2 ^ 64"
      using value_spec_length [OF 3] length_value [of s] small(1) by (simp add: v_def line_value_def)
    then obtain b4 where b4: "trim b3 = Inr b4" "read_str b4 = Inr (dropWhile isspace rest)"
      "line_is_comment b4 (of_nat (length (dropWhile isspace rest))) = Inr (is_comment (dropWhile isspace rest))"
      using line_rest [OF b3(2)] by blast
    obtain t where t: "entry_text fs = Inr t"
      using value_spec_text [OF cstr(2) 3] by blast
    have nil: "is_comment []" by (simp add: is_comment_def)
    show ?thesis
      using b3 b4 3 True key nil
      by (cases "is_comment (dropWhile isspace rest)")
        (auto simp: code spec e(2) debug_entry_finished [OF cstr(1) t] simp del: dropWhile_eq_Nil_conv)
  qed
qed

section \<open>Messages of a file\<close>

function file_report :: "bool \<Rightarrow> byte list \<Rightarrow> log_msg list res" where
  "file_report dbg file =
     (case line_of False file of
        (l, rest, eof) \<Rightarrow>
          bindE (if is_comment l then Inr ([], True) else line_report dbg (before 0 l)) (\<lambda>(msgs, ok).
          if \<not> ok \<or> eof then Inr msgs else bindE (file_report dbg rest) (\<lambda>more. Inr (msgs @ more))))"
  by auto
termination
  by (relation "measure (\<lambda>(dbg, file). length file)") (auto dest!: line_of_length [OF sym])

declare file_report.simps [simp del]

text \<open>The first line the parser does not accept, without its NUL bytes and what follows them.\<close>

definition accepted :: "byte list \<Rightarrow> bool" where
  "accepted s = (case line_spec [] s of Inl e \<Rightarrow> False | Inr (es, ok) \<Rightarrow> ok)"

function rejected_line :: "byte list \<Rightarrow> byte list option" where
  "rejected_line file =
     (case line_of False file of
        (l, rest, eof) \<Rightarrow>
          if \<not> is_comment l \<and> \<not> accepted (before 0 l) then Some (before 0 l)
          else if eof then None
          else rejected_line rest)"
  by auto
termination
  by (relation "measure length") (auto dest!: line_of_length [OF sym])

declare rejected_line.simps [simp del]

lemma bindE_Inr_id [simp]: "bindE r Inr = r"
  by (cases r) simp_all

lemma line_spec_accepted: "line_spec es s = Inr (es', ok) \<Longrightarrow> accepted s = ok"
  by (auto simp: accepted_def line_spec_def Let_def bindE_eq_Inr split: if_splits option.splits)

lemma is_cstr_before_nul: "is_cstr (before 0 l)"
  by (induction l) (auto simp: is_cstr_def)

lemma log_loop_spec:
  assumes "reading N r []" "N < 2 ^ 55" "\<not> r_eof r" "represents cfg es" "length es + length (r_rest r) < 2 ^ 55"
  shows "log_loop dbg bd r cfg = file_report (dbg \<and> bd = Debug) (r_rest r)"
  using assms(1,3-5)
proof (induction "length (r_rest r)" arbitrary: r cfg es rule: less_induct)
  case less
  obtain l rest eof where l: "line_of False (r_rest r) = (l, rest, eof)"
    by (cases "line_of False (r_rest r)")
  obtain r' where r': "read_line r 0 = Inr (r', of_nat (length l))" "reading N r' []" "r_rest r' = rest" "r_eof r' = eof"
    "(of_nat (length l) :: size_t) = 0 \<longleftrightarrow> l = []" "line_is_comment (r_line r') (of_nat (length l)) = Inr (is_comment l)"
    and str: "\<not> is_comment l \<longrightarrow> read_str (r_line r') = Inr (before 0 l)"
    using next_line [OF less.prems(1) assms(2) less.prems(2) l] by blast
  note len = line_of_length [OF l]
  have rest: "log_loop dbg bd r' cfg1 = (if eof then Inr [] else file_report (dbg \<and> bd = Debug) rest)"
    if "represents cfg1 es1" "length es1 + length rest < 2 ^ 55" for cfg1 es1
    using less.hyps [of r' cfg1 es1] that r'(2-4) len by (auto simp: log_loop.simps [of dbg bd r'])
  note report = file_report.simps [of _ "r_rest r", unfolded l, simplified]
  have loop: "log_loop dbg bd r cfg =
      (if is_comment l then log_loop dbg bd r' cfg
       else bindE (log_line dbg bd cfg (r_line r')) (\<lambda>msgs.
         case parse_line bd cfg (r_line r') of
           Inl e \<Rightarrow> Inl e
         | Inr (cfg, ok) \<Rightarrow>
             if ok then bindE (log_loop dbg bd r' cfg) (\<lambda>more. Inr (msgs @ more)) else Inr msgs))"
    using less.prems(2) r'(1,5,6) by (subst log_loop.simps) (auto simp: is_comment_def)
  show ?case
  proof (cases "is_comment l")
    case True
    then show ?thesis
      using rest [OF less.prems(3)] len less.prems(4) by (simp add: report loop)
  next
    case False
    then have "l \<noteq> []" by (auto simp: is_comment_def)
    have small: "length (before 0 l) < 2 ^ 56" "length es + 1 < 2 ^ 56"
      using length_before [of 0 l] len less.prems(4) by simp_all
    note line = log_line_spec [OF less.prems(3) str [rule_format, OF False] small, of dbg bd]
    note step = parse_line_spec [OF less.prems(3) str [rule_format, OF False] small, of bd]
    note agree = line_report_spec [OF is_cstr_before_nul, where es = es and l1 = l and dbg = "dbg \<and> bd = Debug"]
    show ?thesis
    proof (cases "line_spec es (before 0 l)")
      case (Inl e)
      then show ?thesis
        using agree False \<open>l \<noteq> []\<close> by (simp add: report loop line)
    next
      case (Inr q)
      obtain es1 ok where q: "q = (es1, ok)" by (cases q)
      obtain msgs where msgs: "line_report (dbg \<and> bd = Debug) (before 0 l) = Inr (msgs, ok)"
        using agree Inr q by auto
      obtain cfg1 where cfg1: "parse_line bd cfg (r_line r') = Inr (cfg1, ok)" "represents cfg1 es1"
        using step Inr q by auto
      have "length es1 + length rest < 2 ^ 55"
        using length_line_spec [of es "before 0 l" es1 ok] Inr q len less.prems(4) \<open>l \<noteq> []\<close>
        by (cases l) auto
      then show ?thesis
        using rest [OF cfg1(2)] cfg1(1) msgs False \<open>l \<noteq> []\<close> by (simp add: report loop line)
    qed
  qed
qed

lemma load_log_spec:
  assumes "length file < 2 ^ 55"
  shows "load_log dbg bd file = file_report (dbg \<and> bd = Debug) file"
proof -
  have "reading (length file) \<lparr>r_rest = file, r_eof = False, r_line = [], r_capacity = 0\<rparr> []"
    "represents \<lparr>c_count = 0, c_capacity = 0, c_entries = []\<rparr> []"
    by (simp_all add: reading_def represents_def)
  then show ?thesis
    using log_loop_spec assms unfolding load_log_def by fastforce
qed

lemma file_report_spec:
  "file_spec es bs = Inr (es', ok) \<Longrightarrow> \<exists>msgs. file_report dbg bs = Inr msgs \<and>
     filter (\<lambda>m. fst m = LOG_ERROR) msgs = (case rejected_line bs of None \<Rightarrow> [] | Some s \<Rightarrow> line_errors s) \<and>
     ok = (rejected_line bs = None)"
proof (induction es bs rule: file_spec.induct)
  case (1 es bs)
  obtain l rest eof where l: "line_of False bs = (l, rest, eof)"
    by (cases "line_of False bs")
  obtain es1 ok1 where line: "(if is_comment l then Inr (es, True) else line_spec es (before 0 l)) = Inr (es1, ok1)"
    and then_: "if \<not> ok1 \<or> eof then es' = es1 \<and> ok = ok1 else file_spec es1 rest = Inr (es', ok)"
    using "1.prems" l by (subst (asm) file_spec.simps) (auto split: sum.splits if_splits)
  obtain msgs where msgs: "(if is_comment l then Inr ([], True) else line_report dbg (before 0 l)) = Inr (msgs, ok1)"
    "filter (\<lambda>m. fst m = LOG_ERROR) msgs = (if ok1 then [] else line_errors (before 0 l))"
    using line line_report_spec [OF is_cstr_before_nul, where es = es and l1 = l and dbg = dbg] by (auto split: if_splits)
  have acc: "(\<not> is_comment l \<and> \<not> accepted (before 0 l)) = (\<not> ok1)"
    using line line_spec_accepted by (auto split: if_splits)
  have report: "file_report dbg bs =
      (if \<not> ok1 \<or> eof then Inr msgs else bindE (file_report dbg rest) (\<lambda>more. Inr (msgs @ more)))"
    by (subst file_report.simps) (simp add: l msgs(1))
  have rejected: "rejected_line bs = (if \<not> ok1 then Some (before 0 l) else if eof then None else rejected_line rest)"
    by (subst rejected_line.simps) (simp add: l acc)
  show ?case
    using then_ msgs(2) "1.IH" [OF l[symmetric] refl line refl] unfolding report rejected by (auto split: if_splits)
qed

section \<open>Files of settings\<close>

text \<open>The entry a setting is listed as.\<close>

fun setting_shown :: "setting \<Rightarrow> byte list" where
  "setting_shown (Str_setting s) = quoted s"
| "setting_shown (Num_setting neg ds) = (if neg then [45] else []) @ dec (digits_val 10 ds) @ bytes ''.000000''"
| "setting_shown (Bool_setting b) = bytes (if b then ''true'' else ''false'')"

definition setting_listed :: "byte list \<times> setting \<Rightarrow> log_msg" where
  "setting_listed kv = CCDEBUG ''debug_entry'' (bytes ''('' @ fst kv @ bytes '': '' @ setting_shown (snd kv) @ bytes '')'')"

lemma print_f_integer: "print_f (Finite neg (of_nat n)) = (if neg then [45] else []) @ dec n @ bytes ''.000000''"
proof -
  have "rne (of_nat n * 10 ^ 6) = int (n * 10 ^ 6)"
    using rne_of_int [of "int (n * 10 ^ 6)"] by simp
  then have n: "nat (rne (of_nat n * 10 ^ 6)) = n * 10 ^ 6"
    by simp
  have d: "n * 10 ^ 6 div 10 ^ 6 = n" "n * 10 ^ 6 mod 10 ^ 6 = 0"
    by simp_all
  have "pad 6 48 (dec 0) = bytes ''000000''"
    by (simp add: pad_def dec_small bytes_def eval_nat_numeral)
  then show ?thesis
    unfolding print_f_def print_fixed_def Let_def fp.case n d by (simp add: pad_def bytes_def)
qed

lemma setting_text_shown:
  assumes "valid_setting v"
  shows "entry_text (setting_fields v) = Inr (setting_shown v)"
proof (cases v)
  case (Str_setting s)
  then show ?thesis
    using assms by (simp add: entry_text_def str_fields_def is_cstr_def)
next
  case (Num_setting neg ds)
  then show ?thesis
    by (simp add: entry_text_def print_f_integer Let_def)
qed (simp add: entry_text_def bool_fields_def)

lemma setting_line_report:
  assumes "valid_key (fst kv)" "valid_setting (snd kv)"
  shows "line_report dbg (setting_line kv) = Inr (if dbg then [setting_listed kv] else [], True)"
proof -
  have key: "58 \<notin> set (fst kv)" "is_cstr (fst kv)"
    using assms(1) by (auto simp: valid_key_def is_cstr_def)
  then have "before 58 (setting_line kv) = fst kv" "behind 58 (setting_line kv) = 32 # setting_text (snd kv)"
    "58 \<in> set (setting_line kv)"
    by (simp_all add: setting_line_def)
  then show ?thesis
    using setting_value [OF assms(2)] setting_text_start [OF valid_plain [OF assms(2)]]
      debug_entry_finished [OF key(2) setting_text_shown [OF assms(2)], of Debug]
    by (simp add: line_report_def line_value_def setting_listed_def is_comment_def del: dropWhile.simps(2))
qed

lemma config_text_report:
  assumes "\<forall>kv \<in> set kvs. valid_key (fst kv) \<and> valid_setting (snd kv)"
  shows "file_report dbg (config_text kvs @ rest) =
    bindE (file_report dbg rest) (\<lambda>more. Inr ((if dbg then map setting_listed kvs else []) @ more))"
  using assms
proof (induction kvs)
  case (Cons kv kvs)
  have unfold_text: "config_text (kv # kvs) @ rest = setting_line kv @ 10 # config_text kvs @ rest"
    by (simp add: config_text_def)
  note kv = setting_line_facts(1) [of kv "config_text kvs @ rest"] setting_line_facts(2,3) [of kv] valid_plain [of "snd kv"]
  have "file_report dbg (config_text (kv # kvs) @ rest) =
      bindE (file_report dbg (config_text kvs @ rest)) (\<lambda>more. Inr ((if dbg then [setting_listed kv] else []) @ more))"
    unfolding unfold_text using kv setting_line_report [of kv dbg] Cons.prems by (subst file_report.simps) simp
  with Cons show ?case by (simp add: bindE_assoc)
qed (simp add: config_text_def)

lemma file_report_empty: "file_report dbg [] = Inr []"
  by (subst file_report.simps) (simp add: is_comment_def)

lemma printed_settings:
  "printed_log st (map setting_listed kvs) =
    (if log_min_level st = LOG_DEBUG then
       concat (map (\<lambda>kv.
         [(log_printer st, snprintf 512 (bytes ''['' @ log_name st @ bytes '' debug] debug_entry(): '')),
          (log_printer st, snprintf 512 (bytes ''('' @ fst kv @ bytes '': '' @ setting_shown (snd kv) @ bytes '')'')),
          (log_printer st, [10])]) kvs)
     else [])"
proof -
  have "LOG_DEBUG < log_min_level st \<longleftrightarrow> log_min_level st \<noteq> LOG_DEBUG"
    by (simp add: LOG_DEBUG_def word_neq_0_conv)
  then show ?thesis
    by (induction kvs)
      (auto simp: printed_log_def setting_listed_def CCDEBUG_def cc_log_def level_string_def bytes_def)
qed

section \<open>Messages of a getter\<close>

text \<open>A getter warns of a key that has no entry, as cut to the size of its buffer, and of nothing else.\<close>

lemma getter_log_spec:
  assumes "represents cfg es" "is_cstr s"
  shows "getter_log cfg s =
    Inr (if take 255 s \<in> fst ` set es then []
         else [CCWARN ''find_entry'' (bytes ''No entry for key '' @ quoted (take 255 s))])"
proof -
  note find = find_from_spec [OF assms(1) read_format_key [OF assms(2)], of 0]
  show ?thesis
  proof (cases "take 255 s \<in> fst ` set es")
    case True
    then obtain n where "n < length es" "fst (es ! n) = take 255 s"
      by (auto simp: in_set_conv_nth)
    then show ?thesis
      using find(2) True by (auto simp: getter_log_def find_entry_log_def)
  next
    case False
    then show ?thesis
      using find(1) read_format_key [OF assms(2)] by (simp add: getter_log_def find_entry_log_def)
  qed
qed

section \<open>Properties\<close>

text \<open>
  C37: What loading a file tells the log.  Whatever the file, if it loads, there is at most one error,
  none when every line is accepted, and otherwise the one of the first line that is not, with its
  function, key and value; a line is rejected without any message exactly when its value starts with
  t or f and is no boolean.
\<close>

theorem cfg_load_reports_error:
  assumes "length bs < 2 ^ 55" "parse bd \<lparr>c_count = 0, c_capacity = 0, c_entries = []\<rparr> bs = Inr (cfg, ok)"
  shows "\<exists>msgs. load_log dbg bd bs = Inr msgs \<and>
    (let errors = filter (\<lambda>m. fst m = LOG_ERROR) msgs in
     length errors \<le> 1 \<and>
     (case rejected_line bs of
        None \<Rightarrow> ok \<and> errors = []
      | Some s \<Rightarrow> \<not> ok \<and> errors = line_errors s \<and>
          (errors = [] \<longleftrightarrow> 58 \<in> set s \<and> value_spec (line_value s) = Inr None \<and>
             (\<exists>c t. line_value s = c # t \<and> (c = 116 \<or> c = 102)))))"
proof -
  obtain es where "file_spec [] bs = Inr (es, ok)"
    using parse_spec [OF assms(1), of bd] assms(2) by (cases "file_spec [] bs") auto
  then obtain msgs where "file_report (dbg \<and> bd = Debug) bs = Inr msgs"
    "filter (\<lambda>m. fst m = LOG_ERROR) msgs = (case rejected_line bs of None \<Rightarrow> [] | Some s \<Rightarrow> line_errors s)"
    "ok = (rejected_line bs = None)"
    using file_report_spec by blast
  then show ?thesis
    using load_log_spec [OF assms(1), of dbg bd] line_errors_single line_errors_none
    by (auto simp: Let_def split: option.split)
qed

theorem cfg_load_reports_error_witness:
  "\<exists>msgs. load_log True Debug [107, 58, 63, 10] = Inr msgs \<and>
    filter (\<lambda>m. fst m = LOG_ERROR) msgs =
      [CCERROR ''parse_value'' (bytes ''invalid configuration: '' @ quoted [63] @ bytes '' is not a valid value for key '' @ quoted [107])]"
proof -
  let ?bs = "[107, 58, 63, 10] :: byte list"
  have line: "line_of False ?bs = ([107, 58, 63], [], False)"
    by (simp add: isspace_def)
  have spec: "line_spec [] [107, 58, 63] = Inr ([([107], None)], False)" "value_spec (line_value [107, 58, 63]) = Inr None"
    by (simp_all add: line_spec_def value_spec_def line_value_def ensure_key_def isspace_def isdigit_def)
  have bs: "file_spec [] ?bs = Inr ([([107], None)], False)"
    by (subst file_spec.simps) (simp add: spec(1) isspace_def is_comment_def)
  have "rejected_line ?bs = Some [107, 58, 63]"
    by (subst rejected_line.simps) (simp add: spec(1) isspace_def is_comment_def accepted_def)
  moreover from bs obtain cfg where "parse Debug \<lparr>c_count = 0, c_capacity = 0, c_entries = []\<rparr> ?bs = Inr (cfg, False)"
    using parse_spec [of ?bs Debug] by auto
  moreover have "line_errors [107, 58, 63] =
      [CCERROR ''parse_value'' (bytes ''invalid configuration: '' @ quoted [63] @ bytes '' is not a valid value for key '' @ quoted [107])]"
    using spec(2) by (simp add: line_errors_def value_error_def line_value_def isspace_def isdigit_def)
  ultimately show ?thesis
    using cfg_load_reports_error [of ?bs Debug _ False True] by (fastforce simp: Let_def)
qed

text \<open>
  C38: The messages of a file of settings: a debug build that lists its entries prints each of them
  once, in order, as the parser understood it, numbers with six decimals; any other build prints
  nothing.  Written to the log they are three calls of the printer each, cut to 511 bytes, as long
  as the level of the log lets debug messages through.
\<close>

theorem cfg_load_lists_settings:
  assumes "\<forall>kv \<in> set kvs. valid_key (fst kv) \<and> valid_setting (snd kv)" "length (config_text kvs) < 2 ^ 55"
  shows "\<exists>msgs. load_log dbg bd (config_text kvs) = Inr msgs \<and>
    msgs = (if dbg \<and> bd = Debug then map setting_listed kvs else []) \<and>
    printed_log st msgs =
      (if dbg \<and> bd = Debug \<and> log_min_level st = LOG_DEBUG then
         concat (map (\<lambda>kv.
           [(log_printer st, snprintf 512 (bytes ''['' @ log_name st @ bytes '' debug] debug_entry(): '')),
            (log_printer st, snprintf 512 (bytes ''('' @ fst kv @ bytes '': '' @ setting_shown (snd kv) @ bytes '')'')),
            (log_printer st, [10])]) kvs)
       else [])"
proof -
  have "load_log dbg bd (config_text kvs) = Inr (if dbg \<and> bd = Debug then map setting_listed kvs else [])"
    using load_log_spec [OF assms(2), of dbg bd] config_text_report [OF assms(1), of "dbg \<and> bd = Debug" "[]"]
    by (simp add: file_report_empty)
  moreover have "printed_log st [] = []"
    by (simp add: printed_log_def)
  ultimately show ?thesis
    by (simp add: printed_settings)
qed

theorem cfg_load_lists_settings_witness:
  "load_log True Debug (config_text [(bytes ''n'', Num_setting True (bytes ''42'')), (bytes ''b'', Bool_setting False)]) =
    Inr [CCDEBUG ''debug_entry'' (bytes ''(n: -42.000000)''), CCDEBUG ''debug_entry'' (bytes ''(b: false)'')]"
proof -
  let ?kvs = "[(bytes ''n'', Num_setting True (bytes ''42'')), (bytes ''b'', Bool_setting False)]"
  have "\<forall>kv \<in> set ?kvs. valid_key (fst kv) \<and> valid_setting (snd kv)" "length (config_text ?kvs) < 2 ^ 55"
    by (simp_all add: bytes_def valid_key_def is_comment_def isspace_def isdigit_def digits_val_def
        digit_val_def config_text_def setting_line_def)
  moreover have "dec 42 = [52, 50]"
    by (subst dec.simps) (simp add: dec_small)
  ultimately show ?thesis
    using cfg_load_lists_settings [of ?kvs True Debug]
    by (auto simp: setting_listed_def bytes_def digits_val_def digit_val_def isdigit_def)
qed

text \<open>
  A misspelt boolean is rejected in silence: the rest of the file is not read, the caller is given a
  configuration, and neither build writes a word about it.
\<close>

theorem cfg_bad_boolean_is_silent:
  assumes "\<forall>kv \<in> set kvs. valid_key (fst kv) \<and> valid_setting (snd kv)" "valid_key k"
    and "set v \<inter> {0, 10, 13} = {}" "c = 116 \<or> c = 102" "value_spec (c # v) = Inr None"
    and "length (config_text kvs @ (k @ 58 # 32 # c # v) @ 10 # rest) < 2 ^ 55"
  shows "load_log False bd (config_text kvs @ (k @ 58 # 32 # c # v) @ 10 # rest) = Inr [] \<and>
    (\<exists>cfg. cc_cfg_load bd (Some (config_text kvs @ (k @ 58 # 32 # c # v) @ 10 # rest)) = Inr (Some cfg) \<and>
       represents cfg (ensure_key (fold apply_setting kvs []) k))"
proof -
  let ?l = "k @ 58 # 32 # c # v"
  obtain a k' where k: "k = a # k'" "\<not> isspace a"
    using assms(2) by (cases k) (auto simp: valid_key_def is_comment_def)
  have facts: "58 \<notin> set k" "0 \<notin> set ?l" "10 \<notin> set ?l" "13 \<notin> set ?l"
    using assms(2-4) by (auto simp: valid_key_def)
  have line: "line_of False (?l @ 10 # rest) = (?l, rest, False)"
    using facts k by (intro line_of_plain) auto
  have nul: "before 0 ?l = ?l"
    by (rule before_nul [OF facts(2)])
  have com: "\<not> is_comment ?l"
    using assms(2) k by (cases k') (auto simp: valid_key_def is_comment_def)
  have val: "dropWhile isspace (32 # c # v) = c # v"
    using assms(4) by (auto simp: isspace_def)
  have "line_report False ?l = Inr ([], False)"
    using facts(1) assms(4,5) val
    by (auto simp: line_report_def line_errors_def line_value_def value_error_def isdigit_def simp del: dropWhile.simps(2))
  then have "file_report False (?l @ 10 # rest) = Inr []"
    by (subst file_report.simps) (simp only: line nul com prod.case bindE_simps if_False simp_thms if_True)
  then have "file_report False (config_text kvs @ ?l @ 10 # rest) = Inr []"
    using config_text_report [OF assms(1), of False "?l @ 10 # rest"] by simp
  moreover have "line_spec es ?l = Inr (ensure_key es k, False)" for es
    using facts(1) assms(5) val by (simp add: line_spec_def Let_def del: dropWhile.simps(2))
  then have "file_spec es (?l @ 10 # rest) = Inr (ensure_key es k, False)" for es
    by (subst file_spec.simps) (simp only: line nul com prod.case sum.case if_False simp_thms if_True)
  then have "file_spec [] (config_text kvs @ ?l @ 10 # rest) = Inr (ensure_key (fold apply_setting kvs []) k, False)"
    using config_text_spec [OF assms(1), of "[]" "?l @ 10 # rest"] by simp
  ultimately show ?thesis
    using load_log_spec [OF assms(6), of False bd] load_spec [OF assms(6), of bd] by auto
qed

theorem cfg_bad_boolean_is_silent_witness:
  "load_log False Debug (bytes ''on: ture'' @ 10 # bytes ''rate: 4'') = Inr []"
proof -
  have "value_spec (bytes ''ture'') = Inr None" "valid_key (bytes ''on'')"
    by (simp_all add: bytes_def value_spec_def valid_key_def is_comment_def isspace_def isdigit_def)
  then show ?thesis
    using cfg_bad_boolean_is_silent [of "[]" "bytes ''on''" "bytes ''ure''" 116 "bytes ''rate: 4''" Debug]
    by (simp add: bytes_def config_text_def)
qed

end
