(* ===== verification/Spec2Isabelle.thy ===== *)
theory Spec2Isabelle
  imports CC_ListProps CC_TableProps CC_String CC_Filesystem CC_FileRead CC_Value
    CC_ConfigProps CC_Pid CC_Angles CC_Demo CC_RunLoopProps CC_Time
    CC_Log CC_Memory CC_Crash CC_DebugWin CC_Calendar CC_ValueDebug CC_TableMemFree CC_PoolMemProps CC_ConfigLogProps
begin

text \<open>
  A verification library for ccore, a small C utility library: containers, strings and paths,
  configuration files, logging and crash reports, run loops, a thread pool, a PID controller and
  some geometry.

  The program and its parts.  The containers (src/list.c, src/table.c) are used by the others: the
  table keeps its buckets in lists, the thread pool (src/tpool.c) its tasks.  The configuration
  parser (src/cfg.c) rests on the strings (include/ccore/string.h) and on \<^verbatim>\<open>atof\<close>; the
  PID controller (include/ccore/pid.h) loads its gains from a configuration and computes with the
  clamps of include/ccore/math.h.  The run loop (src/run_loop.c) keeps a ring of programs that its
  thread calls at the times of the clock (src/time.c).  The crash handlers (src/except.c) print the
  stack (src/debug.c) through the log (src/log.c).  Everything allocates through src/memory.c.

  How the model is made.  CC_Prelude has the machine words of an LP64 target, the result type and
  the errors: a failed assertion of a debug build, an access through a bad pointer or outside an
  object, a read of memory never written, a division by zero, an overflow of signed arithmetic, a
  float to integer conversion that does not fit.  An operation returns \<^typ>\<open>'a res\<close>; every
  early return, every assertion and every access of the source is a branch of it.  \<^typ>\<open>build\<close>
  says whether \<^verbatim>\<open>CCASSERT\<close> is compiled in.  A loop that need not end is a
  \<^verbatim>\<open>partial_function (option)\<close>, whose result \<^const>\<open>None\<close> is not returning; the
  properties state that it does return.  Other loops are functions with their termination proofs.
  What the C library and the operating system answer is an argument: addresses of new blocks, times,
  random numbers, the bytes of files, the frames of a stack.

  The theories, and the sources they model.
  \<^item> CC_Prelude: words, errors, results, lemmas on lists and words.
  \<^item> CC_List, CC_ListOps, CC_ListProps: src/list.c and include/ccore/list.h over a memory of nodes and
    headers.  CC_List has the operations and the well-formedness of a ring; CC_ListOps the effect of
    each operation on it, and the contract \<^verbatim>\<open>cc_sequence\<close> of a sequence with its
    interpretation; CC_ListProps the properties (functional, iteration, queue and stack, clearing,
    separation).
  \<^item> CC_Table, CC_TableProps: src/table.c.  A bucket is the sequence of its nodes, by the contract of
    the list.  The locale \<^verbatim>\<open>keyed_store\<close> is interpreted for tables with one value per key
    and with many.
  \<^item> CC_TableMem, CC_TableMemProps, CC_TableMemFree: the same operations of src/table.c on the pointer
    lists of CC_List: an array of list headers, nodes with a key and either one value or a list of their
    own.  CC_TableMem has the relation between such a memory and the table of CC_Table, and that finding
    and inserting preserve it; CC_TableMemProps initialisation, lookups, iteration and whole histories;
    CC_TableMemFree the destruction, which unmaps what it frees, and that the whole life of a table
    leaves nothing allocated.
  \<^item> CC_Buffer, CC_String: byte buffers, and the functions of include/ccore/string.h with
    \<^verbatim>\<open>is_number\<close> of src/format.c.
  \<^item> CC_Filesystem, CC_FileRead: src/filesystem.c, the paths and the reading of files.
  \<^item> CC_Value, CC_ValueDebug: src/value.c and include/ccore/value.h, values, the collector, printing.
  \<^item> CC_Float: IEEE 754 binary64 and binary32 over exact rationals, each operation rounded to nearest
    even; square root, conversions, \<^verbatim>\<open>atof\<close>.
  \<^item> CC_Config, CC_ConfigSpec, CC_ConfigProps: src/cfg.c at the level of its buffers, a specification of
    values, lines and files on byte lists, the refinement between them, and the properties (round
    trip, memory safety on every file, typing of the entries, what errors leave behind).
  \<^item> CC_ConfigLog, CC_ConfigLogProps: what src/cfg.c writes to the log, the listing of
    \<^verbatim>\<open>debug_entry\<close> included: the messages of the parser line by line, their
    specification on byte lists, and which lines are rejected with which error.
  \<^item> CC_Math, CC_MathProps, CC_Angles: include/ccore/math.h and src/math.c.
  \<^item> CC_Pid: include/ccore/pid.h, with its reference controller and the loading of its gains.
  \<^item> CC_Transitions: threads as a transition system, reachable states, the locale
    \<^verbatim>\<open>invariant\<close> that every invariant of a threaded component interprets, condition
    variables.
  \<^item> CC_Pool, CC_PoolProps, CC_PoolLive: src/tpool.c; workers and clients step from one mutex operation
    to the next.  CC_PoolProps has the invariants and what they give, CC_PoolLive a measure of the work
    left that every step lowers, so that every run comes to rest, and where.
  \<^item> CC_PoolMem, CC_PoolMemSim, CC_PoolMemProps: the same pool in memory: its queue is a list of CC_List, a
    task is a block that a submission allocates and a worker or the stop frees.  CC_PoolMem has the
    steps, CC_PoolMemSim the relation to CC_Pool and a simulation lemma per operation, CC_PoolMemProps
    what follows for every run: memory safety, no block lost, every function called once, and what a
    stop and a submission at the same time do.
  \<^item> CC_RunLoop, CC_RunLoopProps, CC_Time: src/run_loop.c and src/time.c.
  \<^item> CC_Log, CC_Except: src/log.c and src/except.c.
  \<^item> CC_Crash: a crash end to end, over the models of the handlers, the log and the stack trace.
  \<^item> CC_Demo: src/demo/main.c, over the models of the pool and of the geometry.
  \<^item> CC_Debug, CC_DebugWin: src/debug.c, for POSIX and for Windows.
  \<^item> CC_Memory: src/memory.c, with the locale \<^verbatim>\<open>allocator\<close> of "must behave like realloc()"
    and its interpretation by the default allocator.
  \<^item> CC_Format, CC_Calendar: src/format.c; dates by the calendar of \<^verbatim>\<open>gmtime\<close>, which is
    defined by its cycles of years and proved to agree with the count of days.

  Bounds.  Lists and tables are as long as 64-bit sizes allow.  The parser is studied on files below
  2^55 bytes, so that its doubling buffers do not wrap around.  The pool's progress holds for any
  number of workers, its waiting, its stopping and its memory for at most 255 (and fails at
  256, which is shown).  That every function given to it is called is stated for one client thread;
  with several, a stop can race the others, which is shown.
  The text of a backtrace is below 2^63 bytes; times of day are those whose year fits an
  \<^verbatim>\<open>int\<close>.  No definition uses fuel.

  Assumptions about the machine: LP64, two's complement, 8-byte pointers, no wider evaluation or
  contraction of floating-point expressions, the C locale, and the numbers Linux gives to
  \<^verbatim>\<open>si_code\<close> and to the flags of \<^verbatim>\<open>sigaction\<close>.  Pointers that are passed on by
  value and only checked by an assertion are taken to be valid.

  Not modelled.  The values of \<^verbatim>\<open>acos\<close>, \<^verbatim>\<open>sin\<close> and
  \<^verbatim>\<open>cos\<close>, which are arguments; include/ccore/array.h and message.h, which declare
  functions and types nobody implements or uses.  The memory model of C11 and the effects
  of tasks and programs on the library's own state are outside the transition systems: a task or a
  program is a name.
\<close>

end
